(* ===== verification/Prelude.thy ===== *)
theory Prelude
  imports Main "HOL-Library.Word" "HOL-Library.AList" "HOL-Library.Multiset"
begin

text \<open>
  What every component of the model shares: byte strings, the outcome of a Go call
  (normal return, a panic, \<open>runtime.Goexit\<close>, a call that never returns), the
  collections of facts the component proofs use, lemmas on association lists (the model of
  Go's maps that the code ranges over) and the generic interfaces: a codec that reads
  tokens off a byte stream, a loop over the objects of a heap, and a transition system with
  an invariant.
\<close>

section \<open>Collections of facts\<close>

named_theorems go_defs \<open>definitions that only package other operations\<close>
named_theorems frame_simps \<open>fields an operation leaves alone\<close>

section \<open>Byte strings and Go outcomes\<close>

text \<open>A Go string or byte slice is a list of bytes; \<^typ>\<open>char\<close> is a byte.\<close>

type_synonym bytes = string

abbreviation ord :: "char \<Rightarrow> nat" where
  "ord c \<equiv> of_char c"

datatype go_panic = NilMapWrite | SendOnClosedChannel | NilDereference | NonPositiveInterval

text \<open>
  How a call of the program ends: it returns, it panics, it ends its goroutine with
  \<open>runtime.Goexit\<close> (the deferred calls still run, so the state it leaves matters), or
  it never returns.
\<close>

datatype 'a go = Ok 'a | Panic go_panic | Goexit 'a | Hang

fun go_bind :: "'a go \<Rightarrow> ('a \<Rightarrow> 'a go) \<Rightarrow> 'a go" where
  "go_bind (Ok x) f = f x"
| "go_bind (Panic p) f = Panic p"
| "go_bind (Goexit x) f = Goexit x"
| "go_bind Hang f = Hang"

lemma go_bind_Ok_iff: "go_bind r f = Ok y \<longleftrightarrow> (\<exists>x. r = Ok x \<and> f x = Ok y)"
  by (cases r) auto

lemma go_bind_Panic_iff:
  "go_bind r f = Panic p \<longleftrightarrow> r = Panic p \<or> (\<exists>x. r = Ok x \<and> f x = Panic p)"
  by (cases r) auto

lemma go_bind_Goexit_iff:
  "go_bind r f = Goexit y \<longleftrightarrow> r = Goexit y \<or> (\<exists>x. r = Ok x \<and> f x = Goexit y)"
  by (cases r) auto

lemmas go_bind_iffs = go_bind_Ok_iff go_bind_Panic_iff go_bind_Goexit_iff

section \<open>Association lists as Go maps\<close>

text \<open>
  A Go map is a list of pairs with distinct keys; the order of the list stands for the
  order in which a \<open>range\<close> loop happens to visit the map.
\<close>

lemma map_of_Some_iff_distinct:
  "distinct (map fst m) \<Longrightarrow> map_of m k = Some v \<longleftrightarrow> (k, v) \<in> set m"
  by (rule map_of_eq_Some_iff)

lemma set_AList_delete: "set (AList.delete k m) = {p \<in> set m. fst p \<noteq> k}"
  by (auto simp: AList.delete_eq)

lemma distinct_AList_delete:
  "distinct (map fst m) \<Longrightarrow> distinct (map fst (AList.delete k m))"
  by (rule AList.distinct_delete)

lemma set_AList_update:
  "distinct (map fst m) \<Longrightarrow> set (AList.update k v m) = insert (k, v) {p \<in> set m. fst p \<noteq> k}"
proof (induction m)
  case Nil
  then show ?case by simp
next
  case (Cons p m)
  then show ?case by (cases p) (auto simp: image_iff)
qed

lemma map_of_Cons_fresh:
  "map_of m k = None \<Longrightarrow> distinct (map fst m) \<Longrightarrow> distinct (map fst ((k, v) # m))"
  by (auto simp: map_of_eq_None_iff)

section \<open>Reading tokens off a byte stream\<close>

text \<open>
  Both the reader of terminated messages and the UTF-8 decoder consume a stream token by
  token. \<open>read_all\<close> is the loop around such a reader; its fuel is the length of the
  stream, which is enough because every token takes at least one byte.
\<close>

fun read_tokens :: "nat \<Rightarrow> (bytes \<Rightarrow> ('a \<times> bytes) option) \<Rightarrow> bytes \<Rightarrow> 'a list \<times> bytes" where
  "read_tokens 0 rd s = ([], s)"
| "read_tokens (Suc n) rd s =
     (case rd s of None \<Rightarrow> ([], s)
      | Some (x, rest) \<Rightarrow> (let (xs, lo) = read_tokens n rd rest in (x # xs, lo)))"

definition read_all :: "(bytes \<Rightarrow> ('a \<times> bytes) option) \<Rightarrow> bytes \<Rightarrow> 'a list \<times> bytes" where
  "read_all rd s = read_tokens (length s) rd s"

locale token_codec =
  fixes emit :: "'a \<Rightarrow> bytes"
    and rd :: "bytes \<Rightarrow> ('a \<times> bytes) option"
    and good :: "'a \<Rightarrow> bool"
  assumes rd_emit: "good x \<Longrightarrow> rd (emit x @ rest) = Some (x, rest)"
    and rd_shrinks: "rd s = Some (x, rest) \<Longrightarrow> length rest < length s"
begin

lemma emit_nonempty: "good x \<Longrightarrow> emit x \<noteq> []"
  using rd_emit [of x "[]"] rd_shrinks [of "emit x"] by auto

lemma read_tokens_emit:
  "list_all good xs \<Longrightarrow> length xs \<le> n \<Longrightarrow> rd lo = None \<Longrightarrow>
     read_tokens n rd (concat (map emit xs) @ lo) = (xs, lo)"
proof (induction xs arbitrary: n)
  case Nil
  then show ?case by (cases n) auto
next
  case (Cons x xs)
  then obtain m where "n = Suc m" by (cases n) auto
  with Cons show ?case by (simp add: rd_emit)
qed

lemma length_concat_emit: "list_all good xs \<Longrightarrow> length xs \<le> length (concat (map emit xs))"
proof (induction xs)
  case Nil
  then show ?case by simp
next
  case (Cons x xs)
  then have "Suc 0 \<le> length (emit x)" using emit_nonempty [of x] by (cases "emit x") auto
  with Cons show ?case by simp
qed

lemma read_all_emit:
  "list_all good xs \<Longrightarrow> rd lo = None \<Longrightarrow> read_all rd (concat (map emit xs) @ lo) = (xs, lo)"
  unfolding read_all_def
  by (rule read_tokens_emit) (use length_concat_emit [of xs] in auto)

lemma read_tokens_enough:
  "length s \<le> n \<Longrightarrow> read_tokens (n + k) rd s = read_tokens n rd s"
proof (induction n arbitrary: s)
  case 0
  then have "rd s = None" using rd_shrinks [of s] by (cases "rd s") auto
  then show ?case by (cases k) auto
next
  case (Suc n)
  show ?case
  proof (cases "rd s")
    case None
    then show ?thesis by simp
  next
    case (Some p)
    then obtain x rest where p: "rd s = Some (x, rest)" by (cases p) auto
    with rd_shrinks [OF p] Suc.prems have "length rest \<le> n" by simp
    with p Suc.IH show ?thesis by simp
  qed
qed

lemma read_all_step:
  assumes "rd s = Some (x, rest)"
  shows "read_all rd s = (let (xs, lo) = read_all rd rest in (x # xs, lo))"
proof -
  from rd_shrinks [OF assms] obtain k where k: "length s = Suc (length rest + k)"
    by (metis add_Suc_right less_iff_Suc_add)
  show ?thesis
    using assms read_tokens_enough [of rest "length rest" k]
    by (simp add: read_all_def k split: prod.split)
qed

lemma emit_inj_concat:
  assumes "list_all good xs" "list_all good ys" "rd [] = None"
    and "concat (map emit xs) = concat (map emit ys)"
  shows "xs = ys"
  using read_all_emit [of xs "[]"] read_all_emit [of ys "[]"] assms by simp

end

section \<open>A heap of objects\<close>

definition heap_upd :: "nat \<Rightarrow> ('c \<Rightarrow> 'c) \<Rightarrow> (nat \<Rightarrow> 'c option) \<Rightarrow> (nat \<Rightarrow> 'c option)" where
  "heap_upd x f h = h(x := map_option f (h x))"

lemma heap_upd_at: "heap_upd x f h y = (if y = x then map_option f (h x) else h y)"
  by (simp add: heap_upd_def)

text \<open>
  A loop that applies an operation to each of several objects, where the operation may depend
  on the object's address: what \<open>for range\<close> over a set of pointers does. The contract is
  that one call changes the object within a frame.
\<close>

locale delivery =
  fixes op :: "nat \<Rightarrow> 'c \<Rightarrow> 'c"
    and frame :: "'c \<Rightarrow> 'c \<Rightarrow> bool"
  assumes frame_refl: "frame c c"
    and frame_trans: "frame a b \<Longrightarrow> frame b c \<Longrightarrow> frame a c"
    and op_frame: "frame c (op x c)"
begin

lemma each_notin: "y \<notin> set xs \<Longrightarrow> fold (\<lambda>x. heap_upd x (op x)) xs h y = h y"
  by (induction xs arbitrary: h) (auto simp: heap_upd_at)

lemma each_at:
  "distinct xs \<Longrightarrow>
     fold (\<lambda>x. heap_upd x (op x)) xs h y = (if y \<in> set xs then map_option (op y) (h y) else h y)"
proof (induction xs arbitrary: h)
  case Nil
  then show ?case by simp
next
  case (Cons x xs)
  then show ?case using each_notin [of x xs] by (auto simp: heap_upd_at)
qed

lemma each_frame: "rel_option frame (h y) (fold (\<lambda>x. heap_upd x (op x)) xs h y)"
proof (induction xs arbitrary: h)
  case Nil
  then show ?case by (simp add: option.rel_refl frame_refl)
next
  case (Cons x xs)
  have "rel_option frame (h y) (heap_upd x (op x) h y)"
    by (cases "h y") (auto simp: heap_upd_at frame_refl op_frame)
  with Cons [of "heap_upd x (op x) h"] show ?case
    by (auto simp: option_rel_Some1 option_rel_Some2 elim!: option.rel_cases intro: frame_trans)
qed

text \<open>The order in which the loop visits the objects does not matter.\<close>

lemma each_perm:
  assumes "distinct xs" "distinct ys" "set xs = set ys"
  shows "fold (\<lambda>x. heap_upd x (op x)) xs h = fold (\<lambda>x. heap_upd x (op x)) ys h"
  using assms by (intro ext) (simp add: each_at)

end

section \<open>Transition systems and invariants\<close>

inductive reach :: "'s \<Rightarrow> ('s \<Rightarrow> 's \<Rightarrow> bool) \<Rightarrow> 's \<Rightarrow> bool" for s0 step where
  reach_init: "reach s0 step s0"
| reach_step: "reach s0 step s \<Longrightarrow> step s t \<Longrightarrow> reach s0 step t"

locale invariant_system =
  fixes s0 :: 's
    and step :: "'s \<Rightarrow> 's \<Rightarrow> bool"
    and inv :: "'s \<Rightarrow> bool"
  assumes inv_init: "inv s0"
    and inv_step: "inv s \<Longrightarrow> step s t \<Longrightarrow> inv t"
begin

lemma inv_reach: "reach s0 step s \<Longrightarrow> inv s"
  by (induction rule: reach.induct) (auto intro: inv_init inv_step)

end

text \<open>
  A system that implements an abstract one: every step, read through the abstraction, is a step
  of the specification.
\<close>

locale simulation = invariant_system s0 step inv
  for s0 :: 's and step :: "'s \<Rightarrow> 's \<Rightarrow> bool" and inv :: "'s \<Rightarrow> bool" +
  fixes abs :: "'s \<Rightarrow> 'a"
    and astep :: "'a \<Rightarrow> 'a \<Rightarrow> bool"
  assumes abs_step: "inv s \<Longrightarrow> step s t \<Longrightarrow> astep (abs s) (abs t)"
begin

lemma abs_reach: "reach s0 step s \<Longrightarrow> reach (abs s0) astep (abs s)"
  by (induction rule: reach.induct) (auto intro: reach.intros abs_step inv_reach)

text \<open>What the specification guarantees of its reachable states holds of the system.\<close>

lemma abs_invariant: "(\<And>a. reach (abs s0) astep a \<Longrightarrow> P a) \<Longrightarrow> reach s0 step s \<Longrightarrow> P (abs s)"
  by (blast intro: abs_reach)

end

end
