(* ===== verification/Go_Text.thy ===== *)
theory Go_Text
  imports Prelude
begin

text \<open>
  The operations of Go's \<open>strings\<close> and \<open>strconv\<close> packages the program uses on byte
  strings: \<open>HasPrefix\<close>, \<open>Index\<close>, \<open>Itoa\<close>/\<open>AppendInt\<close>, \<open>Atoi\<close>, and
  \<open>bytes.TrimRight\<close> with one cut character. Go's \<open>int\<close> is taken 64 bits wide.
\<close>

section \<open>Searching\<close>

definition HasPrefix :: "bytes \<Rightarrow> bytes \<Rightarrow> bool" where
  "HasPrefix s p \<longleftrightarrow> take (length p) s = p"

text \<open>\<open>strings.Index\<close>: the first position of \<open>sub\<close> in \<open>s\<close>, or -1.\<close>

fun Index :: "bytes \<Rightarrow> bytes \<Rightarrow> int" where
  "Index [] sub = (if sub = [] then 0 else -1)"
| "Index (c # s) sub =
     (if HasPrefix (c # s) sub then 0
      else let i = Index s sub in if i < 0 then -1 else i + 1)"

lemma HasPrefix_append [simp]: "HasPrefix (p @ s) p"
  by (simp add: HasPrefix_def)

lemma HasPrefixE: "HasPrefix s p \<Longrightarrow> (\<And>r. s = p @ r \<Longrightarrow> thesis) \<Longrightarrow> thesis"
  by (metis HasPrefix_def append_take_drop_id)

lemma Index_ge: "-1 \<le> Index s sub"
  by (induction s) (auto simp: Let_def)

lemma Index_neg: "Index s sub < 0 \<longleftrightarrow> Index s sub = -1"
  using Index_ge [of s sub] by auto

lemma Index_0_iff: "Index s sub = 0 \<longleftrightarrow> HasPrefix s sub"
proof (cases s)
  case Nil
  then show ?thesis by (auto simp: HasPrefix_def)
next
  case (Cons c t)
  then show ?thesis using Index_ge [of t sub] by (auto simp: Let_def)
qed

lemma Index_found:
  "0 \<le> Index s sub \<Longrightarrow>
     s = take (nat (Index s sub)) s @ sub @ drop (nat (Index s sub) + length sub) s"
proof (induction s)
  case Nil
  then show ?case by (auto split: if_splits)
next
  case (Cons c s)
  show ?case
  proof (cases "HasPrefix (c # s) sub")
    case True
    then have "Index (c # s) sub = 0" by simp
    with True show ?thesis by (auto elim: HasPrefixE simp del: Index.simps)
  next
    case False
    with Cons.prems have i: "0 \<le> Index s sub"
      by (auto simp: Let_def split: if_splits)
    then have "nat (Index s sub + 1) = Suc (nat (Index s sub))" by simp
    with Cons.IH [OF i] False i show ?thesis by (simp add: Let_def)
  qed
qed

lemma Index_first:
  "j < length s \<Longrightarrow> HasPrefix (drop j s) sub \<Longrightarrow> 0 \<le> Index s sub \<and> nat (Index s sub) \<le> j"
proof (induction s arbitrary: j)
  case Nil
  then show ?case by simp
next
  case (Cons c s)
  show ?case
  proof (cases j)
    case 0
    with Cons.prems show ?thesis by simp
  next
    case (Suc k)
    with Cons.prems Cons.IH [of k] show ?thesis by (auto simp: Let_def)
  qed
qed

lemma Index_absent: "Index s sub = -1 \<Longrightarrow> sub \<noteq> [] \<Longrightarrow> s \<noteq> a @ sub @ b"
proof
  assume "Index s sub = -1" "sub \<noteq> []" and s: "s = a @ sub @ b"
  then have "length a < length s" "HasPrefix (drop (length a) s) sub" by auto
  from Index_first [OF this] \<open>Index s sub = -1\<close> show False by simp
qed

section \<open>Decimal integers\<close>

definition digit_char :: "nat \<Rightarrow> char" where
  "digit_char d = char_of (48 + d)"

definition is_digit :: "char \<Rightarrow> bool" where
  "is_digit c \<longleftrightarrow> 48 \<le> ord c \<and> ord c \<le> 57"

fun nat_digits :: "nat \<Rightarrow> bytes" where
  "nat_digits n =
     (if n < 10 then [digit_char n] else nat_digits (n div 10) @ [digit_char (n mod 10)])"

declare nat_digits.simps [simp del]

text \<open>\<open>strconv.Itoa\<close>, and \<open>strconv.AppendInt\<close> with base 10.\<close>

definition Itoa :: "int \<Rightarrow> bytes" where
  "Itoa i = (if i < 0 then CHR ''-'' # nat_digits (nat (- i)) else nat_digits (nat i))"

definition digits_val :: "bytes \<Rightarrow> nat" where
  "digits_val s = foldl (\<lambda>n c. 10 * n + (ord c - 48)) 0 s"

text \<open>\<open>strconv.Atoi\<close>: an optional sign, then digits only, within the range of \<open>int\<close>.\<close>

definition Atoi :: "bytes \<Rightarrow> int option" where
  "Atoi s =
     (let neg = (s \<noteq> [] \<and> hd s = CHR ''-'');
          ds = (if s \<noteq> [] \<and> (hd s = CHR ''-'' \<or> hd s = CHR ''+'') then tl s else s);
          v = int (digits_val ds);
          i = (if neg then - v else v)
      in if ds = [] \<or> \<not> list_all is_digit ds then None
         else if - (2 ^ 63) \<le> i \<and> i < 2 ^ 63 then Some i else None)"

lemma ord_digit_char [simp]: "d < 10 \<Longrightarrow> ord (digit_char d) = 48 + d"
  by (simp add: digit_char_def)

lemma is_digit_digit_char [simp]: "d < 10 \<Longrightarrow> is_digit (digit_char d)"
  by (simp add: is_digit_def)

lemma nat_digits_all: "list_all is_digit (nat_digits n)"
proof (induction n rule: nat_digits.induct)
  case (1 n)
  then show ?case by (subst nat_digits.simps) (auto simp: list_all_append)
qed

lemma nat_digits_ne [simp]: "nat_digits n \<noteq> []"
  by (subst nat_digits.simps) simp

lemma digits_val_snoc: "digits_val (s @ [c]) = 10 * digits_val s + (ord c - 48)"
  by (simp add: digits_val_def)

lemma digits_val_nat_digits [simp]: "digits_val (nat_digits n) = n"
proof (induction n rule: nat_digits.induct)
  case (1 n)
  show ?case
  proof (cases "n < 10")
    case True
    then show ?thesis by (subst nat_digits.simps) (simp add: digits_val_def)
  next
    case False
    with 1 show ?thesis by (subst nat_digits.simps) (simp add: digits_val_snoc)
  qed
qed

lemma hd_nat_digits: "is_digit (hd (nat_digits n))"
  using nat_digits_all [of n] by (cases "nat_digits n") auto

lemma is_digit_not_sign: "is_digit c \<Longrightarrow> c \<noteq> CHR ''-'' \<and> c \<noteq> CHR ''+''"
  by (auto simp: is_digit_def)

lemma Itoa_ne [simp]: "Itoa i \<noteq> []"
  by (simp add: Itoa_def)

lemma Atoi_Itoa: "- (2 ^ 63) \<le> i \<Longrightarrow> i < 2 ^ 63 \<Longrightarrow> Atoi (Itoa i) = Some i"
  using is_digit_not_sign [OF hd_nat_digits, of "nat i"] nat_digits_all
  by (auto simp: Atoi_def Itoa_def Let_def)

lemma Itoa_inj: "Itoa i = Itoa j \<Longrightarrow> i = j"
proof -
  have neg: "hd (Itoa k) = CHR ''-'' \<longleftrightarrow> k < 0" for k
    using is_digit_not_sign [OF hd_nat_digits, of "nat k"] by (auto simp: Itoa_def)
  assume eq: "Itoa i = Itoa j"
  with neg [of i] neg [of j] have "i < 0 \<longleftrightarrow> j < 0" by simp
  with eq have "nat_digits (nat \<bar>i\<bar>) = nat_digits (nat \<bar>j\<bar>)"
    by (auto simp: Itoa_def split: if_splits)
  then have "digits_val (nat_digits (nat \<bar>i\<bar>)) = digits_val (nat_digits (nat \<bar>j\<bar>))"
    by (rule arg_cong)
  with \<open>i < 0 \<longleftrightarrow> j < 0\<close> show "i = j" by auto
qed

section \<open>Trimming\<close>

text \<open>\<open>bytes.TrimRight(s, cut)\<close> for a one-byte cut set.\<close>

definition TrimRight1 :: "char \<Rightarrow> bytes \<Rightarrow> bytes" where
  "TrimRight1 c s = rev (dropWhile (\<lambda>x. x = c) (rev s))"

lemma TrimRight1_snoc_same [simp]: "TrimRight1 c (s @ [c]) = TrimRight1 c s"
  by (simp add: TrimRight1_def)

lemma TrimRight1_snoc_other [simp]: "x \<noteq> c \<Longrightarrow> TrimRight1 c (s @ [x]) = s @ [x]"
  by (simp add: TrimRight1_def)

lemma TrimRight1_absent: "c \<notin> set s \<Longrightarrow> TrimRight1 c s = s"
  by (cases s rule: rev_cases) (auto simp: TrimRight1_def)

end
