(* ===== verification/Utf8.thy ===== *)
theory Utf8
  imports Go_Text
begin

text \<open>
  Go's \<open>unicode/utf8\<close>, as far as \<open>encoding/json\<close> depends on it: \<open>DecodeRune\<close>
  (which answers the replacement character with width 1 on any ill-formed sequence) and
  \<open>AppendRune\<close>. Code points are natural numbers.
\<close>

section \<open>Decoding and encoding one code point\<close>

definition RuneError :: nat where
  "RuneError = 65533"

text \<open>The byte at a position, 0 past the end (0 is never a continuation byte).\<close>

definition byte_at :: "bytes \<Rightarrow> nat \<Rightarrow> nat" where
  "byte_at s i = (if i < length s then ord (s ! i) else 0)"

definition is_cont :: "nat \<Rightarrow> bool" where
  "is_cont b \<longleftrightarrow> 128 \<le> b \<and> b \<le> 191"

definition second3_ok :: "nat \<Rightarrow> nat \<Rightarrow> bool" where
  "second3_ok b0 b1 \<longleftrightarrow>
     is_cont b1 \<and> (b0 = 224 \<longrightarrow> 160 \<le> b1) \<and> (b0 = 237 \<longrightarrow> b1 \<le> 159)"

definition second4_ok :: "nat \<Rightarrow> nat \<Rightarrow> bool" where
  "second4_ok b0 b1 \<longleftrightarrow>
     is_cont b1 \<and> (b0 = 240 \<longrightarrow> 144 \<le> b1) \<and> (b0 = 244 \<longrightarrow> b1 \<le> 143)"

text \<open>Six more payload bits: \<open>hi << 6 | lo\<close>.\<close>

definition cat6 :: "nat \<Rightarrow> nat \<Rightarrow> nat" where
  "cat6 hi lo = hi * 64 + lo"

fun decode_rune :: "bytes \<Rightarrow> nat \<times> nat" where
  "decode_rune [] = (RuneError, 0)"
| "decode_rune (c # s) =
     (let b0 = ord c; b1 = byte_at s 0; b2 = byte_at s 1; b3 = byte_at s 2
      in if b0 < 128 then (b0, 1)
         else if 194 \<le> b0 \<and> b0 \<le> 223 \<and> is_cont b1
           then (cat6 (b0 - 192) (b1 - 128), 2)
         else if 224 \<le> b0 \<and> b0 \<le> 239 \<and> second3_ok b0 b1 \<and> is_cont b2
           then (cat6 (cat6 (b0 - 224) (b1 - 128)) (b2 - 128), 3)
         else if 240 \<le> b0 \<and> b0 \<le> 244 \<and> second4_ok b0 b1 \<and> is_cont b2 \<and> is_cont b3
           then (cat6 (cat6 (cat6 (b0 - 240) (b1 - 128)) (b2 - 128)) (b3 - 128), 4)
         else (RuneError, 1))"

definition is_scalar :: "nat \<Rightarrow> bool" where
  "is_scalar r \<longleftrightarrow> r < 55296 \<or> (57344 \<le> r \<and> r \<le> 1114111)"

definition encode_rune :: "nat \<Rightarrow> bytes" where
  "encode_rune r0 =
     (let r = (if is_scalar r0 then r0 else RuneError)
      in map char_of
        (if r < 128 then [r]
         else if r < 2048 then [192 + r div 64, 128 + r mod 64]
         else if r < 65536 then [224 + r div 64 div 64, 128 + r div 64 mod 64, 128 + r mod 64]
         else [240 + r div 64 div 64 div 64, 128 + r div 64 div 64 mod 64,
               128 + r div 64 mod 64, 128 + r mod 64]))"

text \<open>A decoding step met an ill-formed sequence exactly when this holds.\<close>

definition ill_formed :: "bytes \<Rightarrow> bool" where
  "ill_formed s \<longleftrightarrow> decode_rune s = (RuneError, 1)"

lemma ord_lt_256 [simp]: "ord c < 256"
proof -
  have "ord c = ord (char_of (ord c))" by simp
  also have "\<dots> < 256" by (simp only: of_char_of mod_less_divisor zero_less_numeral)
  finally show ?thesis .
qed

lemma byte_at_simps [simp]:
  "byte_at [] i = 0"
  "byte_at (c # s) 0 = ord c"
  "byte_at (c # s) (Suc i) = byte_at s i"
  by (auto simp: byte_at_def)

lemma is_cont_0 [simp]: "\<not> is_cont 0" "\<not> second3_ok b 0" "\<not> second4_ok b 0"
  by (auto simp: is_cont_def second3_ok_def second4_ok_def)

lemma decode_rune_width: "s \<noteq> [] \<Longrightarrow> 1 \<le> snd (decode_rune s) \<and> snd (decode_rune s) \<le> 4"
  by (cases s) (auto simp: Let_def)

lemma decode_rune_ascii: "ord c < 128 \<Longrightarrow> decode_rune (c # s) = (ord c, 1)"
  by simp

lemma decode_rune_nonascii: "128 \<le> ord c \<Longrightarrow> 128 \<le> fst (decode_rune (c # s))"
  by (auto simp: Let_def RuneError_def is_cont_def second3_ok_def second4_ok_def cat6_def)

section \<open>Round trips\<close>

lemma byte_at_cont: "is_cont (byte_at s i) \<Longrightarrow> i < length s"
  by (auto simp: byte_at_def split: if_splits)

lemma second3_cont: "second3_ok a b \<Longrightarrow> is_cont b" by (simp add: second3_ok_def)
lemma second4_cont: "second4_ok a b \<Longrightarrow> is_cont b" by (simp add: second4_ok_def)

text \<open>The four shapes of a well-formed sequence.\<close>

lemma decode_rune_cases:
  assumes "s \<noteq> []" and "\<not> ill_formed s"
  obtains (one) c t where "s = c # t" "ord c < 128" "decode_rune s = (ord c, 1)"
  | (two) c d t where "s = c # d # t" "194 \<le> ord c" "ord c \<le> 223" "is_cont (ord d)"
      "decode_rune s = (cat6 (ord c - 192) (ord d - 128), 2)"
  | (three) c d e t where "s = c # d # e # t" "224 \<le> ord c" "ord c \<le> 239"
      "second3_ok (ord c) (ord d)" "is_cont (ord e)"
      "decode_rune s = (cat6 (cat6 (ord c - 224) (ord d - 128)) (ord e - 128), 3)"
  | (four) c d e f t where "s = c # d # e # f # t" "240 \<le> ord c" "ord c \<le> 244"
      "second4_ok (ord c) (ord d)" "is_cont (ord e)" "is_cont (ord f)"
      "decode_rune s = (cat6 (cat6 (cat6 (ord c - 240) (ord d - 128)) (ord e - 128)) (ord f - 128), 4)"
proof -
  from assms(1) obtain c u where s: "s = c # u" by (cases s) auto
  consider "ord c < 128"
    | "194 \<le> ord c \<and> ord c \<le> 223 \<and> is_cont (byte_at u 0)"
    | "224 \<le> ord c \<and> ord c \<le> 239 \<and> second3_ok (ord c) (byte_at u 0) \<and> is_cont (byte_at u 1)"
    | "240 \<le> ord c \<and> ord c \<le> 244 \<and> second4_ok (ord c) (byte_at u 0) \<and> is_cont (byte_at u 1)
         \<and> is_cont (byte_at u 2)"
    using assms(2) unfolding s ill_formed_def
    by (auto simp: Let_def simp del: One_nat_def split: if_splits)
  then show thesis
  proof cases
    case 1
    then show thesis using one s by simp
  next
    case 2
    then obtain d t where "u = d # t" by (cases u) auto
    with 2 show thesis using two s by (simp add: Let_def)
  next
    case 3
    then obtain d e t where "u = d # e # t"
      using byte_at_cont [of u 1] by (cases u; cases "tl u") auto
    with 3 show thesis using three s by (simp add: Let_def)
  next
    case 4
    then have "2 < length u" using byte_at_cont [of u 2] by simp
    then obtain d e f t where "u = d # e # f # t"
      by (cases u; cases "tl u"; cases "tl (tl u)") auto
    with 4 show thesis using four s by (simp add: Let_def numeral_2_eq_2)
  qed
qed

lemma decode_rune_prefix:
  assumes "s \<noteq> []" and "\<not> ill_formed s"
  shows "decode_rune (take (snd (decode_rune s)) s @ t) = decode_rune s"
    and "snd (decode_rune s) \<le> length s"
  using assms by (cases rule: decode_rune_cases; simp add: Let_def numeral_2_eq_2)+

lemma cat6_div_mod [simp]:
  "lo < 64 \<Longrightarrow> cat6 hi lo div 64 = hi" "lo < 64 \<Longrightarrow> cat6 hi lo mod 64 = lo"
  by (simp_all add: cat6_def)

lemma cat6_split: "cat6 (r div 64) (r mod 64) = r"
  by (simp add: cat6_def)

lemma char_of_eqI: "n = ord c \<Longrightarrow> char_of n = c"
  by simp

text \<open>The bounds on the payload bits that the two guards on the second byte give.\<close>

lemma scalar3:
  fixes x y z :: nat
  assumes "y < 64" "z < 64" "x < 16" "x = 0 \<longrightarrow> 32 \<le> y" "x = 13 \<longrightarrow> y < 32"
  shows "is_scalar (cat6 (cat6 x y) z)" "2048 \<le> cat6 (cat6 x y) z"
    "cat6 (cat6 x y) z < 65536"
proof -
  consider "x \<le> 12" | "x = 13" | "14 \<le> x" by linarith
  then show "is_scalar (cat6 (cat6 x y) z)"
    using assms by cases (auto simp: is_scalar_def cat6_def)
  show "2048 \<le> cat6 (cat6 x y) z" using assms by (cases "x = 0") (auto simp: cat6_def)
  show "cat6 (cat6 x y) z < 65536" using assms by (auto simp: cat6_def)
qed

lemma scalar4:
  fixes x y z v :: nat
  assumes "y < 64" "z < 64" "v < 64" "x < 5" "x = 0 \<longrightarrow> 16 \<le> y" "x = 4 \<longrightarrow> y < 16"
  shows "is_scalar (cat6 (cat6 (cat6 x y) z) v)"
    "65536 \<le> cat6 (cat6 (cat6 x y) z) v"
proof -
  consider "x = 0" | "x = 4" | "0 < x" "x < 4" using assms by linarith
  then show "is_scalar (cat6 (cat6 (cat6 x y) z) v)"
    using assms by cases (auto simp: is_scalar_def cat6_def)
  show "65536 \<le> cat6 (cat6 (cat6 x y) z) v" using assms by (cases "x = 0") (auto simp: cat6_def)
qed

lemma encode_decode_rune:
  assumes "s \<noteq> []" and "\<not> ill_formed s"
  shows "encode_rune (fst (decode_rune s)) = take (snd (decode_rune s)) s"
    and "is_scalar (fst (decode_rune s))"
proof -
  have "encode_rune (fst (decode_rune s)) = take (snd (decode_rune s)) s \<and>
    is_scalar (fst (decode_rune s))"
    using assms
  proof (cases rule: decode_rune_cases)
    case one
    then show ?thesis by (simp add: encode_rune_def is_scalar_def)
  next
    case (two c d t)
    define x y where "x = ord c - 192" and "y = ord d - 128"
    with two have xy: "ord c = 192 + x" "ord d = 128 + y" "y < 64" "2 \<le> x" "x < 32"
      by (auto simp: is_cont_def)
    then have "is_scalar (cat6 x y)" "cat6 x y < 2048" "128 \<le> cat6 x y"
      by (auto simp: is_scalar_def cat6_def)
    with xy two show ?thesis
      by (simp add: encode_rune_def) (auto intro!: char_of_eqI)
  next
    case (three c d e t)
    define x y z where "x = ord c - 224" and "y = ord d - 128" and "z = ord e - 128"
    with three have xy: "ord c = 224 + x" "ord d = 128 + y" "ord e = 128 + z"
      "y < 64" "z < 64" "x < 16" "x = 0 \<longrightarrow> 32 \<le> y" "x = 13 \<longrightarrow> y < 32"
      by (auto simp: is_cont_def second3_ok_def)
    note sc = scalar3 [OF xy(4-8)]
    from xy three sc show ?thesis
      by (simp add: encode_rune_def Let_def) (auto intro!: char_of_eqI)
  next
    case (four c d e f t)
    define x y z v where "x = ord c - 240" and "y = ord d - 128" and "z = ord e - 128"
      and "v = ord f - 128"
    with four have xy: "ord c = 240 + x" "ord d = 128 + y" "ord e = 128 + z" "ord f = 128 + v"
      "y < 64" "z < 64" "v < 64" "x < 5" "x = 0 \<longrightarrow> 16 \<le> y" "x = 4 \<longrightarrow> y < 16"
      by (auto simp: is_cont_def second4_ok_def)
    note sc = scalar4 [OF xy(5-10)]
    from xy four sc show ?thesis
      by (simp add: encode_rune_def Let_def) (auto intro!: char_of_eqI)
  qed
  then show "encode_rune (fst (decode_rune s)) = take (snd (decode_rune s)) s"
    and "is_scalar (fst (decode_rune s))" by blast+
qed

lemma encode_rune_ne [simp]: "encode_rune r \<noteq> []"
  by (simp add: encode_rune_def Let_def)

text \<open>Conversely, the digits of a scalar value in base 64 pass the guards.\<close>

lemma scalar3_digits:
  assumes "is_scalar r" "2048 \<le> r" "r < 65536"
  obtains x y z where "r = cat6 (cat6 x y) z" "y < 64" "z < 64" "x < 16"
    "x = 0 \<longrightarrow> 32 \<le> y" "x = 13 \<longrightarrow> y < 32"
proof -
  obtain q z where r: "r = cat6 q z" "z < 64"
    by (metis cat6_split mod_less_divisor zero_less_numeral)
  obtain x y where q: "q = cat6 x y" "y < 64"
    by (metis cat6_split mod_less_divisor zero_less_numeral)
  show thesis
  proof (rule that)
    show "r = cat6 (cat6 x y) z" "y < 64" "z < 64" using r q by simp_all
    show "x < 16" "x = 0 \<longrightarrow> 32 \<le> y" "x = 13 \<longrightarrow> y < 32"
      using assms r q by (auto simp: is_scalar_def cat6_def)
  qed
qed

lemma scalar4_digits:
  assumes "is_scalar r" "65536 \<le> r"
  obtains x y z v where "r = cat6 (cat6 (cat6 x y) z) v" "y < 64" "z < 64" "v < 64"
    "x < 5" "x = 0 \<longrightarrow> 16 \<le> y" "x = 4 \<longrightarrow> y < 16"
proof -
  obtain p v where r: "r = cat6 p v" "v < 64"
    by (metis cat6_split mod_less_divisor zero_less_numeral)
  obtain q z where p: "p = cat6 q z" "z < 64"
    by (metis cat6_split mod_less_divisor zero_less_numeral)
  obtain x y where q: "q = cat6 x y" "y < 64"
    by (metis cat6_split mod_less_divisor zero_less_numeral)
  show thesis
  proof (rule that)
    show "r = cat6 (cat6 (cat6 x y) z) v" "y < 64" "z < 64" "v < 64"
      using r p q by simp_all
    show "x < 5" "x = 0 \<longrightarrow> 16 \<le> y" "x = 4 \<longrightarrow> y < 16"
      using assms r p q by (auto simp: is_scalar_def cat6_def)
  qed
qed

lemma decode_encode_rune:
  assumes "is_scalar r"
  shows "decode_rune (encode_rune r @ t) = (r, length (encode_rune r))"
proof -
  consider "r < 128" | "128 \<le> r" "r < 2048" | "2048 \<le> r" "r < 65536" | "65536 \<le> r"
    by linarith
  then show ?thesis
  proof cases
    case 1
    then show ?thesis using assms by (simp add: encode_rune_def of_char_of)
  next
    case 2
    define x y where "x = r div 64" and "y = r mod 64"
    then have "r = cat6 x y" "y < 64" "2 \<le> x" "x < 32" using 2 by (auto simp: cat6_split)
    with 2 assms show ?thesis
      by (simp add: encode_rune_def of_char_of is_cont_def Let_def)
  next
    case 3
    from scalar3_digits [OF assms 3] obtain x y z where
      r: "r = cat6 (cat6 x y) z" and b: "y < 64" "z < 64" "x < 16"
      "x = 0 \<longrightarrow> 32 \<le> y" "x = 13 \<longrightarrow> y < 32" .
    from r b have "r div 64 = cat6 x y" "r mod 64 = z" "(cat6 x y) div 64 = x"
      "(cat6 x y) mod 64 = y" by simp_all
    with 3 b assms r show ?thesis
      by (simp add: encode_rune_def of_char_of is_cont_def second3_ok_def Let_def)
        auto
  next
    case 4
    from scalar4_digits [OF assms 4] obtain x y z v where
      r: "r = cat6 (cat6 (cat6 x y) z) v" and b: "y < 64" "z < 64" "v < 64" "x < 5"
      "x = 0 \<longrightarrow> 16 \<le> y" "x = 4 \<longrightarrow> y < 16" .
    from r b have "r div 64 = cat6 (cat6 x y) z" "r mod 64 = v"
      "(cat6 (cat6 x y) z) div 64 = cat6 x y" "(cat6 (cat6 x y) z) mod 64 = z"
      "(cat6 x y) div 64 = x" "(cat6 x y) mod 64 = y" by simp_all
    with 4 b assms r show ?thesis
      by (simp add: encode_rune_def of_char_of is_cont_def second4_ok_def Let_def
          numeral_2_eq_2) auto
  qed
qed

section \<open>Well-formed byte strings\<close>

text \<open>The decoding loop \<open>for len(s) > 0\<close>, stopped at the first ill-formed sequence.\<close>

definition read_rune :: "bytes \<Rightarrow> (nat \<times> bytes) option" where
  "read_rune s =
     (if s = [] \<or> ill_formed s then None
      else Some (fst (decode_rune s), drop (snd (decode_rune s)) s))"

definition valid_utf8 :: "bytes \<Rightarrow> bool" where
  "valid_utf8 s \<longleftrightarrow> snd (read_all read_rune s) = []"

lemma encode_rune_length_1: "length (encode_rune r) = 1 \<Longrightarrow> r < 128"
  by (auto simp: encode_rune_def Let_def is_scalar_def RuneError_def split: if_splits)

lemma not_ill_formed_encode: "is_scalar r \<Longrightarrow> \<not> ill_formed (encode_rune r @ t)"
  using encode_rune_length_1 [of r] by (auto simp: ill_formed_def decode_encode_rune RuneError_def)

interpretation rune: token_codec encode_rune read_rune is_scalar
proof
  show "is_scalar x \<Longrightarrow> read_rune (encode_rune x @ rest) = Some (x, rest)" for x rest
    by (simp add: read_rune_def not_ill_formed_encode decode_encode_rune)
  show "read_rune s = Some (x, rest) \<Longrightarrow> length rest < length s" for s x rest
    using decode_rune_width [of s] by (auto simp: read_rune_def split: if_splits)
qed

lemma valid_utf8_Nil [simp]: "valid_utf8 []"
  by (simp add: valid_utf8_def read_all_def)

lemma valid_utf8_ne:
  assumes "valid_utf8 s" and "s \<noteq> []"
  shows "\<not> ill_formed s" and "valid_utf8 (drop (snd (decode_rune s)) s)"
proof -
  show ok: "\<not> ill_formed s"
  proof
    assume "ill_formed s"
    then have "read_rune s = None" by (simp add: read_rune_def)
    with assms show False by (cases s) (auto simp: valid_utf8_def read_all_def)
  qed
  with assms(2) have "read_rune s = Some (fst (decode_rune s), drop (snd (decode_rune s)) s)"
    by (simp add: read_rune_def)
  from rune.read_all_step [OF this] assms(1)
  show "valid_utf8 (drop (snd (decode_rune s)) s)"
    by (auto simp: valid_utf8_def Let_def split: prod.splits)
qed

text \<open>Well-formed strings are exactly the encodings of lists of scalar values.\<close>

lemma valid_utf8_encode: "list_all is_scalar rs \<Longrightarrow> valid_utf8 (concat (map encode_rune rs))"
  using rune.read_all_emit [of rs "[]"] by (simp add: valid_utf8_def read_rune_def)

lemma valid_utf8_runes:
  "valid_utf8 s \<Longrightarrow> \<exists>rs. list_all is_scalar rs \<and> s = concat (map encode_rune rs)"
proof (induction "length s" arbitrary: s rule: less_induct)
  case less
  show ?case
  proof (cases "s = []")
    case True
    then show ?thesis by (intro exI [of _ "[]"]) simp
  next
    case False
    let ?n = "snd (decode_rune s)"
    from less.prems False have ok: "\<not> ill_formed s" and v: "valid_utf8 (drop ?n s)"
      by (rule valid_utf8_ne)+
    from False decode_rune_width [OF False] have "length (drop ?n s) < length s" by simp
    with less.hyps v obtain rs where
      rs: "list_all is_scalar rs" "drop ?n s = concat (map encode_rune rs)" by blast
    note step = encode_decode_rune [OF False ok]
    have "s = encode_rune (fst (decode_rune s)) @ concat (map encode_rune rs)"
      by (metis append_take_drop_id step(1) rs(2))
    with step(2) rs(1) show ?thesis
      by (intro exI [of _ "fst (decode_rune s) # rs"]) simp
  qed
qed

lemma valid_utf8_iff:
  "valid_utf8 s \<longleftrightarrow> (\<exists>rs. list_all is_scalar rs \<and> s = concat (map encode_rune rs))"
  using valid_utf8_encode valid_utf8_runes by blast

lemma ascii_rune: "ord c < 128 \<Longrightarrow> encode_rune (ord c) = [c] \<and> is_scalar (ord c)"
  by (simp add: encode_rune_def is_scalar_def)

lemma valid_utf8_ascii: "list_all (\<lambda>c. ord c < 128) s \<Longrightarrow> valid_utf8 s"
proof -
  assume a: "list_all (\<lambda>c. ord c < 128) s"
  then have "list_all is_scalar (map ord s)" "s = concat (map encode_rune (map ord s))"
    by (induction s) (simp_all add: ascii_rune)
  then show ?thesis unfolding valid_utf8_iff by blast
qed

declare decode_rune.simps [simp del]

end
