(* ===== verification/Json.thy ===== *)
theory Json
  imports Utf8
begin

text \<open>
  JSON text as Go's \<open>encoding/json\<close> reads and writes it: the quoting of strings (with
  the HTML-safe escapes \<open>json.Marshal\<close> uses), the syntax checker and value reader behind
  \<open>json.Unmarshal\<close> (RFC 8259, nesting limit 10000, ill-formed UTF-8 and lone surrogates
  replaced), and the compact printer. The main results: reading undoes printing
  (\<open>parse_json_print\<close>), and printed text never holds a control character.
\<close>

section \<open>Values and white space\<close>

datatype jval =
    JNull
  | JBool bool
  | JNum bytes
  | JStr bytes
  | JArr "jval list"
  | JObj "(bytes \<times> jval) list"

abbreviation dquote :: char where "dquote \<equiv> CHR 0x22"
abbreviation bslash :: char where "bslash \<equiv> CHR 0x5C"

definition is_ws :: "char \<Rightarrow> bool" where
  "is_ws c \<longleftrightarrow> c = CHR 0x20 \<or> c = CHR 0x09 \<or> c = CHR 0x0D \<or> c = CHR 0x0A"

definition skip_ws :: "bytes \<Rightarrow> bytes" where
  "skip_ws s = dropWhile is_ws s"

text \<open>The next byte that is not white space, and what follows it.\<close>

definition next_tok :: "bytes \<Rightarrow> (char \<times> bytes) option" where
  "next_tok s = (case skip_ws s of [] \<Rightarrow> None | c # t \<Rightarrow> Some (c, t))"

lemma skip_ws_simps [simp]:
  "skip_ws [] = []"
  "skip_ws (c # s) = (if is_ws c then skip_ws s else c # s)"
  by (simp_all add: skip_ws_def)

lemma length_skip_ws: "length (skip_ws s) \<le> length s"
  by (simp add: skip_ws_def length_dropWhile_le)

lemma skip_ws_ws: "list_all is_ws w \<Longrightarrow> skip_ws (w @ s) = skip_ws s"
  by (induction w) auto

lemma skip_ws_split: "s = takeWhile is_ws s @ skip_ws s"
  by (simp add: skip_ws_def)

lemma skip_ws_hd: "skip_ws s = c # t \<Longrightarrow> \<not> is_ws c"
  unfolding skip_ws_def by (metis hd_dropWhile list.discI list.sel(1))

lemma skip_ws_idem [simp]: "skip_ws (skip_ws s) = skip_ws s"
  by (cases "skip_ws s") (auto dest: skip_ws_hd)

lemma next_tok_skip_ws [simp]: "next_tok (skip_ws s) = next_tok s"
  by (simp add: next_tok_def)

lemma next_tok_Cons: "next_tok (c # s) = (if is_ws c then next_tok s else Some (c, s))"
  by (simp add: next_tok_def)

lemma next_tok_Nil [simp]: "next_tok [] = None"
  by (simp add: next_tok_def)

lemma next_tok_shrinks: "next_tok s = Some (c, t) \<Longrightarrow> length t < length s"
  using length_skip_ws [of s] by (auto simp: next_tok_def split: list.splits)

section \<open>String literals\<close>

definition hex_char :: "nat \<Rightarrow> char" where
  "hex_char d = (if d < 10 then char_of (48 + d) else char_of (87 + d))"

definition hex_val :: "char \<Rightarrow> nat option" where
  "hex_val c =
     (let n = ord c
      in if 48 \<le> n \<and> n \<le> 57 then Some (n - 48)
         else if 97 \<le> n \<and> n \<le> 102 then Some (n - 87)
         else if 65 \<le> n \<and> n \<le> 70 then Some (n - 55)
         else None)"

text \<open>
  \<open>appendString\<close> of \<open>encoding/json\<close> with \<open>escapeHTML\<close>: an ASCII byte is
  copied unless it is a control character, a quote, a backslash or one of the three HTML
  characters.
\<close>

definition html_safe :: "char \<Rightarrow> bool" where
  "html_safe c \<longleftrightarrow> 32 \<le> ord c \<and> c \<noteq> dquote \<and> c \<noteq> bslash
     \<and> c \<noteq> CHR ''<'' \<and> c \<noteq> CHR ''>'' \<and> c \<noteq> CHR ''&''"

definition escape_byte :: "char \<Rightarrow> bytes" where
  "escape_byte c =
     (if c = dquote \<or> c = bslash then [bslash, c]
      else if ord c = 8 then [bslash, CHR ''b'']
      else if ord c = 12 then [bslash, CHR ''f'']
      else if ord c = 10 then [bslash, CHR ''n'']
      else if ord c = 13 then [bslash, CHR ''r'']
      else if ord c = 9 then [bslash, CHR ''t'']
      else [bslash, CHR ''u'', CHR ''0'', CHR ''0'', hex_char (ord c div 16),
            hex_char (ord c mod 16)])"

function escape :: "bytes \<Rightarrow> bytes" where
  "escape [] = []"
| "escape (c # s) =
     (if ord c < 128 then (if html_safe c then [c] else escape_byte c) @ escape s
      else (let r = fst (decode_rune (c # s)); n = snd (decode_rune (c # s))
            in (if ill_formed (c # s) then bslash # ''ufffd''
                else if r = 8232 \<or> r = 8233 then bslash # ''u202'' @ [hex_char (r mod 16)]
                else take n (c # s)) @ escape (drop (n - 1) s)))"
  by pat_completeness auto
termination by (relation "measure length") auto

definition json_quote :: "bytes \<Rightarrow> bytes" where
  "json_quote s = dquote # escape s @ [dquote]"

text \<open>\<open>getu4\<close>: four hexadecimal digits.\<close>

definition getu4 :: "bytes \<Rightarrow> nat option" where
  "getu4 s =
     (case map hex_val (take 4 s) of
        [Some a, Some b, Some c, Some d] \<Rightarrow> Some (((a * 16 + b) * 16 + c) * 16 + d)
      | _ \<Rightarrow> None)"

definition is_surrogate :: "nat \<Rightarrow> bool" where
  "is_surrogate r \<longleftrightarrow> 55296 \<le> r \<and> r < 57344"

text \<open>
  The low half of a surrogate pair: \<open>r1\<close> from a following \<open>\\u\<close> escape, and
  \<open>utf16.DecodeRune\<close>.
\<close>

definition surrogate_pair :: "nat \<Rightarrow> bytes \<Rightarrow> nat option" where
  "surrogate_pair r t =
     (if take 2 t = [bslash, CHR ''u''] then
        (case getu4 (drop 2 t) of
           None \<Rightarrow> None
         | Some r1 \<Rightarrow>
             if 55296 \<le> r \<and> r < 56320 \<and> 56320 \<le> r1 \<and> r1 < 57344
             then Some ((r - 55296) * 1024 + (r1 - 56320) + 65536) else None)
      else None)"

definition unescape1 :: "char \<Rightarrow> char option" where
  "unescape1 e =
     (if e = dquote \<or> e = bslash \<or> e = CHR ''/'' then Some e
      else if e = CHR ''b'' then Some (CHR 0x08)
      else if e = CHR ''f'' then Some (CHR 0x0C)
      else if e = CHR ''n'' then Some (CHR 0x0A)
      else if e = CHR ''r'' then Some (CHR 0x0D)
      else if e = CHR ''t'' then Some (CHR 0x09)
      else None)"

definition prepend :: "bytes \<Rightarrow> (bytes \<times> 'r) option \<Rightarrow> (bytes \<times> 'r) option" where
  "prepend p x = map_option (\<lambda>(s, r). (p @ s, r)) x"

text \<open>
  The body of a string literal after its opening quote, up to and including the closing one:
  the syntax check of the scanner and \<open>unquote\<close> in one pass.
\<close>

function parse_str :: "bytes \<Rightarrow> (bytes \<times> bytes) option" where
  "parse_str [] = None"
| "parse_str (c # s) =
     (if c = dquote then Some ([], s)
      else if c = bslash then
        (case s of
           [] \<Rightarrow> None
         | e # t \<Rightarrow>
             if e = CHR ''u'' then
               (case getu4 t of
                  None \<Rightarrow> None
                | Some r \<Rightarrow>
                    if is_surrogate r then
                      (case surrogate_pair r (drop 4 t) of
                         Some r' \<Rightarrow> prepend (encode_rune r') (parse_str (drop 10 t))
                       | None \<Rightarrow> prepend (encode_rune RuneError) (parse_str (drop 4 t)))
                    else prepend (encode_rune r) (parse_str (drop 4 t)))
             else
               (case unescape1 e of
                  None \<Rightarrow> None
                | Some b \<Rightarrow> prepend [b] (parse_str t)))
      else if ord c < 32 then None
      else if ord c < 128 then prepend [c] (parse_str s)
      else prepend (encode_rune (fst (decode_rune (c # s))))
             (parse_str (drop (snd (decode_rune (c # s)) - 1) s)))"
  by pat_completeness auto
termination by (relation "measure length") auto

declare escape.simps(2) [simp del]
declare parse_str.simps(2) [simp del]

lemma prepend_Some [simp]: "prepend p (Some (s, r)) = Some (p @ s, r)"
  by (simp add: prepend_def)

lemma prepend_None [simp]: "prepend p None = None"
  by (simp add: prepend_def)

lemma prepend_eq_Some:
  "prepend p x = Some (s, r) \<longleftrightarrow> (\<exists>s'. x = Some (s', r) \<and> s = p @ s')"
  by (cases x) (auto simp: prepend_def)

lemma parse_str_shrinks: "parse_str s = Some (x, r) \<Longrightarrow> length r < length s"
proof (induction "length s" arbitrary: s x rule: less_induct)
  case less
  have IH: "parse_str t = Some (y, r) \<Longrightarrow> length t < length s \<Longrightarrow> length r < length s" for t y
    using less.hyps [of t y] by simp
  show ?case
  proof (cases s)
    case Nil
    with less.prems show ?thesis by simp
  next
    case (Cons c u)
    with less.prems IH show ?thesis
      unfolding Cons parse_str.simps(2)
      by (auto simp: prepend_eq_Some less_Suc_eq_le split: if_splits list.splits option.splits)
  qed
qed

section \<open>Quoting is undone by reading\<close>

lemma hex_val_hex_char [simp]: "d < 16 \<Longrightarrow> hex_val (hex_char d) = Some d"
  by (auto simp: hex_val_def hex_char_def of_char_of Let_def)

lemma getu4_hex:
  assumes "a < 16" "b < 16" "c < 16" "d < 16"
  shows "getu4 (hex_char a # hex_char b # hex_char c # hex_char d # t) =
    Some (((a * 16 + b) * 16 + c) * 16 + d)"
  using assms by (simp add: getu4_def)

lemma ord_eqI: "ord c = ord d \<Longrightarrow> c = d"
  by (metis char_of_char)

lemma hex_char_0 [simp]: "hex_char 0 = CHR ''0''" and hex_char_2 [simp]: "hex_char 2 = CHR ''2''"
  by (rule ord_eqI, simp add: hex_char_def of_char_of)+

lemma hex_char_ge: "d < 16 \<Longrightarrow> 32 \<le> ord (hex_char d)"
  by (auto simp: hex_char_def of_char_of)

lemma parse_escape_byte:
  assumes "ord c < 128" and "\<not> html_safe c"
  shows "parse_str (escape_byte c @ t) = prepend [c] (parse_str t)"
proof -
  consider "c = dquote \<or> c = bslash" | "ord c = 8" | "ord c = 12" | "ord c = 10" | "ord c = 13"
    | "ord c = 9"
    | "c \<noteq> dquote" "c \<noteq> bslash" "ord c \<notin> {8, 12, 10, 13, 9}" by auto
  then show ?thesis
  proof cases
    case 1
    then show ?thesis by (auto simp: escape_byte_def parse_str.simps(2) unescape1_def)
  next
    case 2
    then have "c = CHR 0x08" by (intro ord_eqI) simp
    then show ?thesis by (simp add: escape_byte_def parse_str.simps(2) unescape1_def)
  next
    case 3
    then have "c = CHR 0x0C" by (intro ord_eqI) simp
    then show ?thesis by (simp add: escape_byte_def parse_str.simps(2) unescape1_def)
  next
    case 4
    then have "c = CHR 0x0A" by (intro ord_eqI) simp
    then show ?thesis by (simp add: escape_byte_def parse_str.simps(2) unescape1_def)
  next
    case 5
    then have "c = CHR 0x0D" by (intro ord_eqI) simp
    then show ?thesis by (simp add: escape_byte_def parse_str.simps(2) unescape1_def)
  next
    case 6
    then have "c = CHR 0x09" by (intro ord_eqI) simp
    then show ?thesis by (simp add: escape_byte_def parse_str.simps(2) unescape1_def)
  next
    case 7
    have "ord c div 16 < 16" using assms(1) by simp
    then have "getu4 (CHR ''0'' # CHR ''0'' # hex_char (ord c div 16) # hex_char (ord c mod 16) # t)
      = Some (ord c)"
      using getu4_hex [of 0 0 "ord c div 16" "ord c mod 16" t] by simp
    with 7 assms show ?thesis
      by (simp add: escape_byte_def parse_str.simps(2) is_surrogate_def ascii_rune)
  qed
qed

text \<open>A whole multi-byte sequence is read as one code point and written back unchanged.\<close>

lemma parse_str_multibyte:
  assumes "128 \<le> ord c" and "\<not> ill_formed (c # s)"
  shows "parse_str (take (snd (decode_rune (c # s))) (c # s) @ t) =
    prepend (take (snd (decode_rune (c # s))) (c # s)) (parse_str t)"
proof -
  let ?n = "snd (decode_rune (c # s))"
  have ne: "c # s \<noteq> []" by simp
  note dr = decode_rune_prefix(1) [OF ne assms(2), of t] decode_rune_prefix(2) [OF ne assms(2)]
  from decode_rune_width [OF ne] obtain m where m: "?n = Suc m" by (cases ?n) auto
  with dr have "decode_rune (c # take m s @ t) = decode_rune (c # s)" by simp
  moreover from dr(2) m have "drop m (take m s @ t) = t" by simp
  moreover have "c \<noteq> dquote" "c \<noteq> bslash" "\<not> ord c < 32" using assms(1) by auto
  ultimately show ?thesis
    using assms(1) m encode_decode_rune(1) [OF ne assms(2)]
    by (simp add: parse_str.simps(2))
qed

lemma parse_str_escape:
  "valid_utf8 s \<Longrightarrow> parse_str (escape s @ dquote # rest) = Some (s, rest)"
proof (induction "length s" arbitrary: s rule: less_induct)
  case less
  show ?case
  proof (cases s)
    case Nil
    then show ?thesis by (simp add: parse_str.simps(2))
  next
    case (Cons c u)
    let ?n = "snd (decode_rune s)"
    from less.prems Cons have ok: "\<not> ill_formed s" and v: "valid_utf8 (drop ?n s)"
      using valid_utf8_ne [of s] by auto
    from decode_rune_width [of s] Cons have n: "0 < ?n" by auto
    with Cons have "length (drop ?n s) < length s" by simp
    from less.hyps [OF this v]
    have IH: "parse_str (escape (drop ?n s) @ dquote # rest) = Some (drop ?n s, rest)" .
    show ?thesis
    proof (cases "ord c < 128")
      case True
      with Cons have "?n = 1" by (simp add: decode_rune_ascii)
      with IH Cons have IH: "parse_str (escape u @ dquote # rest) = Some (u, rest)" by simp
      show ?thesis
      proof (cases "html_safe c")
        case True
        with \<open>ord c < 128\<close> IH show ?thesis
          by (auto simp: Cons escape.simps(2) parse_str.simps(2) [of c] html_safe_def)
      next
        case False
        with \<open>ord c < 128\<close> IH show ?thesis by (simp add: Cons escape.simps(2) parse_escape_byte)
      qed
    next
      case False
      let ?r = "fst (decode_rune s)"
      have dropu: "drop (?n - 1) u = drop ?n s" using n Cons by (cases ?n) auto
      show ?thesis
      proof (cases "?r = 8232 \<or> ?r = 8233")
        case True
        then have "getu4 (CHR ''2'' # CHR ''0'' # CHR ''2'' # hex_char (?r mod 16) # t) = Some ?r" for t
          using getu4_hex [of 2 0 2 "?r mod 16" t] by auto
        moreover have "encode_rune ?r = take ?n s" using encode_decode_rune(1) Cons ok by simp
        moreover from True have "\<not> is_surrogate ?r" by (auto simp: is_surrogate_def)
        ultimately show ?thesis
          using True False IH ok dropu
          by (simp add: Cons escape.simps(2) Let_def parse_str.simps(2) [of bslash])
      next
        case no: False
        with False have "escape s = take ?n s @ escape (drop ?n s)"
          using ok dropu by (simp add: Cons escape.simps(2) Let_def)
        then show ?thesis
          using parse_str_multibyte [of c u] False ok IH Cons by simp
      qed
    qed
  qed
qed

lemma escape_byte_printable:
  "ord c < 128 \<Longrightarrow> b \<in> set (escape_byte c) \<Longrightarrow> 32 \<le> ord b"
  by (auto simp: escape_byte_def hex_char_ge split: if_splits)

lemma escape_printable: "b \<in> set (escape s) \<Longrightarrow> 32 \<le> ord b"
proof (induction s rule: escape.induct)
  case 1
  then show ?case by simp
next
  case (2 c s)
  show ?case
  proof (cases "ord c < 128")
    case True
    with 2 show ?thesis
      by (auto simp: escape.simps(2) html_safe_def dest: escape_byte_printable split: if_splits)
  next
    case False
    have "32 \<le> ord x"
      if "\<not> ill_formed (c # s)" "x \<in> set (take (snd (decode_rune (c # s))) (c # s))" for x
      using list.distinct(2) that(1)
      by (cases rule: decode_rune_cases)
         (use that(2) False in \<open>auto simp: is_cont_def numeral_eq_Suc dest!: second3_cont second4_cont\<close>)
    with 2 False show ?thesis
      by (auto simp: escape.simps(2) Let_def hex_char_ge split: if_splits)
  qed
qed

lemma json_quote_printable: "b \<in> set (json_quote s) \<Longrightarrow> 32 \<le> ord b"
  by (auto simp: json_quote_def dest: escape_printable)

section \<open>Reading values\<close>

text \<open>A run of digits: the run and the rest.\<close>

definition span_digits :: "bytes \<Rightarrow> bytes \<times> bytes" where
  "span_digits s = (takeWhile is_digit s, dropWhile is_digit s)"

text \<open>
  A number literal is kept as its text. The three parts of the grammar: the integer part
  (no superfluous leading zero), the fraction and the exponent.
\<close>

definition num_int :: "bytes \<Rightarrow> (bytes \<times> bytes) option" where
  "num_int s =
     (case s of [] \<Rightarrow> None
      | c # t \<Rightarrow> if c = CHR ''0'' then Some ([c], t)
                 else if is_digit c then Some (span_digits s) else None)"

definition num_frac :: "bytes \<Rightarrow> (bytes \<times> bytes) option" where
  "num_frac s =
     (case s of [] \<Rightarrow> Some ([], s)
      | c # t \<Rightarrow> if c \<noteq> CHR ''.'' then Some ([], s)
                 else let (ds, r) = span_digits t in if ds = [] then None else Some (c # ds, r))"

definition num_exp :: "bytes \<Rightarrow> (bytes \<times> bytes) option" where
  "num_exp s =
     (case s of [] \<Rightarrow> Some ([], s)
      | c # t \<Rightarrow> if c \<noteq> CHR ''e'' \<and> c \<noteq> CHR ''E'' then Some ([], s)
                 else let sg = (if t \<noteq> [] \<and> (hd t = CHR ''+'' \<or> hd t = CHR ''-'') then [hd t] else []);
                          (ds, r) = span_digits (drop (length sg) t)
                      in if ds = [] then None else Some (c # sg @ ds, r))"

definition parse_number :: "bytes \<Rightarrow> (bytes \<times> bytes) option" where
  "parse_number s =
     (let sg = (if s \<noteq> [] \<and> hd s = CHR ''-'' then [CHR ''-''] else [])
      in case num_int (drop (length sg) s) of None \<Rightarrow> None
         | Some (i, r1) \<Rightarrow>
             (case num_frac r1 of None \<Rightarrow> None
              | Some (f, r2) \<Rightarrow>
                  (case num_exp r2 of None \<Rightarrow> None
                   | Some (e, r3) \<Rightarrow> Some (sg @ i @ f @ e, r3))))"

text \<open>
  The value reader. \<open>d\<close> is the nesting still allowed; the first argument is fuel, and
  \<open>enough\<close> below shows that two units per byte are enough. \<open>pe\<close> and \<open>pm\<close> read
  the elements of an array and the members of an object, up to the closing bracket.
\<close>

fun pv :: "nat \<Rightarrow> nat \<Rightarrow> bytes \<Rightarrow> (jval \<times> bytes) option"
and pe :: "nat \<Rightarrow> nat \<Rightarrow> bytes \<Rightarrow> (jval list \<times> bytes) option"
and pm :: "nat \<Rightarrow> nat \<Rightarrow> bytes \<Rightarrow> ((bytes \<times> jval) list \<times> bytes) option"
where
  "pv 0 d s = None"
| "pv (Suc n) d s =
     (case next_tok s of None \<Rightarrow> None
      | Some (c, t) \<Rightarrow>
         if c = CHR ''{'' then
           (if d = 0 then None
            else case next_tok t of None \<Rightarrow> None
            | Some (e, u) \<Rightarrow>
               if e = CHR ''}'' then Some (JObj [], u)
               else map_option (map_prod JObj id) (pm n (d - 1) t))
         else if c = CHR ''['' then
           (if d = 0 then None
            else case next_tok t of None \<Rightarrow> None
            | Some (e, u) \<Rightarrow>
               if e = CHR '']'' then Some (JArr [], u)
               else map_option (map_prod JArr id) (pe n (d - 1) t))
         else if c = dquote then map_option (map_prod JStr id) (parse_str t)
         else if HasPrefix (c # t) ''null'' then Some (JNull, drop 3 t)
         else if HasPrefix (c # t) ''true'' then Some (JBool True, drop 3 t)
         else if HasPrefix (c # t) ''false'' then Some (JBool False, drop 4 t)
         else map_option (map_prod JNum id) (parse_number (c # t)))"
| "pe 0 d s = None"
| "pe (Suc n) d s =
     (case pv n d s of None \<Rightarrow> None
      | Some (v, r) \<Rightarrow>
         (case next_tok r of None \<Rightarrow> None
          | Some (c, t) \<Rightarrow>
             if c = CHR '']'' then Some ([v], t)
             else if c = CHR '','' then map_option (map_prod (Cons v) id) (pe n d t)
             else None))"
| "pm 0 d s = None"
| "pm (Suc n) d s =
     (case next_tok s of None \<Rightarrow> None
      | Some (q, t) \<Rightarrow>
         if q \<noteq> dquote then None
         else (case parse_str t of None \<Rightarrow> None
          | Some (k, r) \<Rightarrow>
             (case next_tok r of None \<Rightarrow> None
              | Some (c, r1) \<Rightarrow>
                 if c \<noteq> CHR '':'' then None
                 else (case pv n d r1 of None \<Rightarrow> None
                  | Some (v, r2) \<Rightarrow>
                     (case next_tok r2 of None \<Rightarrow> None
                      | Some (e, r3) \<Rightarrow>
                         if e = CHR ''}'' then Some ([(k, v)], r3)
                         else if e = CHR '','' then
                           map_option (map_prod (Cons (k, v)) id) (pm n d r3)
                         else None)))))"

text \<open>\<open>maxNestingDepth\<close> of \<open>encoding/json\<close>.\<close>

definition max_depth :: nat where
  "max_depth = 10000"

definition parse_value :: "nat \<Rightarrow> bytes \<Rightarrow> (jval \<times> bytes) option" where
  "parse_value d s = pv (Suc (length s + length s)) d s"

definition parse_elems :: "nat \<Rightarrow> bytes \<Rightarrow> (jval list \<times> bytes) option" where
  "parse_elems d s = pe (Suc (Suc (length s + length s))) d s"

definition parse_members :: "nat \<Rightarrow> bytes \<Rightarrow> ((bytes \<times> jval) list \<times> bytes) option" where
  "parse_members d s = pm (Suc (Suc (length s + length s))) d s"

definition parse_json :: "bytes \<Rightarrow> jval option" where
  "parse_json s =
     (case parse_value max_depth s of None \<Rightarrow> None
      | Some (v, r) \<Rightarrow> if skip_ws r = [] then Some v else None)"

subsection \<open>Every reader consumes at least one byte\<close>

lemma num_int_shrinks: "num_int s = Some (i, r) \<Longrightarrow> length r < length s"
  by (auto simp: num_int_def span_digits_def le_imp_less_Suc length_dropWhile_le
      split: list.splits if_splits)

lemma num_frac_le: "num_frac s = Some (i, r) \<Longrightarrow> length r \<le> length s"
  by (auto simp: num_frac_def span_digits_def Let_def length_dropWhile_le le_SucI
      split: list.splits if_splits)

lemma num_exp_le: "num_exp s = Some (i, r) \<Longrightarrow> length r \<le> length s"
proof (cases s)
  case (Cons c t)
  assume "num_exp s = Some (i, r)"
  have "length (dropWhile is_digit (drop n t)) \<le> Suc (length t)" for n
    by (rule le_SucI, rule order_trans [OF length_dropWhile_le]) simp
  from this [of 0] this [of 1] show ?thesis
    using \<open>num_exp s = Some (i, r)\<close>
    by (auto simp: num_exp_def Cons span_digits_def Let_def split: if_splits)
qed (simp add: num_exp_def)

lemma parse_number_shrinks: "parse_number s = Some (x, r) \<Longrightarrow> length r < length s"
  by (auto simp: parse_number_def Let_def split: option.splits if_splits
      dest!: num_int_shrinks num_frac_le num_exp_le)
     (simp add: less_diff_conv)?

lemma shrinks:
  shows pv_shrinks: "pv n d s = Some (v, r) \<Longrightarrow> length r < length s"
    and pe_shrinks: "pe n d s = Some (vs, r) \<Longrightarrow> length r < length s"
    and pm_shrinks: "pm n d s = Some (ms, r) \<Longrightarrow> length r < length s"
proof (induction n d s and n d s and n d s arbitrary: v r and vs r and ms r
    rule: pv_pe_pm.induct)
  case (2 n d s)
  then show ?case
    by (fastforce split: option.splits if_splits prod.splits
        dest!: next_tok_shrinks parse_str_shrinks parse_number_shrinks)
next
  case (4 n d s)
  then show ?case
    by (fastforce split: option.splits if_splits prod.splits dest!: next_tok_shrinks)
next
  case (6 n d s)
  then show ?case
    by (fastforce split: option.splits if_splits prod.splits
        dest!: next_tok_shrinks parse_str_shrinks)
qed simp_all

subsection \<open>Two units of fuel per byte are enough\<close>

lemma enough:
  "(length s + length s < n \<longrightarrow> pv (n + k) d s = pv n d s) \<and>
   (Suc (length s + length s) < n \<longrightarrow> pe (n + k) d s = pe n d s) \<and>
   (Suc (length s + length s) < n \<longrightarrow> pm (n + k) d s = pm n d s)"
proof (induction n arbitrary: d s)
  case 0
  then show ?case by simp
next
  case (Suc n)
  have v: "pv (n + k) d s = pv n d s" if "length s + length s < n" for d s
    using Suc.IH that by blast
  have e: "pe (n + k) d s = pe n d s" if "Suc (length s + length s) < n" for d s
    using Suc.IH that by blast
  have m: "pm (n + k) d s = pm n d s" if "Suc (length s + length s) < n" for d s
    using Suc.IH that by blast
  have "pv (Suc n + k) d s = pv (Suc n) d s" if l: "length s + length s < Suc n"
  proof -
    have "pm (n + k) (d - 1) t = pm n (d - 1) t" "pe (n + k) (d - 1) t = pe n (d - 1) t"
      if "next_tok s = Some (c, t)" for c t
      using l next_tok_shrinks [OF that] by (auto intro: m e)
    then show ?thesis by (auto split: option.splits)
  qed
  moreover have "pe (Suc n + k) d s = pe (Suc n) d s" if l: "Suc (length s + length s) < Suc n"
  proof -
    have "pe (n + k) d t = pe n d t"
      if "pv n d s = Some (x, r)" "next_tok r = Some (c, t)" for x r c t
      using l next_tok_shrinks [OF that(2)] pv_shrinks [OF that(1)] by (auto intro: e)
    with l v show ?thesis by (auto split: option.splits)
  qed
  moreover have "pm (Suc n + k) d s = pm (Suc n) d s" if l: "Suc (length s + length s) < Suc n"
  proof -
    have "pv (n + k) d r1 = pv n d r1"
      if "next_tok s = Some (q, t)" "parse_str t = Some (x, r)" "next_tok r = Some (c, r1)"
      for q t x r c r1
      using l next_tok_shrinks [OF that(1)] parse_str_shrinks [OF that(2)]
        next_tok_shrinks [OF that(3)] by (auto intro: v)
    moreover have "pm (n + k) d r3 = pm n d r3"
      if "next_tok s = Some (q, t)" "parse_str t = Some (x, r)" "next_tok r = Some (c, r1)"
        "pv n d r1 = Some (y, r2)" "next_tok r2 = Some (e, r3)" for q t x r c r1 y r2 e r3
      using l next_tok_shrinks [OF that(1)] parse_str_shrinks [OF that(2)]
        next_tok_shrinks [OF that(3)] pv_shrinks [OF that(4)] next_tok_shrinks [OF that(5)]
      by (auto intro: m)
    ultimately show ?thesis by (auto split: option.splits)
  qed
  ultimately show ?case by blast
qed

declare pv.simps [simp del] pe.simps [simp del] pm.simps [simp del]

lemma parse_value_fuel:
  assumes "length s + length s < n" shows "pv n d s = parse_value d s"
  using less_imp_Suc_add [OF assms] enough [of s "Suc (length s + length s)"]
  by (auto simp: parse_value_def)

lemma parse_elems_fuel:
  assumes "Suc (length s + length s) < n" shows "pe n d s = parse_elems d s"
  using less_imp_Suc_add [OF assms] enough [of s "Suc (Suc (length s + length s))"]
  by (auto simp: parse_elems_def)

lemma parse_members_fuel:
  assumes "Suc (length s + length s) < n" shows "pm n d s = parse_members d s"
  using less_imp_Suc_add [OF assms] enough [of s "Suc (Suc (length s + length s))"]
  by (auto simp: parse_members_def)

text \<open>The equations of the readers without fuel.\<close>

lemma parse_value_unfold:
  "parse_value d s =
     (case next_tok s of None \<Rightarrow> None
      | Some (c, t) \<Rightarrow>
         if c = CHR ''{'' then
           (if d = 0 then None
            else case next_tok t of None \<Rightarrow> None
            | Some (e, u) \<Rightarrow>
               if e = CHR ''}'' then Some (JObj [], u)
               else map_option (map_prod JObj id) (parse_members (d - 1) t))
         else if c = CHR ''['' then
           (if d = 0 then None
            else case next_tok t of None \<Rightarrow> None
            | Some (e, u) \<Rightarrow>
               if e = CHR '']'' then Some (JArr [], u)
               else map_option (map_prod JArr id) (parse_elems (d - 1) t))
         else if c = dquote then map_option (map_prod JStr id) (parse_str t)
         else if HasPrefix (c # t) ''null'' then Some (JNull, drop 3 t)
         else if HasPrefix (c # t) ''true'' then Some (JBool True, drop 3 t)
         else if HasPrefix (c # t) ''false'' then Some (JBool False, drop 4 t)
         else map_option (map_prod JNum id) (parse_number (c # t)))"
proof -
  have "pm (length s + length s) (d - 1) t = parse_members (d - 1) t"
    "pe (length s + length s) (d - 1) t = parse_elems (d - 1) t"
    if "next_tok s = Some (c, t)" for c t
    using next_tok_shrinks [OF that] by (simp_all add: parse_members_fuel parse_elems_fuel)
  then show ?thesis
    unfolding parse_value_def pv.simps(2) by (auto split: option.splits)
qed

lemma parse_elems_unfold:
  "parse_elems d s =
     (case parse_value d s of None \<Rightarrow> None
      | Some (v, r) \<Rightarrow>
         (case next_tok r of None \<Rightarrow> None
          | Some (c, t) \<Rightarrow>
             if c = CHR '']'' then Some ([v], t)
             else if c = CHR '','' then map_option (map_prod (Cons v) id) (parse_elems d t)
             else None))"
proof -
  have v: "pv (Suc (length s + length s)) d s = parse_value d s"
    by (simp add: parse_value_fuel)
  have "pe (Suc (length s + length s)) d t = parse_elems d t"
    if "pv (Suc (length s + length s)) d s = Some (x, r)" "next_tok r = Some (c, t)" for x r c t
    using next_tok_shrinks [OF that(2)] pv_shrinks [OF that(1)] by (simp add: parse_elems_fuel)
  then show ?thesis
    unfolding parse_elems_def pe.simps(2) v by (auto split: option.splits)
qed

lemma parse_members_unfold:
  "parse_members d s =
     (case next_tok s of None \<Rightarrow> None
      | Some (q, t) \<Rightarrow>
         if q \<noteq> dquote then None
         else (case parse_str t of None \<Rightarrow> None
          | Some (k, r) \<Rightarrow>
             (case next_tok r of None \<Rightarrow> None
              | Some (c, r1) \<Rightarrow>
                 if c \<noteq> CHR '':'' then None
                 else (case parse_value d r1 of None \<Rightarrow> None
                  | Some (v, r2) \<Rightarrow>
                     (case next_tok r2 of None \<Rightarrow> None
                      | Some (e, r3) \<Rightarrow>
                         if e = CHR ''}'' then Some ([(k, v)], r3)
                         else if e = CHR '','' then
                           map_option (map_prod (Cons (k, v)) id) (parse_members d r3)
                         else None)))))"
proof -
  have "pv (Suc (length s + length s)) d r1 = parse_value d r1"
    if "next_tok s = Some (q, t)" "parse_str t = Some (x, r)" "next_tok r = Some (c, r1)"
    for q t x r c r1
    using next_tok_shrinks [OF that(1)] parse_str_shrinks [OF that(2)] next_tok_shrinks [OF that(3)]
    by (simp add: parse_value_fuel)
  moreover have "pm (Suc (length s + length s)) d r3 = parse_members d r3"
    if "next_tok s = Some (q, t)" "parse_str t = Some (x, r)" "next_tok r = Some (c, r1)"
      "parse_value d r1 = Some (v, r2)" "next_tok r2 = Some (e, r3)"
    for q t x r c r1 v r2 e r3
    using next_tok_shrinks [OF that(1)] parse_str_shrinks [OF that(2)] next_tok_shrinks [OF that(3)]
      pv_shrinks [OF that(4) [unfolded parse_value_def]] next_tok_shrinks [OF that(5)]
    by (simp add: parse_members_fuel)
  ultimately show ?thesis
    unfolding parse_members_def pm.simps(2) by (auto split: option.splits)
qed

section \<open>Printing, and reading it back\<close>

text \<open>The compact form \<open>json.Marshal\<close> writes.\<close>

fun print_jval :: "jval \<Rightarrow> bytes"
and print_elems :: "jval list \<Rightarrow> bytes"
and print_members :: "(bytes \<times> jval) list \<Rightarrow> bytes"
where
  "print_jval JNull = ''null''"
| "print_jval (JBool b) = (if b then ''true'' else ''false'')"
| "print_jval (JNum l) = l"
| "print_jval (JStr s) = json_quote s"
| "print_jval (JArr vs) = CHR ''['' # print_elems vs"
| "print_jval (JObj ms) = CHR ''{'' # print_members ms"
| "print_elems [] = '']''"
| "print_elems (v # vs) =
     print_jval v @ (if vs = [] then '']'' else CHR '','' # print_elems vs)"
| "print_members [] = ''}''"
| "print_members ((k, v) # ms) =
     json_quote k @ CHR '':'' # print_jval v @
       (if ms = [] then ''}'' else CHR '','' # print_members ms)"

text \<open>
  The values the printer is used on: strings are well-formed UTF-8, numbers are integers, and
  the nesting is at most \<open>d\<close>.
\<close>

fun jgood :: "nat \<Rightarrow> jval \<Rightarrow> bool"
and jgoods :: "nat \<Rightarrow> jval list \<Rightarrow> bool"
and jgoodm :: "nat \<Rightarrow> (bytes \<times> jval) list \<Rightarrow> bool"
where
  "jgood d JNull = True"
| "jgood d (JBool b) = True"
| "jgood d (JNum l) = (\<exists>i. l = Itoa i)"
| "jgood d (JStr s) = valid_utf8 s"
| "jgood d (JArr vs) = (0 < d \<and> jgoods (d - 1) vs)"
| "jgood d (JObj ms) = (0 < d \<and> jgoodm (d - 1) ms)"
| "jgoods d [] = True"
| "jgoods d (v # vs) = (jgood d v \<and> jgoods d vs)"
| "jgoodm d [] = True"
| "jgoodm d ((k, v) # ms) = (valid_utf8 k \<and> jgood d v \<and> jgoodm d ms)"

definition ends_number :: "bytes \<Rightarrow> bool" where
  "ends_number r \<longleftrightarrow>
     r = [] \<or> \<not> is_digit (hd r) \<and> hd r \<noteq> CHR ''.'' \<and> hd r \<noteq> CHR ''e'' \<and> hd r \<noteq> CHR ''E''"

lemma hd_nat_digits_0: "hd (nat_digits n) = CHR ''0'' \<Longrightarrow> n = 0"
proof (induction n rule: nat_digits.induct)
  case (1 n)
  show ?case
  proof (cases "n < 10")
    case True
    with 1(2) have "ord (digit_char n) = 48" by (subst (asm) nat_digits.simps) simp
    with True show ?thesis by simp
  next
    case False
    then have "nat_digits n = nat_digits (n div 10) @ [digit_char (n mod 10)]"
      by (subst nat_digits.simps) simp
    with 1(2) have "hd (nat_digits (n div 10)) = CHR ''0''" by simp
    with 1(1) False show ?thesis by simp
  qed
qed

lemma nat_digits_0 [simp]: "nat_digits 0 = ''0''"
  by (subst nat_digits.simps) (simp add: digit_char_def, rule ord_eqI, simp add: of_char_of)

lemma span_digits_digits:
  "list_all is_digit ds \<Longrightarrow> r = [] \<or> \<not> is_digit (hd r) \<Longrightarrow> span_digits (ds @ r) = (ds, r)"
  unfolding span_digits_def by (induction ds) (cases r; auto)+

lemma num_int_nat_digits:
  assumes "r = [] \<or> \<not> is_digit (hd r)"
  shows "num_int (nat_digits n @ r) = Some (nat_digits n, r)"
proof (cases "n = 0")
  case True
  then show ?thesis by (simp add: num_int_def)
next
  case False
  obtain c t where ct: "nat_digits n = c # t" by (cases "nat_digits n") auto
  with False hd_nat_digits_0 [of n] have "c \<noteq> CHR ''0''" by auto
  moreover from nat_digits_all [of n] ct have "is_digit c" by simp
  moreover have "span_digits (nat_digits n @ r) = (nat_digits n, r)"
    using nat_digits_all assms by (rule span_digits_digits)
  ultimately show ?thesis by (simp add: ct num_int_def)
qed

lemma parse_number_Itoa:
  assumes "ends_number r"
  shows "parse_number (Itoa i @ r) = Some (Itoa i, r)"
proof -
  from assms have fe: "num_frac r = Some ([], r)" "num_exp r = Some ([], r)"
    by (auto simp: num_frac_def num_exp_def ends_number_def split: list.splits)
  have ni: "num_int (nat_digits n @ r) = Some (nat_digits n, r)" for n
    using assms by (intro num_int_nat_digits) (auto simp: ends_number_def)
  have "hd (nat_digits n @ r) \<noteq> CHR ''-''" for n
    using is_digit_not_sign [OF hd_nat_digits] by simp
  with fe ni show ?thesis by (simp add: parse_number_def Itoa_def)
qed

lemma Itoa_hd: "\<exists>c t. Itoa i = c # t \<and> (is_digit c \<or> c = CHR ''-'')"
  using hd_nat_digits [of "nat i"] by (cases "nat_digits (nat i)") (auto simp: Itoa_def)

lemma num_hd_facts:
  assumes "is_digit c \<or> c = CHR ''-''"
  shows "\<not> is_ws c" "c \<noteq> dquote" "c \<noteq> CHR ''{''" "c \<noteq> CHR ''[''" "c \<noteq> CHR '']''" "c \<noteq> CHR ''}''"
    "\<not> HasPrefix (c # t) ''null''" "\<not> HasPrefix (c # t) ''true''"
    "\<not> HasPrefix (c # t) ''false''"
  using assms by (auto simp: is_digit_def is_ws_def HasPrefix_def)

lemma print_jval_hd:
  "jgood d v \<Longrightarrow> \<exists>c t. print_jval v = c # t \<and> \<not> is_ws c \<and> c \<noteq> CHR '']''"
  using Itoa_hd num_hd_facts(1,5)
  by (cases v) (auto simp: json_quote_def is_ws_def, metis)

lemma parse_print_Itoa:
  assumes "ends_number rest"
  shows "parse_value d (Itoa i @ rest) = Some (JNum (Itoa i), rest)"
proof -
  obtain c t where ct: "Itoa i = c # t" "is_digit c \<or> c = CHR ''-''" using Itoa_hd by blast
  from parse_number_Itoa [OF assms, of i] show ?thesis
    by (subst parse_value_unfold) (simp add: ct(1) next_tok_Cons num_hd_facts [OF ct(2)])
qed

lemma parse_print:
  "jgood d v \<Longrightarrow> ends_number rest \<Longrightarrow> parse_value d (print_jval v @ rest) = Some (v, rest)"
  "jgoods d vs \<Longrightarrow> vs \<noteq> [] \<Longrightarrow> parse_elems d (print_elems vs @ rest) = Some (vs, rest)"
  "jgoodm d ms \<Longrightarrow> ms \<noteq> [] \<Longrightarrow> parse_members d (print_members ms @ rest) = Some (ms, rest)"
proof (induction d v and d vs and d ms arbitrary: rest and rest and rest
    rule: jgood_jgoods_jgoodm.induct)
  case (1 d)
  then show ?case
    by (subst parse_value_unfold) (simp add: next_tok_Cons is_ws_def HasPrefix_def)
next
  case (2 d b)
  then show ?case
    by (subst parse_value_unfold) (auto simp: next_tok_Cons is_ws_def HasPrefix_def)
next
  case (3 d l)
  then show ?case by (auto intro: parse_print_Itoa)
next
  case (4 d s)
  then show ?case
    by (subst parse_value_unfold)
       (simp add: next_tok_Cons is_ws_def json_quote_def parse_str_escape)
next
  case (5 d vs)
  show ?case
  proof (cases vs)
    case Nil
    with 5 show ?thesis by (subst parse_value_unfold) (simp add: next_tok_Cons is_ws_def)
  next
    case (Cons v ws)
    with 5 print_jval_hd [of "d - 1" v] obtain c t where
      ct: "print_jval v = c # t" "\<not> is_ws c" "c \<noteq> CHR '']''" by auto
    from 5 Cons have "parse_elems (d - 1) (print_elems vs @ rest) = Some (vs, rest)" by simp
    with ct Cons 5 show ?thesis
      by (subst parse_value_unfold) (simp add: next_tok_Cons is_ws_def)
  qed
next
  case (6 d ms)
  show ?case
  proof (cases ms)
    case Nil
    with 6 show ?thesis by (subst parse_value_unfold) (simp add: next_tok_Cons is_ws_def)
  next
    case (Cons m ns)
    from 6 Cons have "parse_members (d - 1) (print_members ms @ rest) = Some (ms, rest)" by simp
    with Cons 6 show ?thesis
      by (subst parse_value_unfold)
         (cases m; simp add: next_tok_Cons is_ws_def json_quote_def)
  qed
next
  case (8 d v vs)
  then show ?case
    by (subst parse_elems_unfold)
       (auto simp: next_tok_Cons is_ws_def ends_number_def is_digit_def)
next
  case (10 d k v ms)
  then show ?case
    by (subst parse_members_unfold)
       (auto simp: next_tok_Cons is_ws_def ends_number_def is_digit_def json_quote_def
         parse_str_escape)
qed simp_all

lemma parse_json_print: "jgood max_depth v \<Longrightarrow> parse_json (print_jval v) = Some v"
  using parse_print(1) [of max_depth v "[]"] by (simp add: parse_json_def ends_number_def)

lemma Itoa_printable: "b \<in> set (Itoa i) \<Longrightarrow> 32 \<le> ord b"
  using nat_digits_all [of "nat i"] nat_digits_all [of "nat (- i)"]
  by (auto simp: Itoa_def list_all_iff is_digit_def split: if_splits)

text \<open>Number literals made of printable bytes are all the printer needs for printable output.\<close>

fun jnum_ok :: "jval \<Rightarrow> bool"
and jnums_ok :: "jval list \<Rightarrow> bool"
and jnumm_ok :: "(bytes \<times> jval) list \<Rightarrow> bool"
where
  "jnum_ok JNull = True"
| "jnum_ok (JBool b) = True"
| "jnum_ok (JNum l) = list_all (\<lambda>b. 32 \<le> ord b) l"
| "jnum_ok (JStr s) = True"
| "jnum_ok (JArr vs) = jnums_ok vs"
| "jnum_ok (JObj ms) = jnumm_ok ms"
| "jnums_ok [] = True"
| "jnums_ok (v # vs) = (jnum_ok v \<and> jnums_ok vs)"
| "jnumm_ok [] = True"
| "jnumm_ok ((k, v) # ms) = (jnum_ok v \<and> jnumm_ok ms)"

lemma print_printable:
  "jnum_ok v \<Longrightarrow> b \<in> set (print_jval v) \<Longrightarrow> 32 \<le> ord b"
  "jnums_ok vs \<Longrightarrow> b \<in> set (print_elems vs) \<Longrightarrow> 32 \<le> ord b"
  "jnumm_ok ms \<Longrightarrow> b \<in> set (print_members ms) \<Longrightarrow> 32 \<le> ord b"
  by (induction v and vs and ms rule: jnum_ok_jnums_ok_jnumm_ok.induct)
     (auto simp: list_all_iff dest: json_quote_printable split: if_splits)

lemma jnum_ok_Itoa: "jnum_ok (JNum (Itoa i))"
  using Itoa_printable by (auto simp: list_all_iff)

end
