(* ===== verification/Json_Funcs.thy ===== *)
theory Json_Funcs
  imports Json
begin

text \<open>
  \<open>JsonAddOrigin\<close> of \<open>server/jsonFuncs.go\<close>: the byte-level insertion of the
  \<open>origin\<close> field on the relay path. \<open>Encode\<close> and \<open>Decode\<close> of the same file are in
  \<open>Messages\<close>, after the message type.
\<close>

datatype json_error = EmptyData | NotObject

definition ws_run :: "bytes \<Rightarrow> nat" where
  "ws_run s = length (takeWhile is_ws s)"

definition origin_key :: bytes where
  "origin_key = dquote # ''origin'' @ [dquote, CHR '':'']"

text \<open>The data returned with an error is the data given, as in the code.\<close>

definition JsonAddOrigin :: "bytes \<Rightarrow> int \<Rightarrow> bytes \<times> json_error option" where
  "JsonAddOrigin data i0 =
     (if length data = 0 then (data, Some EmptyData)
      else
        let i = ws_run data in
        if length data \<le> i \<or> data ! i \<noteq> CHR ''{'' then (data, Some NotObject)
        else
          let j = i + 1 + ws_run (drop (i + 1) data) in
          if j < length data \<and> data ! j = CHR ''}''
          then (take (i + 1) data @ origin_key @ Itoa i0 @ drop j data, None)
          else (take (i + 1) data @ origin_key @ Itoa i0 @ [CHR '',''] @ drop (i + 1) data, None))"

section \<open>When the insertion is refused\<close>

lemma ws_run_split: "take (ws_run s) s = takeWhile is_ws s" "drop (ws_run s) s = skip_ws s"
  by (induction s) (auto simp: ws_run_def)

lemma nth_ws_run: "skip_ws s = c # t \<Longrightarrow> ws_run s < length s \<and> s ! ws_run s = c"
  using ws_run_split(2) [of s]
  by (metis drop_all leI list.discI list.sel(1) hd_drop_conv_nth)

lemma ws_run_end: "skip_ws s = [] \<Longrightarrow> length s \<le> ws_run s"
  using ws_run_split(2) [of s] by simp

text \<open>
  The two shapes of the result, over the text around the opening brace: white space
  \<open>w\<close>, the brace, and what follows it.
\<close>

lemma JsonAddOrigin_shape:
  "JsonAddOrigin data i =
     (case next_tok data of
        Some (c, t) \<Rightarrow>
          if c \<noteq> CHR ''{'' then (data, Some NotObject)
          else let w = takeWhile is_ws data in
            (case next_tok t of
               Some (e, u) \<Rightarrow>
                 if e = CHR ''}'' then (w @ CHR ''{'' # origin_key @ Itoa i @ CHR ''}'' # u, None)
                 else (w @ CHR ''{'' # origin_key @ Itoa i @ CHR '','' # t, None)
             | None \<Rightarrow> (w @ CHR ''{'' # origin_key @ Itoa i @ CHR '','' # t, None))
      | None \<Rightarrow> (data, Some (if data = [] then EmptyData else NotObject)))"
proof (cases "skip_ws data")
  case Nil
  then show ?thesis using ws_run_end [of data] by (simp add: JsonAddOrigin_def next_tok_def)
next
  case (Cons c t)
  note n = nth_ws_run [OF Cons]
  from Cons n have ne: "data \<noteq> []" by auto
  have w: "take (ws_run data + 1) data = takeWhile is_ws data @ [c]"
    using n ws_run_split(1) [of data] by (simp add: take_Suc_conv_app_nth)
  have t: "drop (ws_run data + 1) data = t"
    using ws_run_split(2) [of data] Cons by (metis drop_drop drop_Suc_Cons drop_0 Suc_eq_plus1 add.commute plus_1_eq_Suc)
  from t n have len: "length data = Suc (ws_run data + length t)"
    by (metis Suc_eq_plus1 add_Suc less_iff_Suc_add length_drop diff_add_inverse add.commute)
  show ?thesis
  proof (cases "skip_ws t")
    case Nil
    with ws_run_end [OF Nil] len n ne w t Cons show ?thesis
      by (simp add: JsonAddOrigin_def next_tok_def Let_def)
  next
    case (Cons e u)
    let ?j = "ws_run data + 1 + ws_run t"
    have "drop ?j data = e # u"
      using ws_run_split(2) [of t] Cons t by (metis drop_drop add.commute)
    then have "?j < length data" "data ! ?j = e"
      by (metis drop_all leI list.discI, metis drop_all leI list.discI list.sel(1) hd_drop_conv_nth)
    with \<open>drop ?j data = e # u\<close> n ne w t Cons \<open>skip_ws data = c # t\<close> show ?thesis
      by (simp add: JsonAddOrigin_def next_tok_def Let_def)
  qed
qed

lemma JsonAddOrigin_error_iff:
  "snd (JsonAddOrigin data i) = None \<longleftrightarrow> (\<exists>t. next_tok data = Some (CHR ''{'', t))"
  by (auto simp: JsonAddOrigin_shape Let_def split: option.splits if_splits)

lemma JsonAddOrigin_error_data: "snd (JsonAddOrigin data i) \<noteq> None \<Longrightarrow> fst (JsonAddOrigin data i) = data"
  by (auto simp: JsonAddOrigin_shape Let_def split: option.splits if_splits)

lemma JsonAddOrigin_nonempty: "data \<noteq> [] \<Longrightarrow> fst (JsonAddOrigin data i) \<noteq> []"
  by (auto simp: JsonAddOrigin_shape Let_def split: option.splits if_splits)

lemma next_tok_set: "next_tok s = Some (c, t) \<Longrightarrow> set t \<subseteq> set s \<and> c \<in> set s"
  using skip_ws_split [of s]
  by (auto simp: next_tok_def split: list.splits) (metis UnCI list.set_intros set_append)+

lemma JsonAddOrigin_bytes:
  "b \<in> set (fst (JsonAddOrigin data i)) \<Longrightarrow> b \<in> set data \<or> 32 \<le> ord b"
proof -
  have w: "b \<in> set (takeWhile is_ws data) \<Longrightarrow> b \<in> set data" by (rule set_takeWhileD [THEN conjunct1])
  have o: "b \<in> set origin_key \<Longrightarrow> 32 \<le> ord b" by (auto simp: origin_key_def)
  assume "b \<in> set (fst (JsonAddOrigin data i))"
  with w o show ?thesis
    by (auto simp: JsonAddOrigin_shape Let_def dest!: next_tok_set Itoa_printable
        split: option.splits if_splits) blast+
qed

section \<open>What the inserted field does to the JSON value\<close>

definition add_origin :: "int \<Rightarrow> jval \<Rightarrow> jval" where
  "add_origin i v = (case v of JObj ms \<Rightarrow> JObj ((''origin'', JNum (Itoa i)) # ms) | _ \<Rightarrow> v)"

lemma parse_str_origin: "parse_str (''origin'' @ dquote # r) = Some (''origin'', r)"
proof -
  have "escape ''origin'' = ''origin''" by (simp add: escape.simps(2) html_safe_def)
  then show ?thesis using parse_str_escape [of "''origin''" r] valid_utf8_ascii [of "''origin''"] by simp
qed

lemma parse_members_origin:
  "parse_members d (origin_key @ Itoa i @ CHR ''}'' # u) = Some ([(''origin'', JNum (Itoa i))], u)"
  "parse_members d (origin_key @ Itoa i @ CHR '','' # t) =
     map_option (map_prod (Cons (''origin'', JNum (Itoa i))) id) (parse_members d t)"
  using parse_str_origin
  by (subst parse_members_unfold,
      simp add: origin_key_def next_tok_Cons is_ws_def parse_print_Itoa ends_number_def is_digit_def)+

lemma next_tok_ws_append: "list_all is_ws w \<Longrightarrow> next_tok (w @ s) = next_tok s"
  by (simp add: next_tok_def skip_ws_ws)

lemma parse_value_JsonAddOrigin:
  assumes "JsonAddOrigin data i = (res, None)" and "0 < d"
  shows "parse_value d res = map_option (map_prod (add_origin i) id) (parse_value d data)"
proof -
  from assms JsonAddOrigin_error_iff [of data i] obtain t where
    t: "next_tok data = Some (CHR ''{'', t)" by auto
  let ?w = "takeWhile is_ws data"
  have w: "next_tok (?w @ s) = next_tok s" for s
    by (rule next_tok_ws_append) (auto simp: list_all_iff dest: set_takeWhileD)
  have obj: "parse_value d data =
      (case next_tok t of None \<Rightarrow> None
       | Some (e, u) \<Rightarrow> if e = CHR ''}'' then Some (JObj [], u)
           else map_option (map_prod JObj id) (parse_members (d - 1) t))"
    using \<open>0 < d\<close> by (subst parse_value_unfold) (simp add: t)
  have new: "parse_value d (?w @ CHR ''{'' # origin_key @ s) =
      map_option (map_prod JObj id) (parse_members (d - 1) (origin_key @ s))" for s
    using \<open>0 < d\<close>
    by (subst parse_value_unfold) (simp add: w next_tok_Cons is_ws_def origin_key_def)
  show ?thesis
  proof (cases "next_tok t")
    case None
    then have "parse_members (d - 1) t = None" by (subst parse_members_unfold) simp
    with None t assms(1) have "parse_value d res = None"
      by (auto simp: JsonAddOrigin_shape Let_def new parse_members_origin)
    with None show ?thesis by (simp add: obj)
  next
    case (Some p)
    then obtain e u where eu: "next_tok t = Some (e, u)" by (cases p) auto
    show ?thesis
    proof (cases "e = CHR ''}''")
      case True
      with eu t assms(1) show ?thesis
        by (auto simp: JsonAddOrigin_shape Let_def new parse_members_origin obj add_origin_def)
    next
      case False
      with eu t assms(1) show ?thesis
        by (auto simp: JsonAddOrigin_shape Let_def new parse_members_origin obj add_origin_def
            option.map_comp o_def map_prod_def split: prod.splits intro!: map_option_cong)
    qed
  qed
qed

lemma parse_json_JsonAddOrigin:
  assumes "JsonAddOrigin data i = (res, None)"
  shows "parse_json res = map_option (add_origin i) (parse_json data)"
proof -
  have "0 < max_depth" by (simp add: max_depth_def)
  from parse_value_JsonAddOrigin [OF assms this] show ?thesis
    by (auto simp: parse_json_def split: option.splits prod.splits)
qed

text \<open>
  A JSON reader that keeps the last of several members with the same name, as Go's
  \<open>json.Unmarshal\<close> and Python's \<open>json.loads\<close> do.
\<close>

definition obj_get :: "bytes \<Rightarrow> jval \<Rightarrow> jval option" where
  "obj_get k v = (case v of JObj ms \<Rightarrow> map_of (rev ms) k | _ \<Rightarrow> None)"

lemma obj_get_add_origin:
  "obj_get k (add_origin i (JObj ms)) =
     (case obj_get k (JObj ms) of Some v \<Rightarrow> Some v
      | None \<Rightarrow> if k = ''origin'' then Some (JNum (Itoa i)) else None)"
  by (auto simp: obj_get_def add_origin_def map_add_def split: option.splits)

end
