(* ===== verification/Messages.thy ===== *)
theory Messages
  imports Json_Funcs
begin

text \<open>
  The protocol messages of \<open>server/data.go\<close>, and \<open>Encode\<close> and \<open>Decode\<close> of
  \<open>server/jsonFuncs.go\<close>: \<open>json.Marshal\<close> of a \<open>Data\<close> (field order and
  \<open>omitempty\<close> of its tags) and \<open>json.Unmarshal\<close> into one (exact and case-folded
  field names, unknown fields ignored, \<open>null\<close> leaving a field alone, a value of the wrong
  kind an error of the whole call). A \<open>null\<close> array element leaves the element a previous
  duplicate of the field stored at that index; what lies behind a truncated slice is not
  modelled.
\<close>

record client_data =
  cd_ID :: int
  cd_ConnectionType :: bytes

record data =
  Type :: bytes
  Channel :: bytes
  ConnectionType :: bytes
  Version :: int
  Origin :: int
  Key :: bytes
  ID :: int
  UserIds :: "int list"
  Clients :: "client_data list"
  Client :: "client_data option"
  Error :: bytes
  Motd :: bytes
  MotdAlwaysDisplay :: bool

definition zero_client_data :: client_data where
  "zero_client_data = \<lparr>cd_ID = 0, cd_ConnectionType = []\<rparr>"

definition zero_data :: data where
  "zero_data = \<lparr>Type = [], Channel = [], ConnectionType = [], Version = 0, Origin = 0, Key = [],
     ID = 0, UserIds = [], Clients = [], Client = None, Error = [], Motd = [],
     MotdAlwaysDisplay = False\<rparr>"

section \<open>Encoding\<close>

definition omit_str :: "bytes \<Rightarrow> bytes \<Rightarrow> (bytes \<times> jval) list" where
  "omit_str k s = (if s = [] then [] else [(k, JStr s)])"

definition omit_int :: "bytes \<Rightarrow> int \<Rightarrow> (bytes \<times> jval) list" where
  "omit_int k i = (if i = 0 then [] else [(k, JNum (Itoa i))])"

definition omit_arr :: "bytes \<Rightarrow> jval list \<Rightarrow> (bytes \<times> jval) list" where
  "omit_arr k vs = (if vs = [] then [] else [(k, JArr vs)])"

definition omit_bool :: "bytes \<Rightarrow> bool \<Rightarrow> (bytes \<times> jval) list" where
  "omit_bool k b = (if b then [(k, JBool True)] else [])"

definition always_str :: "bytes \<Rightarrow> bytes \<Rightarrow> (bytes \<times> jval) list" where
  "always_str k s = [(k, JStr s)]"

definition client_data_json :: "client_data \<Rightarrow> jval" where
  "client_data_json c =
     JObj [(''id'', JNum (Itoa (cd_ID c))), (''connection_type'', JStr (cd_ConnectionType c))]"

definition omit_client :: "bytes \<Rightarrow> client_data option \<Rightarrow> (bytes \<times> jval) list" where
  "omit_client k c = (case c of None \<Rightarrow> [] | Some c \<Rightarrow> [(k, client_data_json c)])"

definition data_members :: "data \<Rightarrow> (bytes \<times> jval) list" where
  "data_members d =
     always_str ''type'' (Type d) @
     omit_str ''channel'' (Channel d) @
     omit_str ''connection_type'' (ConnectionType d) @
     omit_int ''version'' (Version d) @
     omit_int ''origin'' (Origin d) @
     omit_str ''key'' (Key d) @
     omit_int ''user_id'' (ID d) @
     omit_arr ''user_ids'' (map (\<lambda>i. JNum (Itoa i)) (UserIds d)) @
     omit_arr ''clients'' (map client_data_json (Clients d)) @
     omit_client ''client'' (Client d) @
     omit_str ''error'' (Error d) @
     omit_str ''motd'' (Motd d) @
     omit_bool ''force_display'' (MotdAlwaysDisplay d)"

text \<open>
  \<open>json.Marshal\<close> can only fail on kinds a \<open>Data\<close> does not hold, so the error branch
  of the callers is never taken; it is kept as \<^const>\<open>None\<close>.
\<close>

definition Encode :: "data \<Rightarrow> bytes option" where
  "Encode d = Some (print_jval (JObj (data_members d)))"

section \<open>Decoding\<close>

datatype decode_error = SyntaxError | TypeError

text \<open>
  \<open>foldName\<close>: field names that do not match exactly are compared after simple case
  folding; the only code points outside ASCII that fold onto ASCII letters are the long s and
  the Kelvin sign.
\<close>

definition fold_rune :: "nat \<Rightarrow> nat" where
  "fold_rune r =
     (if 97 \<le> r \<and> r \<le> 122 then r - 32
      else if r = 383 then 83
      else if r = 8490 then 75
      else r)"

definition fold_name :: "bytes \<Rightarrow> nat list" where
  "fold_name k = map fold_rune (fst (read_all read_rune k))"

definition match_field :: "bytes list \<Rightarrow> bytes \<Rightarrow> bytes option" where
  "match_field names k =
     (if k \<in> set names then Some k else List.find (\<lambda>n. fold_name n = fold_name k) names)"

fun unm_str :: "jval \<Rightarrow> bytes \<Rightarrow> bytes option" where
  "unm_str JNull old = Some old"
| "unm_str (JStr s) old = Some s"
| "unm_str v old = None"

fun unm_int :: "jval \<Rightarrow> int \<Rightarrow> int option" where
  "unm_int JNull old = Some old"
| "unm_int (JNum l) old = Atoi l"
| "unm_int v old = None"

fun unm_bool :: "jval \<Rightarrow> bool \<Rightarrow> bool option" where
  "unm_bool JNull old = Some old"
| "unm_bool (JBool b) old = Some b"
| "unm_bool v old = None"

text \<open>Array elements decode into what is already at their index, or into a zero value.\<close>

fun unm_list :: "(jval \<Rightarrow> 'a \<Rightarrow> 'a option) \<Rightarrow> 'a \<Rightarrow> jval list \<Rightarrow> 'a list \<Rightarrow> 'a list option" where
  "unm_list f z [] old = Some []"
| "unm_list f z (v # vs) old =
     (case f v (case old of [] \<Rightarrow> z | x # _ \<Rightarrow> x) of None \<Rightarrow> None
      | Some y \<Rightarrow> map_option (Cons y) (unm_list f z vs (tl old)))"

definition unm_slice :: "(jval \<Rightarrow> 'a \<Rightarrow> 'a option) \<Rightarrow> 'a \<Rightarrow> jval \<Rightarrow> 'a list \<Rightarrow> 'a list option" where
  "unm_slice f z v old =
     (case v of JNull \<Rightarrow> Some [] | JArr vs \<Rightarrow> unm_list f z vs old | _ \<Rightarrow> None)"

text \<open>A struct: its members in order, each into the field its name matches.\<close>

fun unm_members :: "(bytes \<Rightarrow> bytes option) \<Rightarrow> (bytes \<Rightarrow> jval \<Rightarrow> 'a \<Rightarrow> 'a option) \<Rightarrow>
    (bytes \<times> jval) list \<Rightarrow> 'a \<Rightarrow> 'a option" where
  "unm_members m f [] x = Some x"
| "unm_members m f ((k, v) # ms) x =
     (case m k of None \<Rightarrow> unm_members m f ms x
      | Some n \<Rightarrow> (case f n v x of None \<Rightarrow> None | Some y \<Rightarrow> unm_members m f ms y))"

definition unm_struct :: "bytes list \<Rightarrow> (bytes \<Rightarrow> jval \<Rightarrow> 'a \<Rightarrow> 'a option) \<Rightarrow> jval \<Rightarrow> 'a \<Rightarrow> 'a option" where
  "unm_struct names f v x =
     (case v of JNull \<Rightarrow> Some x | JObj ms \<Rightarrow> unm_members (match_field names) f ms x | _ \<Rightarrow> None)"

definition client_data_names :: "bytes list" where
  "client_data_names = [''id'', ''connection_type'']"

definition set_client_data :: "bytes \<Rightarrow> jval \<Rightarrow> client_data \<Rightarrow> client_data option" where
  "set_client_data n v c =
     (if n = ''id'' then map_option (\<lambda>i. c\<lparr>cd_ID := i\<rparr>) (unm_int v (cd_ID c))
      else map_option (\<lambda>s. c\<lparr>cd_ConnectionType := s\<rparr>) (unm_str v (cd_ConnectionType c)))"

definition unm_client_data :: "jval \<Rightarrow> client_data \<Rightarrow> client_data option" where
  "unm_client_data = unm_struct client_data_names set_client_data"

definition unm_client_ptr :: "jval \<Rightarrow> client_data option \<Rightarrow> client_data option option" where
  "unm_client_ptr v old =
     (if v = JNull then Some None
      else map_option Some
        (unm_client_data v (case old of None \<Rightarrow> zero_client_data | Some c \<Rightarrow> c)))"

definition data_names :: "bytes list" where
  "data_names = [''type'', ''channel'', ''connection_type'', ''version'', ''origin'', ''key'',
     ''user_id'', ''user_ids'', ''clients'', ''client'', ''error'', ''motd'', ''force_display'']"

definition set_data :: "bytes \<Rightarrow> jval \<Rightarrow> data \<Rightarrow> data option" where
  "set_data n v d =
     (if n = ''type'' then map_option (\<lambda>x. d\<lparr>Type := x\<rparr>) (unm_str v (Type d))
      else if n = ''channel'' then map_option (\<lambda>x. d\<lparr>Channel := x\<rparr>) (unm_str v (Channel d))
      else if n = ''connection_type'' then
        map_option (\<lambda>x. d\<lparr>ConnectionType := x\<rparr>) (unm_str v (ConnectionType d))
      else if n = ''version'' then map_option (\<lambda>x. d\<lparr>Version := x\<rparr>) (unm_int v (Version d))
      else if n = ''origin'' then map_option (\<lambda>x. d\<lparr>Origin := x\<rparr>) (unm_int v (Origin d))
      else if n = ''key'' then map_option (\<lambda>x. d\<lparr>Key := x\<rparr>) (unm_str v (Key d))
      else if n = ''user_id'' then map_option (\<lambda>x. d\<lparr>ID := x\<rparr>) (unm_int v (ID d))
      else if n = ''user_ids'' then
        map_option (\<lambda>x. d\<lparr>UserIds := x\<rparr>) (unm_slice unm_int 0 v (UserIds d))
      else if n = ''clients'' then
        map_option (\<lambda>x. d\<lparr>Clients := x\<rparr>) (unm_slice unm_client_data zero_client_data v (Clients d))
      else if n = ''client'' then map_option (\<lambda>x. d\<lparr>Client := x\<rparr>) (unm_client_ptr v (Client d))
      else if n = ''error'' then map_option (\<lambda>x. d\<lparr>Error := x\<rparr>) (unm_str v (Error d))
      else if n = ''motd'' then map_option (\<lambda>x. d\<lparr>Motd := x\<rparr>) (unm_str v (Motd d))
      else map_option (\<lambda>x. d\<lparr>MotdAlwaysDisplay := x\<rparr>) (unm_bool v (MotdAlwaysDisplay d)))"

definition Decode :: "bytes \<Rightarrow> decode_error + data" where
  "Decode s =
     (case parse_json s of None \<Rightarrow> Inl SyntaxError
      | Some v \<Rightarrow> (case unm_struct data_names set_data v zero_data of
                    None \<Rightarrow> Inl TypeError | Some d \<Rightarrow> Inr d))"

section \<open>Decoding undoes encoding\<close>

definition int64 :: "int \<Rightarrow> bool" where
  "int64 i \<longleftrightarrow> - (2 ^ 63) \<le> i \<and> i < 2 ^ 63"

definition client_data_ok :: "client_data \<Rightarrow> bool" where
  "client_data_ok c \<longleftrightarrow> int64 (cd_ID c) \<and> valid_utf8 (cd_ConnectionType c)"

definition data_ok :: "data \<Rightarrow> bool" where
  "data_ok d \<longleftrightarrow>
     list_all valid_utf8 [Type d, Channel d, ConnectionType d, Key d, Error d, Motd d] \<and>
     list_all int64 ([Version d, Origin d, ID d] @ UserIds d) \<and>
     list_all client_data_ok (Clients d) \<and> pred_option client_data_ok (Client d)"

lemma Atoi_Itoa64: "int64 i \<Longrightarrow> Atoi (Itoa i) = Some i"
  by (simp add: int64_def Atoi_Itoa)

lemma unm_members_append:
  "unm_members m f (xs @ ys) x =
     (case unm_members m f xs x of None \<Rightarrow> None | Some y \<Rightarrow> unm_members m f ys y)"
  by (induction m f xs x rule: unm_members.induct) (auto split: option.splits)

lemma unm_client_data_json:
  "client_data_ok c \<Longrightarrow> unm_client_data (client_data_json c) old = Some c"
  by (simp add: client_data_ok_def unm_client_data_def unm_struct_def client_data_json_def
      match_field_def client_data_names_def set_client_data_def Atoi_Itoa64)

lemma unm_list_ints: "list_all int64 is \<Longrightarrow> unm_list unm_int z (map (\<lambda>i. JNum (Itoa i)) is) old = Some is"
  by (induction "is" arbitrary: old) (auto simp: Atoi_Itoa64)

lemma unm_list_clients:
  "list_all client_data_ok cs \<Longrightarrow>
     unm_list unm_client_data z (map client_data_json cs) old = Some cs"
  by (induction cs arbitrary: old) (auto simp: unm_client_data_json)

lemma data_names_match:
  "match_field data_names ''type'' = Some ''type''"
  "match_field data_names ''channel'' = Some ''channel''"
  "match_field data_names ''connection_type'' = Some ''connection_type''"
  "match_field data_names ''version'' = Some ''version''"
  "match_field data_names ''origin'' = Some ''origin''"
  "match_field data_names ''key'' = Some ''key''"
  "match_field data_names ''user_id'' = Some ''user_id''"
  "match_field data_names ''user_ids'' = Some ''user_ids''"
  "match_field data_names ''clients'' = Some ''clients''"
  "match_field data_names ''client'' = Some ''client''"
  "match_field data_names ''error'' = Some ''error''"
  "match_field data_names ''motd'' = Some ''motd''"
  "match_field data_names ''force_display'' = Some ''force_display''"
  by (simp_all add: match_field_def data_names_def)

lemma set_data_eqs:
  "set_data ''type'' v d = map_option (\<lambda>x. d\<lparr>Type := x\<rparr>) (unm_str v (Type d))"
  "set_data ''channel'' v d = map_option (\<lambda>x. d\<lparr>Channel := x\<rparr>) (unm_str v (Channel d))"
  "set_data ''connection_type'' v d = map_option (\<lambda>x. d\<lparr>ConnectionType := x\<rparr>) (unm_str v (ConnectionType d))"
  "set_data ''version'' v d = map_option (\<lambda>x. d\<lparr>Version := x\<rparr>) (unm_int v (Version d))"
  "set_data ''origin'' v d = map_option (\<lambda>x. d\<lparr>Origin := x\<rparr>) (unm_int v (Origin d))"
  "set_data ''key'' v d = map_option (\<lambda>x. d\<lparr>Key := x\<rparr>) (unm_str v (Key d))"
  "set_data ''user_id'' v d = map_option (\<lambda>x. d\<lparr>ID := x\<rparr>) (unm_int v (ID d))"
  "set_data ''user_ids'' v d = map_option (\<lambda>x. d\<lparr>UserIds := x\<rparr>) (unm_slice unm_int 0 v (UserIds d))"
  "set_data ''clients'' v d = map_option (\<lambda>x. d\<lparr>Clients := x\<rparr>) (unm_slice unm_client_data zero_client_data v (Clients d))"
  "set_data ''client'' v d = map_option (\<lambda>x. d\<lparr>Client := x\<rparr>) (unm_client_ptr v (Client d))"
  "set_data ''error'' v d = map_option (\<lambda>x. d\<lparr>Error := x\<rparr>) (unm_str v (Error d))"
  "set_data ''motd'' v d = map_option (\<lambda>x. d\<lparr>Motd := x\<rparr>) (unm_str v (Motd d))"
  "set_data ''force_display'' v d = map_option (\<lambda>x. d\<lparr>MotdAlwaysDisplay := x\<rparr>) (unm_bool v (MotdAlwaysDisplay d))"
  by (simp_all add: set_data_def)

lemma data_names_valid:
  "valid_utf8 ''type''"
  "valid_utf8 ''channel''"
  "valid_utf8 ''connection_type''"
  "valid_utf8 ''version''"
  "valid_utf8 ''origin''"
  "valid_utf8 ''key''"
  "valid_utf8 ''user_id''"
  "valid_utf8 ''user_ids''"
  "valid_utf8 ''clients''"
  "valid_utf8 ''client''"
  "valid_utf8 ''error''"
  "valid_utf8 ''motd''"
  "valid_utf8 ''force_display''"
  "valid_utf8 ''id''"
  by (rule valid_utf8_ascii, simp)+

lemma client_data_json_not_null: "client_data_json c \<noteq> JNull"
  by (simp add: client_data_json_def)

text \<open>
  One lemma per field: the members the encoder writes for it set exactly that field, provided it
  is still zero.
\<close>

abbreviation unm_data :: "(bytes \<times> jval) list \<Rightarrow> data \<Rightarrow> data option" where
  "unm_data ms d \<equiv> unm_members (match_field data_names) set_data ms d"

lemma unm_data_channel:
  "Channel d = [] \<Longrightarrow> unm_data (omit_str ''channel'' x) d = Some (d\<lparr>Channel := x\<rparr>)"
  by (cases d) (simp add: omit_str_def data_names_match set_data_eqs Atoi_Itoa64)

lemma unm_data_connection_type:
  "ConnectionType d = [] \<Longrightarrow> unm_data (omit_str ''connection_type'' x) d = Some (d\<lparr>ConnectionType := x\<rparr>)"
  by (cases d) (simp add: omit_str_def data_names_match set_data_eqs Atoi_Itoa64)

lemma unm_data_version:
  "int64 x \<Longrightarrow> Version d = 0 \<Longrightarrow> unm_data (omit_int ''version'' x) d = Some (d\<lparr>Version := x\<rparr>)"
  by (cases d) (simp add: omit_int_def data_names_match set_data_eqs Atoi_Itoa64)

lemma unm_data_origin:
  "int64 x \<Longrightarrow> Origin d = 0 \<Longrightarrow> unm_data (omit_int ''origin'' x) d = Some (d\<lparr>Origin := x\<rparr>)"
  by (cases d) (simp add: omit_int_def data_names_match set_data_eqs Atoi_Itoa64)

lemma unm_data_key:
  "Key d = [] \<Longrightarrow> unm_data (omit_str ''key'' x) d = Some (d\<lparr>Key := x\<rparr>)"
  by (cases d) (simp add: omit_str_def data_names_match set_data_eqs Atoi_Itoa64)

lemma unm_data_user_id:
  "int64 x \<Longrightarrow> ID d = 0 \<Longrightarrow> unm_data (omit_int ''user_id'' x) d = Some (d\<lparr>ID := x\<rparr>)"
  by (cases d) (simp add: omit_int_def data_names_match set_data_eqs Atoi_Itoa64)

lemma unm_data_error:
  "Error d = [] \<Longrightarrow> unm_data (omit_str ''error'' x) d = Some (d\<lparr>Error := x\<rparr>)"
  by (cases d) (simp add: omit_str_def data_names_match set_data_eqs Atoi_Itoa64)

lemma unm_data_motd:
  "Motd d = [] \<Longrightarrow> unm_data (omit_str ''motd'' x) d = Some (d\<lparr>Motd := x\<rparr>)"
  by (cases d) (simp add: omit_str_def data_names_match set_data_eqs Atoi_Itoa64)

lemma unm_data_type: "unm_data (always_str ''type'' x) d = Some (d\<lparr>Type := x\<rparr>)"
  by (simp add: always_str_def data_names_match set_data_eqs)

lemma unm_data_user_ids:
  "list_all int64 is \<Longrightarrow> UserIds d = [] \<Longrightarrow>
     unm_data (omit_arr ''user_ids'' (map (\<lambda>i. JNum (Itoa i)) is)) d = Some (d\<lparr>UserIds := is\<rparr>)"
  by (cases d) (simp add: omit_arr_def data_names_match set_data_eqs unm_slice_def
      unm_list_ints)

lemma unm_data_clients:
  "list_all client_data_ok cs \<Longrightarrow> Clients d = [] \<Longrightarrow>
     unm_data (omit_arr ''clients'' (map client_data_json cs)) d = Some (d\<lparr>Clients := cs\<rparr>)"
  by (cases d) (simp add: omit_arr_def data_names_match set_data_eqs unm_slice_def
      unm_list_clients)

lemma unm_data_client:
  "pred_option client_data_ok c \<Longrightarrow> Client d = None \<Longrightarrow>
     unm_data (omit_client ''client'' c) d = Some (d\<lparr>Client := c\<rparr>)"
  by (cases d; cases c) (simp_all add: omit_client_def data_names_match set_data_eqs
      unm_client_ptr_def unm_client_data_json client_data_json_not_null)

lemma unm_data_force_display:
  "MotdAlwaysDisplay d = False \<Longrightarrow>
     unm_data (omit_bool ''force_display'' b) d = Some (d\<lparr>MotdAlwaysDisplay := b\<rparr>)"
  by (cases d; cases b) (simp_all add: omit_bool_def data_names_match set_data_eqs)

lemmas unm_data_fields =
  unm_data_type unm_data_channel unm_data_connection_type unm_data_version unm_data_origin
  unm_data_key unm_data_user_id unm_data_user_ids unm_data_clients unm_data_client
  unm_data_error unm_data_motd unm_data_force_display

lemma unm_data_members:
  assumes "data_ok d"
  shows "unm_data (data_members d) zero_data = Some d"
  using assms
  by (simp add: data_members_def unm_members_append unm_data_fields zero_data_def data_ok_def)

lemma jgoods_ints: "jgoods d (map (\<lambda>i. JNum (Itoa i)) is)"
  by (induction "is") auto

lemma jgood_client_data: "0 < d \<Longrightarrow> client_data_ok c \<Longrightarrow> jgood d (client_data_json c)"
  by (simp add: client_data_json_def client_data_ok_def data_names_valid) auto

lemma jgoods_clients: "0 < d \<Longrightarrow> list_all client_data_ok cs \<Longrightarrow> jgoods d (map client_data_json cs)"
  by (induction cs) (auto simp: jgood_client_data)

lemma jgoodm_append: "jgoodm d (xs @ ys) \<longleftrightarrow> jgoodm d xs \<and> jgoodm d ys"
  by (induction d xs rule: jgood_jgoods_jgoodm.induct(3)) auto

lemma jgoodm_omit:
  "jgoodm d (omit_int k i) \<longleftrightarrow> i = 0 \<or> valid_utf8 k"
  "jgoodm d (omit_str k s) \<longleftrightarrow> s = [] \<or> valid_utf8 k \<and> valid_utf8 s"
  "jgoodm d (omit_arr k vs) \<longleftrightarrow> vs = [] \<or> valid_utf8 k \<and> 0 < d \<and> jgoods (d - 1) vs"
  "jgoodm d (omit_bool k b) \<longleftrightarrow> \<not> b \<or> valid_utf8 k"
  "jgoodm d (always_str k s) \<longleftrightarrow> valid_utf8 k \<and> valid_utf8 s"
  "jgoodm d (omit_client k c) \<longleftrightarrow>
     (\<forall>x. c = Some x \<longrightarrow> valid_utf8 k \<and> jgood d (client_data_json x))"
  by (auto simp: omit_int_def omit_str_def omit_arr_def omit_bool_def always_str_def
      omit_client_def split: option.splits)

lemma jgood_data_members: "2 < d \<Longrightarrow> data_ok d' \<Longrightarrow> jgood d (JObj (data_members d'))"
  by (cases "Client d'") (simp_all add: data_members_def jgoodm_append jgoodm_omit jgoods_ints jgoods_clients
      jgood_client_data data_names_valid data_ok_def split: option.split)

lemma jnums_ok_all: "list_all jnum_ok vs \<Longrightarrow> jnums_ok vs"
  by (induction vs) auto

lemma jnumm_ok_append: "jnumm_ok (xs @ ys) \<longleftrightarrow> jnumm_ok xs \<and> jnumm_ok ys"
  by (induction xs rule: jnum_ok_jnums_ok_jnumm_ok.induct(3)) auto

lemma jnumm_ok_omit:
  "jnumm_ok (omit_int k i)" "jnumm_ok (omit_str k s)" "jnumm_ok (omit_bool k b)"
  "jnumm_ok (always_str k s)" "jnumm_ok (omit_client k c)"
  "jnumm_ok (omit_arr k (map (\<lambda>i. JNum (Itoa i)) is))"
  "jnumm_ok (omit_arr k (map client_data_json cs))"
  using jnum_ok_Itoa
  by (auto simp: omit_int_def omit_str_def omit_arr_def omit_bool_def always_str_def
      omit_client_def client_data_json_def list_all_iff simp del: jnum_ok.simps(3)
      intro!: jnums_ok_all split: option.splits)

text \<open>Whatever the strings of a message hold, its encoding has no control character.\<close>

lemma Encode_printable:
  assumes "Encode d = Some s" and "b \<in> set s"
  shows "32 \<le> ord b"
proof -
  have "jnum_ok (JObj (data_members d))"
    by (simp add: data_members_def jnumm_ok_append jnumm_ok_omit)
  moreover have "s = print_jval (JObj (data_members d))"
    using assms(1) by (simp only: Encode_def option.inject)
  ultimately show ?thesis using assms(2) print_printable(1) by blast
qed

lemma Encode_nonempty: "Encode d = Some s \<Longrightarrow> s \<noteq> []"
  by (auto simp: Encode_def)

lemma parse_json_Encode:
  assumes "data_ok d" and "Encode d = Some s"
  shows "parse_json s = Some (JObj (data_members d))"
proof -
  have "jgood max_depth (JObj (data_members d))"
    using assms(1) by (intro jgood_data_members) (simp_all add: max_depth_def)
  from parse_json_print [OF this] assms(2) show ?thesis by (simp add: Encode_def)
qed

lemma Decode_Encode_ok:
  assumes "data_ok d" and "Encode d = Some s"
  shows "Decode s = Inr d"
  using unm_data_members [OF assms(1)]
  by (simp add: Decode_def parse_json_Encode [OF assms] unm_struct_def)

end
