(* ===== verification/Client_Conn.thy ===== *)
theory Client_Conn
  imports Messages
begin

text \<open>
  One connection, after \<open>server/client.go\<close>: the \<open>Client\<close> object, its bounded send
  queue (\<open>Send\<close>, \<open>CloseGracefully\<close>), the writer goroutine with its
  \<open>bufio.Writer\<close> and flush timer, the teardown goroutine and the ping. Queue and buffer
  are explicit; a \<open>select\<close> with several ready cases is resolved by an argument, and the
  network by a function that says how many bytes of a write the connection takes.
\<close>

section \<open>The client object\<close>

text \<open>The writer goroutine: its buffered writer, the bytes already handed to the connection,
  and whether the flush timer is pending and the goroutine still runs.\<close>

record writer =
  bw_buf :: bytes
  bw_err :: bool
  wire :: bytes
  timer_armed :: bool
  w_running :: bool

text \<open>
  \<open>ctx_done\<close> says that the context of the client is cancelled (by its own
  \<open>Close\<close> or a parent); \<open>closed\<close> and \<open>sd_closed\<close> are set by the teardown
  goroutine. Channels and servers are referred to by address.
\<close>

record client =
  messageTerminator :: char
  connectionType :: bytes
  cid :: int
  version :: int
  ip :: bytes
  cchan :: "nat option"
  auth :: bool
  ctx_done :: bool
  closed :: bool
  sd :: "bytes list"
  sd_closed :: bool
  dropped :: "32 word"
  wr :: writer
  srv :: nat

definition sd_capacity :: nat where "sd_capacity = 100"
definition dropKickInterval :: "32 word" where "dropKickInterval = 500"

definition ping_msg :: bytes where
  "ping_msg = CHR ''{'' # dquote # ''type'' @ dquote # CHR '':'' # dquote # ''ping'' @ [dquote, CHR ''}'']"

definition not_connected_msg :: bytes where
  "not_connected_msg =
     CHR ''{'' # dquote # ''type'' @ dquote # CHR '':'' # dquote # ''nvda_not_connected'' @ [dquote, CHR ''}'']"

definition new_writer :: writer where
  "new_writer = \<lparr>bw_buf = [], bw_err = False, wire = [], timer_armed = False, w_running = True\<rparr>"

text \<open>The literal in \<open>accept\<close>, with the queue and writer \<open>listen\<close> sets up.\<close>

definition new_client :: "char \<Rightarrow> bytes \<Rightarrow> nat \<Rightarrow> bool \<Rightarrow> client" where
  "new_client term addr s parent_done =
     \<lparr>messageTerminator = term, connectionType = [], cid = 0, version = 0, ip = addr, cchan = None,
      auth = False, ctx_done = parent_done, closed = False, sd = [], sd_closed = False, dropped = 0,
      wr = new_writer, srv = s\<rparr>"

definition Close :: "client \<Rightarrow> client" where
  "Close c = c\<lparr>ctx_done := True\<rparr>"

definition ClearChannel :: "client \<Rightarrow> client" where
  "ClearChannel c = c\<lparr>cchan := None\<rparr>"

definition SetChannel :: "nat \<Rightarrow> client \<Rightarrow> client" where
  "SetChannel r c = c\<lparr>cchan := Some r\<rparr>"

definition SetAuthorized :: "bool \<Rightarrow> client \<Rightarrow> client" where
  "SetAuthorized b c = c\<lparr>auth := b\<rparr>"

definition SetID :: "int \<Rightarrow> client \<Rightarrow> client" where
  "SetID i c = c\<lparr>cid := i\<rparr>"

definition SetConnectionType :: "bytes \<Rightarrow> client \<Rightarrow> client" where
  "SetConnectionType t c = c\<lparr>connectionType := t\<rparr>"

definition SetVersion :: "int \<Rightarrow> client \<Rightarrow> client" where
  "SetVersion v c = c\<lparr>version := v\<rparr>"

lemmas setter_defs = Close_def ClearChannel_def SetChannel_def SetAuthorized_def SetID_def
  SetConnectionType_def SetVersion_def

section \<open>Sending\<close>

text \<open>The send case of a \<open>select\<close> is ready on a channel with room and on a closed one.\<close>

definition sd_ready :: "client \<Rightarrow> bool" where
  "sd_ready c \<longleftrightarrow> sd_closed c \<or> length (sd c) < sd_capacity"

text \<open>
  \<open>Send\<close>: with both the send case and \<open>ctx.Done()\<close> ready Go picks either one, so
  \<open>pick\<close> decides. A send on the closed queue panics, and the deferred \<open>recover\<close>
  turns that into \<open>Close\<close>. The default case counts the dropped message and closes the
  client at every multiple of \<open>dropKickInterval\<close>.
\<close>

definition Send :: "bool \<Rightarrow> bytes \<Rightarrow> client \<Rightarrow> client" where
  "Send pick b c =
     (if b = [] then c
      else if sd_ready c \<and> (pick \<or> \<not> ctx_done c) then
        (if sd_closed c then Close c else c\<lparr>sd := sd c @ [b]\<rparr>)
      else if ctx_done c then c
      else
        let n = dropped c + 1; c' = c\<lparr>dropped := n\<rparr>
        in if n mod dropKickInterval = 0 then Close c' else c')"

text \<open>
  \<open>CloseGracefully\<close> has no \<open>recover\<close>: choosing the send case on the closed queue is
  a panic of the calling goroutine.
\<close>

definition CloseGracefully :: "bool \<Rightarrow> client \<Rightarrow> client go" where
  "CloseGracefully pick c =
     (if sd_ready c \<and> (pick \<or> \<not> ctx_done c) then
        (if sd_closed c then Panic SendOnClosedChannel else Ok (c\<lparr>sd := sd c @ [[]]\<rparr>))
      else if ctx_done c then Ok c
      else Ok (Close c))"

definition ping :: "bool \<Rightarrow> client \<Rightarrow> client" where
  "ping pick c = Send pick ping_msg c"

text \<open>The branch of the second goroutine of \<open>listen\<close> that \<open>ctx.Done()\<close> wakes.\<close>

definition teardown :: "client \<Rightarrow> client" where
  "teardown c = c\<lparr>closed := True, sd_closed := True\<rparr>"

subsection \<open>What sending touches\<close>

text \<open>Only the queue, the drop counter and the context differ.\<close>

definition sends_only :: "client \<Rightarrow> client \<Rightarrow> bool" where
  "sends_only c c' \<longleftrightarrow> c' = c\<lparr>sd := sd c', dropped := dropped c', ctx_done := ctx_done c'\<rparr>"

lemma sends_only_refl [simp]: "sends_only c c"
  by (simp add: sends_only_def)

lemma sends_only_trans [trans]: "sends_only a b \<Longrightarrow> sends_only b c \<Longrightarrow> sends_only a c"
  unfolding sends_only_def by (cases a; cases b; cases c) simp

lemma sends_only_fields [frame_simps]:
  assumes "sends_only c c'"
  shows "cid c' = cid c" "cchan c' = cchan c" "connectionType c' = connectionType c"
    "auth c' = auth c" "version c' = version c" "messageTerminator c' = messageTerminator c"
    "sd_closed c' = sd_closed c" "closed c' = closed c" "wr c' = wr c" "ip c' = ip c"
    "srv c' = srv c"
  using assms unfolding sends_only_def by (cases c; cases c'; simp)+

lemma sends_only_Send: "sends_only c (Send pick b c)"
  unfolding sends_only_def Send_def Close_def Let_def by (cases c) simp

text \<open>A call of \<open>Send\<close> queues the message at the end, or leaves the queue alone.\<close>

lemma Send_queue: "sd (Send pick b c) = sd c \<or> sd (Send pick b c) = sd c @ [b] \<and> b \<noteq> []"
  by (simp add: Send_def Close_def Let_def)

lemma Send_delivers:
  "b \<noteq> [] \<Longrightarrow> \<not> ctx_done c \<Longrightarrow> \<not> sd_closed c \<Longrightarrow> length (sd c) < sd_capacity \<Longrightarrow>
     Send pick b c = c\<lparr>sd := sd c @ [b]\<rparr>"
  by (simp add: Send_def sd_ready_def)

lemma Send_done: "ctx_done c \<Longrightarrow> ctx_done (Send pick b c)"
  by (simp add: Send_def Close_def Let_def)

subsection \<open>Invariants of a client\<close>

text \<open>
  The queue never exceeds its capacity, a client still open has dropped fewer than 500
  messages, no client ever drops more, and the queue is only closed after the context.
\<close>

definition client_inv :: "client \<Rightarrow> bool" where
  "client_inv c \<longleftrightarrow>
     length (sd c) \<le> sd_capacity \<and>
     unat (dropped c) \<le> 500 \<and> (\<not> ctx_done c \<longrightarrow> unat (dropped c) < 500) \<and>
     (sd_closed c \<longrightarrow> ctx_done c) \<and> closed c = sd_closed c"

lemma client_inv_new: "client_inv (new_client term addr s pd)"
  by (simp add: client_inv_def new_client_def sd_capacity_def)

lemma dropped_step:
  fixes n :: "32 word"
  assumes "unat n < 500"
  shows "unat (n + 1) = Suc (unat n)" and "(n + 1) mod dropKickInterval = 0 \<longleftrightarrow> unat n = 499"
proof -
  show s: "unat (n + 1) = Suc (unat n)"
    using assms by (simp add: unat_word_ariths)
  have "unat ((n + 1) mod dropKickInterval) = Suc (unat n) mod 500"
    by (simp add: unat_mod_distrib s dropKickInterval_def)
  moreover have "Suc (unat n) mod 500 = 0 \<longleftrightarrow> unat n = 499"
    using assms by (cases "unat n = 499") auto
  ultimately show "(n + 1) mod dropKickInterval = 0 \<longleftrightarrow> unat n = 499"
    by (metis unat_0 unat_eq_zero)
qed

lemma client_inv_Send: "client_inv c \<Longrightarrow> client_inv (Send pick b c)"
  using dropped_step [of "dropped c"]
  by (auto simp: client_inv_def Send_def Close_def Let_def sd_ready_def)

lemma client_inv_CloseGracefully:
  "client_inv c \<Longrightarrow> CloseGracefully pick c = Ok c' \<Longrightarrow> client_inv c'"
  by (auto simp: client_inv_def CloseGracefully_def Close_def sd_ready_def split: if_splits)

lemma client_inv_setters:
  "client_inv c \<Longrightarrow> client_inv (Close c)"
  "client_inv c \<Longrightarrow> client_inv (ClearChannel c)"
  "client_inv c \<Longrightarrow> client_inv (SetChannel r c)"
  "client_inv c \<Longrightarrow> client_inv (SetAuthorized b c)"
  "client_inv c \<Longrightarrow> client_inv (SetID i c)"
  "client_inv c \<Longrightarrow> client_inv (SetConnectionType t c)"
  "client_inv c \<Longrightarrow> client_inv (SetVersion v c)"
  by (auto simp: client_inv_def setter_defs)

lemma client_inv_teardown: "client_inv c \<Longrightarrow> ctx_done c \<Longrightarrow> client_inv (teardown c)"
  by (auto simp: client_inv_def teardown_def)

subsection \<open>A client that has stopped reading\<close>

fun Send_all :: "(nat \<Rightarrow> bool) \<Rightarrow> bytes list \<Rightarrow> client \<Rightarrow> client" where
  "Send_all pk [] c = c"
| "Send_all pk (b # bs) c = Send_all (\<lambda>i. pk (Suc i)) bs (Send (pk 0) b c)"

lemma Send_full:
  assumes "b \<noteq> []" "\<not> ctx_done c" "\<not> sd_closed c" "length (sd c) = sd_capacity"
    "unat (dropped c) < 500"
  shows "Send pick b c = c\<lparr>dropped := dropped c + 1, ctx_done := (unat (dropped c) = 499)\<rparr>"
  using assms dropped_step(2) [OF assms(5)]
  by (cases c) (auto simp: Send_def sd_ready_def Let_def Close_def)

lemma Send_all_full:
  assumes "list_all (\<lambda>b. b \<noteq> []) bs" "\<not> ctx_done c" "\<not> sd_closed c"
    "length (sd c) = sd_capacity" "unat (dropped c) + length bs \<le> 500"
  shows "unat (dropped (Send_all pk bs c)) = unat (dropped c) + length bs \<and>
    sd (Send_all pk bs c) = sd c \<and>
    (ctx_done (Send_all pk bs c) \<longleftrightarrow> bs \<noteq> [] \<and> unat (dropped c) + length bs = 500)"
  using assms
proof (induction bs arbitrary: pk c)
  case Nil
  then show ?case by simp
next
  case (Cons b bs)
  then have lt: "unat (dropped c) < 500" by simp
  let ?c = "Send (pk 0) b c"
  from Cons.prems lt have c': "?c = c\<lparr>dropped := dropped c + 1, ctx_done := (unat (dropped c) = 499)\<rparr>"
    by (intro Send_full) auto
  show ?case
  proof (cases "bs = []")
    case True
    with c' dropped_step(1) [OF lt] show ?thesis by auto
  next
    case False
    then have "0 < length bs" by simp
    with Cons.prems have "unat (dropped c) \<noteq> 499" by auto
    with c' Cons.prems Cons.IH [of ?c "\<lambda>i. pk (Suc i)"] dropped_step(1) [OF lt] False show ?thesis
      by auto
  qed
qed

section \<open>The writer goroutine\<close>

text \<open>
  The network decides how many bytes of a write the connection takes; fewer than asked is a
  write error (a deadline, a closed connection). It may depend on all that was written so far.
\<close>

type_synonym network = "bytes \<Rightarrow> bytes \<Rightarrow> nat"

definition bufsize :: nat where "bufsize = 16 * 1024"

definition conn_write :: "network \<Rightarrow> bytes \<Rightarrow> writer \<Rightarrow> nat \<times> writer" where
  "conn_write net p w =
     (let n = min (net (wire w) p) (length p)
      in (n, w\<lparr>wire := wire w @ take n p, bw_err := n < length p\<rparr>))"

text \<open>\<open>bufio.Writer\<close>: \<open>Flush\<close>, \<open>Write\<close> and \<open>WriteByte\<close>.\<close>

definition bw_flush :: "network \<Rightarrow> writer \<Rightarrow> writer" where
  "bw_flush net w =
     (if bw_err w \<or> bw_buf w = [] then w
      else let (n, w') = conn_write net (bw_buf w) w in w'\<lparr>bw_buf := drop n (bw_buf w)\<rparr>)"

lemma bw_flush_measure:
  "\<not> bw_err (bw_flush net w) \<Longrightarrow> bw_buf (bw_flush net w) = []"
  by (auto simp: bw_flush_def conn_write_def Let_def)

lemma conn_write_err: "conn_write net p w = (n, w') \<Longrightarrow> \<not> bw_err w' \<Longrightarrow> length p \<le> n"
  by (auto simp: conn_write_def Let_def)

function bw_write :: "network \<Rightarrow> bytes \<Rightarrow> writer \<Rightarrow> writer" where
  "bw_write net p w =
     (if bufsize - length (bw_buf w) < length p \<and> \<not> bw_err w then
        (if bw_buf w = [] then
           (let (n, w') = conn_write net p w in bw_write net (drop n p) w')
         else
           (let n = bufsize - length (bw_buf w);
                w' = bw_flush net (w\<lparr>bw_buf := bw_buf w @ take n p\<rparr>)
            in bw_write net (drop n p) w'))
      else if bw_err w then w
      else w\<lparr>bw_buf := bw_buf w @ p\<rparr>)"
  by pat_completeness auto
termination
proof (relation "measure (\<lambda>(net, p, w). if bw_err w then 0 else Suc (length p + length (bw_buf w)))",
    goal_cases)
  case 1
  then show ?case by simp
next
  case (2 net p w x n w')
  then show ?case using conn_write_err [of net p w n w']
    by (auto simp: conn_write_def Let_def)
next
  case (3 net p w n w')
  then show ?case using bw_flush_measure [of net "w\<lparr>bw_buf := bw_buf w @ take n p\<rparr>"]
    by (cases "bw_buf w") auto
qed

declare bw_write.simps [simp del]

definition bw_write_byte :: "network \<Rightarrow> char \<Rightarrow> writer \<Rightarrow> writer" where
  "bw_write_byte net b w =
     (if bw_err w then w
      else let w' = (if bufsize \<le> length (bw_buf w) then bw_flush net w else w)
           in if bw_err w' then w' else w'\<lparr>bw_buf := bw_buf w' @ [b]\<rparr>)"

text \<open>
  One turn of the writer loop. \<open>WTake\<close> is the receive from the queue, \<open>WTimer\<close> the
  flush timer firing. A stopped goroutine does nothing more.
\<close>

definition stop_writer :: "client \<Rightarrow> client" where
  "stop_writer c = c\<lparr>wr := (wr c)\<lparr>w_running := False\<rparr>\<rparr>"

definition set_wr :: "writer \<Rightarrow> client \<Rightarrow> client" where
  "set_wr w c = c\<lparr>wr := w\<rparr>"

definition writer_take :: "network \<Rightarrow> client \<Rightarrow> client" where
  "writer_take net c =
     (case sd c of
        [] \<Rightarrow> if sd_closed c then stop_writer c else c
      | b # rest \<Rightarrow>
          let c1 = c\<lparr>sd := rest\<rparr> in
          if b = [] then stop_writer (Close (set_wr (bw_flush net (wr c)) c1))
          else
            let w1 = bw_write net b (wr c) in
            if bw_err w1 then stop_writer (Close (set_wr w1 c1))
            else
              let w2 = bw_write_byte net (messageTerminator c) w1 in
              if rest = [] then
                (let w3 = bw_flush net w2 in
                 if bw_err w3 then stop_writer (Close (set_wr w3 c1))
                 else set_wr (w3\<lparr>timer_armed := False\<rparr>) c1)
              else set_wr (w2\<lparr>timer_armed := \<not> timer_armed w2\<rparr>) c1)"

definition writer_timer :: "network \<Rightarrow> client \<Rightarrow> client" where
  "writer_timer net c =
     (let w1 = bw_flush net ((wr c)\<lparr>timer_armed := False\<rparr>)
      in if bw_err w1 then stop_writer (Close (set_wr w1 c)) else set_wr w1 c)"

datatype writer_event = WTake | WTimer

definition writer_ready :: "client \<Rightarrow> writer_event \<Rightarrow> bool" where
  "writer_ready c e \<longleftrightarrow> w_running (wr c) \<and>
     (case e of WTake \<Rightarrow> sd c \<noteq> [] \<or> sd_closed c | WTimer \<Rightarrow> timer_armed (wr c))"

definition writer_step :: "network \<Rightarrow> writer_event \<Rightarrow> client \<Rightarrow> client" where
  "writer_step net e c =
     (if \<not> writer_ready c e then c
      else case e of WTake \<Rightarrow> writer_take net c | WTimer \<Rightarrow> writer_timer net c)"

subsection \<open>A buffered sink\<close>

text \<open>
  What the writer loop needs of the buffered writer: bytes come out in the order they were put
  in, nothing is lost or doubled unless a write failed, and then what did come out is a prefix.
\<close>

locale byte_sink =
  fixes put :: "bytes \<Rightarrow> 'w \<Rightarrow> 'w"
    and flush :: "'w \<Rightarrow> 'w"
    and out :: "'w \<Rightarrow> bytes"
    and held :: "'w \<Rightarrow> bytes"
    and failed :: "'w \<Rightarrow> bool"
  assumes put_ok: "\<not> failed (put p w) \<Longrightarrow> \<not> failed w \<and> out (put p w) @ held (put p w) = out w @ held w @ p"
    and put_fail: "failed (put p w) \<Longrightarrow> \<not> failed w \<Longrightarrow> \<exists>r. out w @ held w @ p = out (put p w) @ r"
    and flush_ok: "\<not> failed (flush w) \<Longrightarrow> \<not> failed w \<and> out (flush w) = out w @ held w \<and> held (flush w) = []"
    and flush_fail: "failed (flush w) \<Longrightarrow> \<not> failed w \<Longrightarrow> \<exists>r. out w @ held w = out (flush w) @ r"
begin

lemma put_all_ok:
  "\<not> failed (fold put ps w) \<Longrightarrow>
     \<not> failed w \<and> out (fold put ps w) @ held (fold put ps w) = out w @ held w @ concat ps"
proof (induction ps arbitrary: w)
  case Nil
  then show ?case by simp
next
  case (Cons p ps)
  from Cons.IH [of "put p w"] Cons.prems put_ok [of p w] show ?case by auto
qed

lemma put_all_flush:
  assumes "\<not> failed (flush (fold put ps w))"
  shows "out (flush (fold put ps w)) = out w @ held w @ concat ps"
    and "held (flush (fold put ps w)) = []"
  using flush_ok [OF assms] put_all_ok [of ps w] by auto

end

lemma bw_flush_ok:
  "\<not> bw_err (bw_flush net w) \<Longrightarrow>
     \<not> bw_err w \<and> wire (bw_flush net w) = wire w @ bw_buf w \<and> bw_buf (bw_flush net w) = []"
  by (auto simp: bw_flush_def conn_write_def Let_def)

lemma bw_flush_fail:
  "bw_err (bw_flush net w) \<Longrightarrow> \<not> bw_err w \<Longrightarrow> \<exists>r. wire w @ bw_buf w = wire (bw_flush net w) @ r"
  by (auto simp: bw_flush_def conn_write_def Let_def split: if_splits) (metis append_take_drop_id)

lemma bw_write_ok:
  "\<not> bw_err (bw_write net p w) \<Longrightarrow> \<not> bw_err w \<and>
     wire (bw_write net p w) @ bw_buf (bw_write net p w) = wire w @ bw_buf w @ p"
proof (induction net p w rule: bw_write.induct)
  case (1 net p w)
  let ?over = "bufsize - length (bw_buf w) < length p \<and> \<not> bw_err w"
  let ?n = "bufsize - length (bw_buf w)"
  let ?w = "bw_flush net (w\<lparr>bw_buf := bw_buf w @ take ?n p\<rparr>)"
  consider "\<not> ?over" | "?over" "bw_buf w = []" | "?over" "bw_buf w \<noteq> []" by blast
  then show ?case
  proof cases
    case 1
    with "1.prems" show ?thesis by (auto simp: bw_write.simps [of net p w] split: if_splits)
  next
    case 2
    obtain n w' where nw: "conn_write net p w = (n, w')" by fastforce
    with 2 have eq: "bw_write net p w = bw_write net (drop n p) w'"
      by (simp add: bw_write.simps [of net p w])
    with "1.IH"(1) [OF 2(1,2) nw [symmetric] refl] "1.prems" nw 2 show ?thesis
      by (auto simp: conn_write_def Let_def)
  next
    case 3
    then have eq: "bw_write net p w = bw_write net (drop ?n p) ?w"
      by (simp add: bw_write.simps [of net p w] Let_def)
    with "1.IH"(2) [OF 3(1,2) refl refl] "1.prems" bw_flush_ok show ?thesis by fastforce
  qed
qed

lemma bw_write_fail:
  "bw_err (bw_write net p w) \<Longrightarrow> \<not> bw_err w \<Longrightarrow>
     \<exists>r. wire w @ bw_buf w @ p = wire (bw_write net p w) @ r"
proof (induction net p w rule: bw_write.induct)
  case (1 net p w)
  let ?over = "bufsize - length (bw_buf w) < length p \<and> \<not> bw_err w"
  let ?n = "bufsize - length (bw_buf w)"
  let ?w0 = "w\<lparr>bw_buf := bw_buf w @ take ?n p\<rparr>"
  let ?w = "bw_flush net ?w0"
  consider "\<not> ?over" | "?over" "bw_buf w = []" | "?over" "bw_buf w \<noteq> []" by blast
  then show ?case
  proof cases
    case 1
    with "1.prems" show ?thesis by (auto simp: bw_write.simps [of net p w] split: if_splits)
  next
    case 2
    obtain n w' where nw: "conn_write net p w = (n, w')" by fastforce
    with 2 have eq: "bw_write net p w = bw_write net (drop n p) w'"
      by (simp add: bw_write.simps [of net p w])
    show ?thesis
    proof (cases "bw_err w'")
      case True
      then have "bw_write net (drop n p) w' = w'" by (simp add: bw_write.simps [of net _ w'])
      with eq have "bw_write net p w = w'" by simp
      moreover from nw have "wire w' = wire w @ take n p"
        by (auto simp: conn_write_def Let_def)
      ultimately show ?thesis using 2 by (intro exI [of _ "drop n p"]) simp
    next
      case False
      with "1.IH"(1) [OF 2(1,2) nw [symmetric] refl] "1.prems" eq nw 2 show ?thesis
        by (auto simp: conn_write_def Let_def)
    qed
  next
    case 3
    then have eq: "bw_write net p w = bw_write net (drop ?n p) ?w"
      by (simp add: bw_write.simps [of net p w] Let_def)
    show ?thesis
    proof (cases "bw_err ?w")
      case True
      then have "bw_write net (drop ?n p) ?w = ?w" by (simp add: bw_write.simps [of net _ ?w])
      with eq bw_flush_fail [OF True] 3 show ?thesis
        by simp (metis append_assoc append_take_drop_id)
    next
      case False
      with "1.IH"(2) [OF 3(1,2) refl refl] "1.prems" eq bw_flush_ok [OF False] show ?thesis
        by simp
    qed
  qed
qed

interpretation sink: byte_sink "bw_write net" "bw_flush net" wire bw_buf bw_err for net
  by unfold_locales (use bw_write_ok bw_write_fail bw_flush_ok bw_flush_fail in \<open>blast+\<close>)

lemma bw_write_byte_ok:
  "\<not> bw_err (bw_write_byte net b w) \<Longrightarrow> \<not> bw_err w \<and>
     wire (bw_write_byte net b w) @ bw_buf (bw_write_byte net b w) = wire w @ bw_buf w @ [b]"
  using bw_flush_ok [of net w] by (auto simp: bw_write_byte_def Let_def split: if_splits)

lemma bw_write_byte_fail:
  "bw_err (bw_write_byte net b w) \<Longrightarrow> \<not> bw_err w \<Longrightarrow>
     \<exists>r. wire w @ bw_buf w = wire (bw_write_byte net b w) @ r"
  using bw_flush_fail [of net w] by (auto simp: bw_write_byte_def Let_def split: if_splits)

lemma frozen:
  "bw_err w \<Longrightarrow> bw_flush net w = w" "bw_err w \<Longrightarrow> bw_write net p w = w"
  "bw_err w \<Longrightarrow> bw_write_byte net b w = w"
  by (simp_all add: bw_flush_def bw_write.simps bw_write_byte_def)

section \<open>The stream of a client\<close>

text \<open>
  The bytes a queued message becomes on the connection; the sentinel of
  \<open>CloseGracefully\<close> becomes none. The stream of a client is everything written,
  buffered and queued, in that order.
\<close>

definition frame :: "char \<Rightarrow> bytes \<Rightarrow> bytes" where
  "frame t b = (if b = [] then [] else b @ [t])"

definition frames :: "char \<Rightarrow> bytes list \<Rightarrow> bytes" where
  "frames t bs = concat (map (frame t) bs)"

definition stream :: "client \<Rightarrow> bytes" where
  "stream c = wire (wr c) @ bw_buf (wr c) @ frames (messageTerminator c) (sd c)"

lemma frames_simps [simp]:
  "frames t [] = []" "frames t (b # bs) = frame t b @ frames t bs"
  "frames t (as @ bs) = frames t as @ frames t bs"
  by (simp_all add: frames_def)

lemma set_wr_simps [simp]:
  "wr (set_wr w c) = w" "sd (set_wr w c) = sd c" "messageTerminator (set_wr w c) = messageTerminator c"
  "wr (Close c) = wr c" "sd (Close c) = sd c" "messageTerminator (Close c) = messageTerminator c"
  "wr (stop_writer c) = (wr c)\<lparr>w_running := False\<rparr>" "sd (stop_writer c) = sd c"
  "messageTerminator (stop_writer c) = messageTerminator c"
  "ctx_done (set_wr w c) = ctx_done c" "ctx_done (Close c)" "ctx_done (stop_writer c) = ctx_done c"
  by (simp_all add: set_wr_def Close_def stop_writer_def)

lemma messageTerminator_step [simp]: "messageTerminator (writer_step net e c) = messageTerminator c"
  by (simp add: writer_step_def writer_take_def writer_timer_def Let_def
      split: list.split writer_event.split)

text \<open>A turn of the writer that meets no write error keeps the stream.\<close>

lemma writer_step_stream:
  assumes "\<not> bw_err (wr (writer_step net e c))"
  shows "\<not> bw_err (wr c) \<and> stream (writer_step net e c) = stream c"
proof (cases "writer_ready c e")
  case False
  with assms show ?thesis by (simp add: writer_step_def)
next
  case True
  show ?thesis
  proof (cases e)
    case WTimer
    with assms True bw_flush_ok [of net "(wr c)\<lparr>timer_armed := False\<rparr>"] show ?thesis
      by (auto simp: writer_step_def writer_timer_def Let_def stream_def split: if_splits)
  next
    case WTake
    show ?thesis
    proof (cases "sd c")
      case Nil
      with assms True WTake show ?thesis
        by (auto simp: writer_step_def writer_take_def stream_def writer_ready_def)
    next
      case (Cons b rest)
      let ?w1 = "bw_write net b (wr c)"
      let ?w2 = "bw_write_byte net (messageTerminator c) ?w1"
      from assms True WTake Cons bw_flush_ok [of net "wr c"] bw_write_ok [of net b "wr c"]
        bw_write_byte_ok [of net "messageTerminator c" ?w1] bw_flush_ok [of net ?w2]
      show ?thesis
        by (auto simp: writer_step_def writer_take_def Let_def stream_def frame_def split: if_splits)
    qed
  qed
qed

text \<open>In any case what is on the wire stays, and only grows by a prefix of what was owed.\<close>

lemma writer_step_prefix:
  assumes "\<not> bw_err (wr c)"
  shows "\<exists>r. stream c = wire (wr (writer_step net e c)) @ r"
proof (cases "bw_err (wr (writer_step net e c))")
  case False
  then show ?thesis using writer_step_stream [OF False] by (metis stream_def)
next
  case err: True
  have ready: "writer_ready c e"
  proof (rule ccontr)
    assume "\<not> writer_ready c e"
    with err assms show False by (simp add: writer_step_def)
  qed
  show ?thesis
  proof (cases e)
    case WTimer
    with err ready assms bw_flush_fail [of net "(wr c)\<lparr>timer_armed := False\<rparr>"] show ?thesis
      by (auto simp: writer_step_def writer_timer_def Let_def stream_def split: if_splits)
         (metis append_assoc)
  next
    case WTake
    with ready err assms have "sd c \<noteq> []"
      by (auto simp: writer_step_def writer_take_def writer_ready_def)
    then obtain b rest where sd: "sd c = b # rest" by (cases "sd c") auto
    let ?t = "messageTerminator c"
    let ?w1 = "bw_write net b (wr c)"
    let ?w2 = "bw_write_byte net ?t ?w1"
    show ?thesis
    proof (cases "b = []")
      case True
      with err ready WTake sd have "bw_err (bw_flush net (wr c))"
        by (simp add: writer_step_def writer_take_def)
      from bw_flush_fail [OF this assms] obtain r where
        "wire (wr c) @ bw_buf (wr c) = wire (bw_flush net (wr c)) @ r" by blast
      with True ready WTake sd show ?thesis
        by (simp add: writer_step_def writer_take_def stream_def) (metis append_assoc)
    next
      case False
      consider "bw_err ?w1" | "\<not> bw_err ?w1" "bw_err ?w2" | "\<not> bw_err ?w2" by blast
      then have "\<exists>r. wire (wr c) @ bw_buf (wr c) @ b @ [?t] =
          wire (wr (writer_step net e c)) @ r"
      proof cases
        case 1
        from bw_write_fail [OF 1 assms] obtain r where
          "wire (wr c) @ bw_buf (wr c) @ b = wire ?w1 @ r" by blast
        then have "wire (wr c) @ bw_buf (wr c) @ b @ [?t] = wire ?w1 @ r @ [?t]"
          by (metis append_assoc)
        moreover from 1 False ready WTake sd have "wire (wr (writer_step net e c)) = wire ?w1"
          by (simp add: writer_step_def writer_take_def Let_def)
        ultimately show ?thesis by metis
      next
        case 2
        from bw_write_ok [OF 2(1)] bw_write_byte_fail [OF 2(2,1)] obtain r where
          "wire (wr c) @ bw_buf (wr c) @ b = wire ?w2 @ r" by auto
        then have "wire (wr c) @ bw_buf (wr c) @ b @ [?t] = wire ?w2 @ r @ [?t]"
          by (metis append_assoc)
        moreover from 2 False ready WTake sd frozen(1) [OF 2(2)]
        have "wire (wr (writer_step net e c)) = wire ?w2"
          by (simp add: writer_step_def writer_take_def Let_def)
        ultimately show ?thesis by metis
      next
        case 3
        with err False ready WTake sd bw_write_byte_ok [of net ?t ?w1] have
          w3: "rest = []" "bw_err (bw_flush net ?w2)"
          by (auto simp: writer_step_def writer_take_def Let_def split: if_splits)
        from bw_write_byte_ok [OF 3] bw_write_ok [of net b "wr c"]
        have "wire ?w2 @ bw_buf ?w2 = wire (wr c) @ bw_buf (wr c) @ b @ [?t]" by simp
        with bw_flush_fail [OF w3(2) 3]
        have "\<exists>r. wire (wr c) @ bw_buf (wr c) @ b @ [?t] = wire (bw_flush net ?w2) @ r" by metis
        moreover from 3 w3 False ready WTake sd bw_write_byte_ok [OF 3]
        have "wire (wr (writer_step net e c)) = wire (bw_flush net ?w2)"
          by (simp add: writer_step_def writer_take_def Let_def)
        ultimately show ?thesis by metis
      qed
      then obtain r where
        "wire (wr c) @ bw_buf (wr c) @ b @ [?t] = wire (wr (writer_step net e c)) @ r" by blast
      then have "stream c = wire (wr (writer_step net e c)) @ r @ frames ?t rest"
        using sd False by (simp add: stream_def frame_def)
      then show ?thesis by blast
    qed
  qed
qed

text \<open>Once a write has failed the writer never writes again.\<close>

lemma writer_step_frozen:
  "bw_err (wr c) \<Longrightarrow> wire (wr (writer_step net e c)) = wire (wr c) \<and> bw_err (wr (writer_step net e c))"
  by (auto simp: writer_step_def writer_take_def writer_timer_def Let_def frozen
      split: list.splits writer_event.splits)

text \<open>
  While the writer runs with an empty queue nothing is left in its buffer: the timer only
  bounds the delay of a burst, it is not needed for delivery.
\<close>

definition idle_flushed :: "client \<Rightarrow> bool" where
  "idle_flushed c \<longleftrightarrow>
     (w_running (wr c) \<and> sd c = [] \<longrightarrow> bw_buf (wr c) = [] \<and> \<not> bw_err (wr c))"

lemma idle_flushed_writer_step: "idle_flushed c \<Longrightarrow> idle_flushed (writer_step net e c)"
  using bw_flush_ok [of net "(wr c)\<lparr>timer_armed := False\<rparr>"]
  by (auto simp: idle_flushed_def writer_step_def writer_take_def writer_timer_def Let_def
      bw_flush_measure split: list.splits writer_event.splits)

lemma idle_flushed_Send: "idle_flushed c \<Longrightarrow> idle_flushed (Send pick b c)"
  by (auto simp: idle_flushed_def Send_def Close_def Let_def)

section \<open>Runs of one client\<close>

datatype client_event =
    CSend bool bytes
  | CGraceful bool
  | CClose
  | CTeardown
  | CWriter network writer_event

fun client_step :: "client_event \<Rightarrow> client \<Rightarrow> client go" where
  "client_step (CSend pick b) c = Ok (Send pick b c)"
| "client_step (CGraceful pick) c = CloseGracefully pick c"
| "client_step CClose c = Ok (Close c)"
| "client_step CTeardown c = Ok (if ctx_done c then teardown c else c)"
| "client_step (CWriter net e) c = Ok (writer_step net e c)"

fun client_run :: "client_event list \<Rightarrow> client \<Rightarrow> client go" where
  "client_run [] c = Ok c"
| "client_run (e # es) c = go_bind (client_step e c) (client_run es)"

text \<open>The messages the queue accepted, in order: the abstract log of the client.\<close>

definition accepts :: "client_event \<Rightarrow> client \<Rightarrow> bytes list" where
  "accepts e c =
     (case e of
        CSend pick b \<Rightarrow>
          if b \<noteq> [] \<and> sd_ready c \<and> (pick \<or> \<not> ctx_done c) \<and> \<not> sd_closed c then [b] else []
      | _ \<Rightarrow> [])"

fun accepted :: "client_event list \<Rightarrow> client \<Rightarrow> bytes list" where
  "accepted [] c = []"
| "accepted (e # es) c =
     accepts e c @ (case client_step e c of Ok c' \<Rightarrow> accepted es c' | _ \<Rightarrow> [])"

lemma Send_accepts: "sd (Send pick b c) = sd c @ accepts (CSend pick b) c"
  by (simp add: accepts_def Send_def Close_def Let_def)

text \<open>
  The simulation relation: with no write error the stream is the log; always, what is on the
  wire is a prefix of the log.
\<close>

definition tracks :: "bytes \<Rightarrow> client \<Rightarrow> bool" where
  "tracks l c \<longleftrightarrow> (\<not> bw_err (wr c) \<longrightarrow> stream c = l) \<and> (\<exists>r. l = wire (wr c) @ r)"

lemma tracks_step:
  assumes "tracks l c" and "client_step e c = Ok c'"
  shows "tracks (l @ frames (messageTerminator c) (accepts e c)) c'
    \<and> messageTerminator c' = messageTerminator c"
proof (cases e)
  case (CWriter net we)
  with assms(2) have c': "c' = writer_step net we c" by simp
  show ?thesis
  proof (cases "bw_err (wr c)")
    case True
    from writer_step_frozen [OF True, of net we] assms(1) show ?thesis
      by (simp add: c' tracks_def CWriter accepts_def)
  next
    case False
    with assms(1) have "stream c = l" by (simp add: tracks_def)
    with writer_step_stream [of net we c] writer_step_prefix [OF False, of net we] show ?thesis
      by (auto simp: c' tracks_def CWriter accepts_def)
  qed
next
  case (CSend pick b)
  with assms sends_only_fields [OF sends_only_Send [of c pick b]] show ?thesis
    by (auto simp: tracks_def stream_def Send_accepts)
next
  case (CGraceful pick)
  with assms show ?thesis
    by (auto simp: tracks_def accepts_def CloseGracefully_def stream_def Close_def frame_def
        split: if_splits)
next
  case CClose
  with assms show ?thesis by (auto simp: tracks_def accepts_def stream_def Close_def)
next
  case CTeardown
  with assms show ?thesis by (cases "ctx_done c") (auto simp: tracks_def accepts_def stream_def teardown_def)
qed

lemma tracks_run:
  "tracks l c \<Longrightarrow> client_run es c = Ok c' \<Longrightarrow>
     tracks (l @ frames (messageTerminator c) (accepted es c)) c'"
proof (induction es arbitrary: l c)
  case Nil
  then show ?case by simp
next
  case (Cons e es)
  from Cons.prems(2) obtain c1 where c1: "client_step e c = Ok c1" "client_run es c1 = Ok c'"
    by (auto simp: go_bind_Ok_iff)
  from tracks_step [OF Cons.prems(1) c1(1)] c1(1)
    Cons.IH [of "l @ frames (messageTerminator c) (accepts e c)" c1, OF _ c1(2)]
  show ?case by simp
qed

lemma tracks_new: "tracks [] (new_client t a s pd)"
  by (simp add: tracks_def new_client_def new_writer_def stream_def)

lemma client_step_inv:
  assumes "client_inv c \<and> idle_flushed c" and "client_step e c = Ok c'"
  shows "client_inv c' \<and> idle_flushed c'"
proof (cases e)
  case (CWriter net we)
  have "client_inv (writer_step net we c)" if "client_inv c"
    using that
    by (auto simp: client_inv_def writer_step_def writer_take_def writer_timer_def Let_def
        set_wr_def Close_def stop_writer_def split: list.split writer_event.split)
  with assms CWriter show ?thesis by (auto intro: idle_flushed_writer_step)
next
  case (CSend pick b)
  with assms show ?thesis by (auto intro: client_inv_Send idle_flushed_Send)
next
  case (CGraceful pick)
  with assms have "client_inv c'" by (auto intro: client_inv_CloseGracefully)
  with CGraceful assms show ?thesis
    by (auto simp: CloseGracefully_def idle_flushed_def Close_def split: if_splits)
next
  case CClose
  with assms show ?thesis by (auto simp: idle_flushed_def intro: client_inv_setters)
next
  case CTeardown
  with assms client_inv_teardown [of c] show ?thesis
    by (cases "ctx_done c") (auto simp: idle_flushed_def teardown_def)
qed

lemma client_run_inv:
  "client_inv c \<and> idle_flushed c \<Longrightarrow> client_run es c = Ok c' \<Longrightarrow> client_inv c' \<and> idle_flushed c'"
proof (induction es arbitrary: c)
  case Nil
  then show ?case by simp
next
  case (Cons e es)
  then obtain c1 where "client_step e c = Ok c1" "client_run es c1 = Ok c'"
    by (auto simp: go_bind_Ok_iff)
  with client_step_inv [OF Cons.prems(1)] Cons.IH show ?case by blast
qed

section \<open>Draining the queue\<close>

text \<open>A network on which no write fails.\<close>

definition reliable :: "network \<Rightarrow> bool" where
  "reliable net \<longleftrightarrow> (\<forall>w p. length p \<le> net w p)"

lemma reliable_conn_write: "reliable net \<Longrightarrow> conn_write net p w = (n, w') \<Longrightarrow> \<not> bw_err w'"
  by (auto simp: reliable_def conn_write_def Let_def min_absorb2)

lemma reliable_flush: "reliable net \<Longrightarrow> bw_err (bw_flush net w) = bw_err w"
  by (auto simp: reliable_def bw_flush_def conn_write_def Let_def)

lemma reliable_write: "reliable net \<Longrightarrow> bw_err (bw_write net p w) = bw_err w"
proof (induction net p w rule: bw_write.induct)
  case (1 net p w)
  let ?over = "bufsize - length (bw_buf w) < length p \<and> \<not> bw_err w"
  let ?n = "bufsize - length (bw_buf w)"
  consider "\<not> ?over" | "?over" "bw_buf w = []" | "?over" "bw_buf w \<noteq> []" by blast
  then show ?case
  proof cases
    case 1
    then show ?thesis by (auto simp: bw_write.simps [of net p w])
  next
    case 2
    obtain n w' where nw: "conn_write net p w = (n, w')" by fastforce
    from 2 nw have "bw_write net p w = bw_write net (drop n p) w'"
      by (simp add: bw_write.simps [of net p w])
    with "1.IH"(1) [OF 2(1,2) nw [symmetric] refl "1.prems"]
      reliable_conn_write [OF "1.prems" nw] 2 show ?thesis by simp
  next
    case 3
    with "1.IH"(2) [OF 3(1,2) refl refl "1.prems"] "1.prems" show ?thesis
      by (simp add: bw_write.simps [of net p w] Let_def reliable_flush)
  qed
qed

lemma reliable_write_byte: "reliable net \<Longrightarrow> bw_err (bw_write_byte net b w) = bw_err w"
  by (simp add: bw_write_byte_def Let_def reliable_flush)

fun writer_takes :: "network \<Rightarrow> nat \<Rightarrow> client \<Rightarrow> client" where
  "writer_takes net 0 c = c"
| "writer_takes net (Suc n) c = writer_takes net n (writer_step net WTake c)"

lemma w_running_flush [simp]: "w_running (bw_flush net w) = w_running w"
  by (simp add: bw_flush_def conn_write_def Let_def)

lemma w_running_write [simp]: "w_running (bw_write net p w) = w_running w"
proof (induction net p w rule: bw_write.induct)
  case (1 net p w)
  have "w_running w' = w_running w" if "conn_write net p w = (n, w')" for n w'
    using that by (auto simp: conn_write_def Let_def)
  with 1 show ?case
    by (subst bw_write.simps) (auto simp: Let_def split: prod.split)
qed

lemma w_running_write_byte [simp]: "w_running (bw_write_byte net b w) = w_running w"
  by (simp add: bw_write_byte_def Let_def)

lemma writer_take_reliable:
  assumes "reliable net" "\<not> bw_err (wr c)" "w_running (wr c)" "sd c = b # rest" "b \<noteq> []"
  shows "sd (writer_step net WTake c) = rest" "\<not> bw_err (wr (writer_step net WTake c))"
    "w_running (wr (writer_step net WTake c))" "ctx_done (writer_step net WTake c) = ctx_done c"
  using assms
  by (simp_all add: writer_step_def writer_ready_def writer_take_def Let_def reliable_flush
      reliable_write reliable_write_byte)

lemma drain:
  assumes "reliable net" "\<not> bw_err (wr c)" "w_running (wr c)" "sd c = ms @ rest"
    "list_all (\<lambda>b. b \<noteq> []) ms"
  shows "let c' = writer_takes net (length ms) c
    in sd c' = rest \<and> \<not> bw_err (wr c') \<and> w_running (wr c') \<and> stream c' = stream c \<and>
       messageTerminator c' = messageTerminator c"
  using assms
proof (induction ms arbitrary: c)
  case Nil
  then show ?case by simp
next
  case (Cons b ms)
  then have "sd (writer_step net WTake c) = ms @ rest" "\<not> bw_err (wr (writer_step net WTake c))"
    "w_running (wr (writer_step net WTake c))"
    using writer_take_reliable [of net c b "ms @ rest"] by simp_all
  with Cons.IH [of "writer_step net WTake c"] Cons.prems writer_step_stream [of net WTake c]
  show ?case by (simp add: Let_def)
qed

end
