(* ===== verification/Channels.thy ===== *)
theory Channels
  imports Client_Conn
begin

text \<open>
  Channels, after \<open>server/clientChannel.go\<close>: the parsing of a channel key, the locked
  message, joining (\<open>Add\<close>), leaving (\<open>Remove\<close>, \<open>quitLocked\<close>) and the relay
  (\<open>SendAll\<close>, \<open>SendOthers\<close>). Clients and channels are objects of an explicit heap,
  because several places hold a pointer to the same object and two channels of one name can
  exist at once. Each operation runs under the channel's lock and is one step here.
\<close>

section \<open>Channel keys\<close>

definition lock_prefix :: bytes where "lock_prefix = ''lock_''"
definition password_mark :: bytes where "password_mark = ''__password__''"

text \<open>Name, password and locked flag.\<close>

definition getChannelParams :: "bytes \<Rightarrow> bytes \<times> bytes \<times> bool" where
  "getChannelParams name =
     (let li = Index name lock_prefix; pi = Index name password_mark
      in if li = -1 \<and> pi = -1 then (name, [], False)
         else
           let (name1, locked1, pi1) =
             (if li = 0
              then (drop (length lock_prefix) name, True,
                    Index (drop (length lock_prefix) name) password_mark)
              else (name, False, pi))
           in if 0 < pi1
              then (take (nat pi1) name1, drop (nat pi1 + length password_mark) name1, True)
              else (name1, [], locked1))"

text \<open>
  The intended reading: strip one leading \<open>lock_\<close>, then split at the first password
  mark that does not start the name.
\<close>

definition strip_lock :: "bytes \<Rightarrow> bytes" where
  "strip_lock name = (if HasPrefix name lock_prefix then drop (length lock_prefix) name else name)"

lemma getChannelParams_strip:
  "getChannelParams name =
     (let n = strip_lock name; k = Index n password_mark
      in if 0 < k then (take (nat k) n, drop (nat k + length password_mark) n, True)
         else (n, [], HasPrefix name lock_prefix))"
proof (cases "HasPrefix name lock_prefix")
  case True
  then have "Index name lock_prefix = 0" by (simp add: Index_0_iff)
  with True show ?thesis by (simp add: getChannelParams_def strip_lock_def Let_def)
next
  case False
  then have "Index name lock_prefix \<noteq> 0" by (simp add: Index_0_iff)
  with False Index_neg [of name password_mark] show ?thesis
    by (auto simp: getChannelParams_def strip_lock_def Let_def)
qed

lemma getChannelParams_empty_iff:
  "fst (getChannelParams name) = [] \<longleftrightarrow> name = [] \<or> name = lock_prefix"
proof -
  have "strip_lock name = [] \<longleftrightarrow> name = [] \<or> name = lock_prefix"
    by (auto simp: strip_lock_def lock_prefix_def HasPrefix_def elim!: HasPrefixE)
  moreover have "take (nat k) n \<noteq> []" if "0 < k" "k = Index n password_mark" for k n
  proof -
    from that have "n \<noteq> []" by (auto simp: password_mark_def)
    with that show ?thesis by simp
  qed
  ultimately show ?thesis by (auto simp: getChannelParams_strip Let_def)
qed

lemma getChannelParams_password_locked:
  "getChannelParams name = (n, p, l) \<Longrightarrow> p \<noteq> [] \<Longrightarrow> l"
  by (auto simp: getChannelParams_strip Let_def split: if_splits)

text \<open>The mark is found where it was put if it does not occur earlier, even overlapping.\<close>

lemma Index_append:
  assumes "Index (n @ butlast sub) sub = -1" and "sub \<noteq> []"
  shows "Index (n @ sub @ r) sub = int (length n)"
proof -
  let ?s = "n @ sub @ r"
  have b: "0 \<le> Index ?s sub" "nat (Index ?s sub) \<le> length n"
    using Index_first [of "length n" ?s sub] assms(2) by auto
  show ?thesis
  proof (rule ccontr)
    assume "Index ?s sub \<noteq> int (length n)"
    with b have lt: "nat (Index ?s sub) < length n" by linarith
    define k where "k = nat (Index ?s sub)"
    have "?s = take k ?s @ sub @ drop (k + length sub) ?s"
      unfolding k_def using Index_found [OF b(1)] .
    then have "drop k ?s = sub @ drop (k + length sub) ?s"
      using lt k_def by (metis append_eq_conv_conj length_take min_absorb2 nat_less_le length_append trans_le_add1)
    then have "take (length sub) (drop k ?s) = sub" by simp
    moreover have "take (length sub) (drop k (n @ butlast sub)) = take (length sub) (drop k ?s)"
    proof -
      have s: "?s = (n @ butlast sub) @ last sub # r"
        using assms(2) by simp
      have len: "k + length sub \<le> length (n @ butlast sub)"
        using lt assms(2) by (simp add: k_def)
      have "take (length sub) (drop k (A @ B)) = take (length sub) (drop k A)"
        if "k + length sub \<le> length A" for A B :: bytes
        using that by simp
      from this [OF len, symmetric] show ?thesis unfolding s .
    qed
    ultimately have "HasPrefix (drop k (n @ butlast sub)) sub" by (simp add: HasPrefix_def)
    then have "0 \<le> Index (n @ butlast sub) sub"
      using lt k_def by (intro conjunct1 [OF Index_first [of k]]) simp_all
    with assms(1) show False by simp
  qed
qed

section \<open>The message of a locked channel\<close>

record channel =
  ch_name :: bytes
  ch_password :: bytes
  ch_locked :: bool
  ClientsAll :: "(int \<times> nat) list option"

definition connTypeSlave :: bytes where "connTypeSlave = ''slave''"
definition connTypeMaster :: bytes where "connTypeMaster = ''master''"

definition newline :: bytes where "newline = [CHR 0x0A]"

definition Lmotd :: "channel \<Rightarrow> bytes \<Rightarrow> bytes \<Rightarrow> bytes \<Rightarrow> bytes" where
  "Lmotd c ctype name password =
     (let msg = ''This is a locked channel. Name: '' @ name @ newline;
          msg = (if ctype = connTypeSlave then
                   msg @ ''No one will be able to control your computer'' @
                   (if ch_password c \<noteq> [] then
                      '' unless they authenticate'' @
                      (if password = ch_password c then '' (password accepted)'' else ''.'')
                    else ''.'')
                 else if ctype = connTypeMaster then
                   (let msg1 =
                      (if (ch_password c \<noteq> [] \<and> password \<noteq> ch_password c) \<or> ch_password c = []
                       then msg @ ''You won'' @ [CHR 0x27] @
                            ''t be able to control any computers connected to this channel.''
                       else msg)
                    in if ch_password c = password \<and> ch_password c \<noteq> []
                       then msg1 @ ''You are authorized to control any computer connected to this channel.''
                       else msg1)
                 else msg)
      in if \<not> ch_locked c then [] else msg)"

lemma Lmotd_empty_iff: "Lmotd c ctype name password = [] \<longleftrightarrow> \<not> ch_locked c"
  by (simp add: Lmotd_def Let_def)

section \<open>The heap\<close>

text \<open>
  The package-level maps of \<open>server/server.go\<close> (\<open>clients\<close>, \<open>channels\<close>), the
  counter \<open>lastID\<close>, the objects behind the pointers, and the two settings \<open>Add\<close>
  reads. A map that the code only ranges over is an association list.
\<close>

record world =
  lastID :: "32 word"
  clients :: "nat list"
  channels :: "(bytes \<times> nat) list"
  cl :: "nat \<Rightarrow> client option"
  ch :: "nat \<Rightarrow> channel option"
  next_cl :: nat
  next_ch :: nat
  motd :: bytes
  motdAlwaysDisplay :: bool

text \<open>
  The scheduler's answers inside one handler: which case a \<open>select\<close> takes when the queue
  of a client has room although the client is shutting down.
\<close>

type_synonym picks = "nat \<Rightarrow> bytes \<Rightarrow> bool"

definition upd_cl :: "nat \<Rightarrow> (client \<Rightarrow> client) \<Rightarrow> world \<Rightarrow> world" where
  "upd_cl x f w = w\<lparr>cl := heap_upd x f (cl w)\<rparr>"

definition set_members :: "nat \<Rightarrow> (int \<times> nat) list option \<Rightarrow> world \<Rightarrow> world" where
  "set_members r m w = w\<lparr>ch := heap_upd r (\<lambda>c. c\<lparr>ClientsAll := m\<rparr>) (ch w)\<rparr>"

definition client_Send :: "picks \<Rightarrow> nat \<Rightarrow> bytes \<Rightarrow> world \<Rightarrow> world" where
  "client_Send pk x b w = upd_cl x (Send (pk x b) b) w"

text \<open>\<open>for range\<close> over the members, sending to all but one.\<close>

definition send_each :: "picks \<Rightarrow> bytes \<Rightarrow> nat list \<Rightarrow> world \<Rightarrow> world" where
  "send_each pk msg xs w = fold (\<lambda>x. client_Send pk x msg) xs w"

definition targets :: "nat option \<Rightarrow> (int \<times> nat) list \<Rightarrow> nat list" where
  "targets excl m = filter (\<lambda>x. excl \<noteq> Some x) (map snd m)"

section \<open>Relaying\<close>

definition members :: "nat \<Rightarrow> world \<Rightarrow> (int \<times> nat) list" where
  "members r w =
     (case ch w r of None \<Rightarrow> []
      | Some c \<Rightarrow> (case ClientsAll c of None \<Rightarrow> [] | Some m \<Rightarrow> m))"

definition sendAllLocked :: "picks \<Rightarrow> nat \<Rightarrow> bytes \<Rightarrow> nat option \<Rightarrow> world \<Rightarrow> world" where
  "sendAllLocked pk r msg excl w =
     (if length (members r w) = 0 then w
      else send_each pk msg (targets excl (members r w)) w)"

definition SendAll :: "picks \<Rightarrow> nat \<Rightarrow> bytes \<Rightarrow> nat option \<Rightarrow> world \<Rightarrow> world" where
  "SendAll pk r msg excl w = sendAllLocked pk r msg excl w"

definition SendOthers :: "picks \<Rightarrow> nat \<Rightarrow> bytes \<Rightarrow> nat option \<Rightarrow> world \<Rightarrow> world" where
  "SendOthers pk r msg client w =
     (case client of None \<Rightarrow> w
      | Some x \<Rightarrow>
          if length (members r w) \<le> 1 then client_Send pk x not_connected_msg w
          else send_each pk msg (targets (Some x) (members r w)) w)"

definition mustEncode :: "data \<Rightarrow> bytes" where
  "mustEncode d = (case Encode d of None \<Rightarrow> [] | Some e \<Rightarrow> e)"

definition channel_sendJSON :: "picks \<Rightarrow> nat \<Rightarrow> nat option \<Rightarrow> data \<Rightarrow> world \<Rightarrow> world" where
  "channel_sendJSON pk r excl d w = sendAllLocked pk r (mustEncode d) excl w"

definition sendToClient :: "picks \<Rightarrow> nat \<Rightarrow> data \<Rightarrow> world \<Rightarrow> world" where
  "sendToClient pk x d w = (let enc = mustEncode d in if enc \<noteq> [] then client_Send pk x enc w else w)"

section \<open>Joining\<close>

definition member_data :: "world \<Rightarrow> int \<times> nat \<Rightarrow> client_data" where
  "member_data w p =
     \<lparr>cd_ID = fst p,
      cd_ConnectionType = (case cl w (snd p) of None \<Rightarrow> [] | Some c \<Rightarrow> connectionType c)\<rparr>"

definition client_joined_msg :: "bytes \<Rightarrow> int \<Rightarrow> bytes \<Rightarrow> data" where
  "client_joined_msg name i connection =
     zero_data\<lparr>Type := ''client_joined'', Channel := name, ID := i,
       Client := Some \<lparr>cd_ID = i, cd_ConnectionType = connection\<rparr>\<rparr>"

text \<open>The reply lists the other members; with two or more the lists are sorted by id.\<close>

definition channel_joined_msg :: "bytes \<Rightarrow> int \<Rightarrow> (int \<times> nat) list \<Rightarrow> world \<Rightarrow> data" where
  "channel_joined_msg name i m w =
     (let scdb = zero_data\<lparr>Type := ''channel_joined'', Channel := name, Origin := i\<rparr>;
          others = filter (\<lambda>p. fst p \<noteq> i) m;
          ids = map fst others; cds = map (member_data w) others
      in if length ids = 0 then scdb
         else if 1 < length ids then scdb\<lparr>UserIds := sort ids, Clients := sort_key cd_ID cds\<rparr>
         else scdb\<lparr>UserIds := ids, Clients := cds\<rparr>)"

definition motd_msg :: "world \<Rightarrow> bytes \<Rightarrow> data option" where
  "motd_msg w lmotd =
     (if motd w \<noteq> [] \<or> lmotd \<noteq> [] then
        (let mdb = zero_data\<lparr>Type := ''motd'', Motd := motd w, MotdAlwaysDisplay := motdAlwaysDisplay w\<rparr>
         in Some (if lmotd \<noteq> [] then
                    mdb\<lparr>Motd := (if Motd mdb = [] then lmotd else lmotd @ newline @ Motd mdb),
                        MotdAlwaysDisplay := True\<rparr>
                  else mdb))
      else None)"

definition grants :: "channel \<Rightarrow> bytes \<Rightarrow> bool" where
  "grants c password \<longleftrightarrow> (if ch_locked c then password = ch_password c \<and> ch_password c \<noteq> [] else True)"

text \<open>The messages \<open>Add\<close> sends once the client is in the member map.\<close>

definition announce :: "picks \<Rightarrow> nat \<Rightarrow> nat \<Rightarrow> bytes \<Rightarrow> int \<Rightarrow> bytes \<Rightarrow> bytes \<Rightarrow> world \<Rightarrow> world" where
  "announce pk r x name i connection lmotd w =
     (let w1 = channel_sendJSON pk r (Some x) (client_joined_msg name i connection) w;
          w2 = sendToClient pk x (channel_joined_msg name i (members r w1) w1) w1
      in case motd_msg w2 lmotd of None \<Rightarrow> w2 | Some mdb \<Rightarrow> sendToClient pk x mdb w2)"

text \<open>
  \<open>Add\<close>: the authorisation is settled before the check for a member of the same id, and
  storing into the nil map of a channel that has quit panics.
\<close>

definition Add :: "picks \<Rightarrow> nat \<Rightarrow> nat \<Rightarrow> bytes \<Rightarrow> world \<Rightarrow> world go" where
  "Add pk r x password w =
     (case (ch w r, cl w x) of
        (Some c, Some k) \<Rightarrow>
          (let w1 = upd_cl x (SetAuthorized False) w;
               i = cid k; connection = connectionType k;
               w2 = (if grants c password then upd_cl x (SetAuthorized True) w1 else w1);
               lmotd = Lmotd c connection (ch_name c) password
           in if map_of (members r w2) i \<noteq> None then Ok w2
              else case ClientsAll c of
                None \<Rightarrow> Panic NilMapWrite
              | Some m \<Rightarrow>
                  let w3 = upd_cl x (SetChannel r) (set_members r (Some ((i, x) # m)) w2)
                  in Ok (announce pk r x (ch_name c) i connection lmotd w3))
      | _ \<Rightarrow> Panic NilDereference)"

section \<open>Leaving\<close>

definition RemoveChannel :: "bytes \<Rightarrow> world \<Rightarrow> world" where
  "RemoveChannel name w =
     (if map_of (channels w) name = None then w
      else w\<lparr>channels := AList.delete name (channels w)\<rparr>)"

definition quitLocked :: "nat \<Rightarrow> world \<Rightarrow> world" where
  "quitLocked r w =
     (case ch w r of None \<Rightarrow> w
      | Some c \<Rightarrow>
          (case ClientsAll c of None \<Rightarrow> RemoveChannel (ch_name c) w
           | Some m \<Rightarrow>
               RemoveChannel (ch_name c)
                 (set_members r None (fold (\<lambda>p. upd_cl (snd p) ClearChannel) m w))))"

definition client_left_msg :: "int \<Rightarrow> bytes \<Rightarrow> data" where
  "client_left_msg i connection =
     zero_data\<lparr>Type := ''client_left'', ID := i, Origin := i,
       Client := Some \<lparr>cd_ID = i, cd_ConnectionType = connection\<rparr>\<rparr>"

definition Remove :: "picks \<Rightarrow> nat \<Rightarrow> nat \<Rightarrow> world \<Rightarrow> world go" where
  "Remove pk r x w =
     (case (ch w r, cl w x) of
        (Some c, Some k) \<Rightarrow>
          (let i = cid k; connection = connectionType k;
               w1 = set_members r (map_option (AList.delete i) (ClientsAll c)) w;
               w2 = upd_cl x ClearChannel w1;
               w3 = sendAllLocked pk r (mustEncode (client_left_msg i connection)) (Some x) w2
           in if length (members r w3) = 0 then Ok (quitLocked r w3) else Ok w3)
      | _ \<Rightarrow> Panic NilDereference)"

section \<open>Opening\<close>

text \<open>The address of the new channel, and the outcome of the first \<open>Add\<close>.\<close>

definition NewClientChannel ::
  "picks \<Rightarrow> bytes \<Rightarrow> bytes \<Rightarrow> bool \<Rightarrow> nat \<Rightarrow> world \<Rightarrow> nat \<times> world go" where
  "NewClientChannel pk name password locked x w =
     (let r = next_ch w;
          c = \<lparr>ch_name = name, ch_password = password, ch_locked = locked, ClientsAll = Some []\<rparr>;
          w1 = w\<lparr>ch := (ch w)(r \<mapsto> c), next_ch := Suc r\<rparr>
      in (r, Add pk r x password w1))"

section \<open>What sending does to the other clients\<close>

definition EndMessage :: char where "EndMessage = CHR 0x0A"

text \<open>A message that can be framed: not empty, without the terminator.\<close>

definition clean :: "bytes \<Rightarrow> bool" where
  "clean b \<longleftrightarrow> b \<noteq> [] \<and> EndMessage \<notin> set b"

text \<open>
  The effect of any number of sends on one client: its queue grows at the end by messages that
  satisfy \<open>P\<close>, drops may be counted, the context may be cancelled.
\<close>

definition after_sends :: "(bytes \<Rightarrow> bool) \<Rightarrow> client \<Rightarrow> client \<Rightarrow> bool" where
  "after_sends P c c' \<longleftrightarrow>
     sends_only c c' \<and> (client_inv c \<longrightarrow> client_inv c') \<and> (ctx_done c \<longrightarrow> ctx_done c') \<and>
     (\<exists>bs. sd c' = sd c @ bs \<and> list_all P bs)"

lemma after_sends_refl [simp]: "after_sends P c c"
  by (simp add: after_sends_def)

lemma after_sends_trans: "after_sends P a b \<Longrightarrow> after_sends P b c \<Longrightarrow> after_sends P a c"
  by (fastforce simp: after_sends_def intro: sends_only_trans)

lemma after_sends_Send: "(b \<noteq> [] \<Longrightarrow> P b) \<Longrightarrow> after_sends P c (Send pick b c)"
  using Send_queue [of pick b c]
  by (auto simp: after_sends_def sends_only_Send Send_done intro: client_inv_Send)

lemma after_sends_idle: "after_sends P c c' \<Longrightarrow> idle_flushed c \<Longrightarrow> idle_flushed c'"
  by (auto simp: after_sends_def idle_flushed_def dest: sends_only_fields(9))

interpretation sending: delivery "\<lambda>x. Send (pk x b) b" sends_only for pk b
  by unfold_locales (auto intro: sends_only_trans sends_only_Send)

interpretation clearing: delivery "\<lambda>x. ClearChannel" "\<lambda>c c'. \<exists>r. c' = c\<lparr>cchan := r\<rparr>"
proof unfold_locales
  show "\<exists>r. c = c\<lparr>cchan := r\<rparr>" for c :: client
    by (intro exI [of _ "cchan c"]) simp
  show "\<exists>r. ClearChannel c = c\<lparr>cchan := r\<rparr>" for c
    by (auto simp: ClearChannel_def)
qed auto

lemma send_each_world:
  "send_each pk msg xs w = w\<lparr>cl := fold (\<lambda>x. heap_upd x (Send (pk x msg) msg)) xs (cl w)\<rparr>"
  by (induction xs arbitrary: w) (simp_all add: send_each_def client_Send_def upd_cl_def)

lemma send_each_at:
  "distinct xs \<Longrightarrow> cl (send_each pk msg xs w) y =
     (if y \<in> set xs then map_option (Send (pk y msg) msg) (cl w y) else cl w y)"
  by (simp add: send_each_world sending.each_at)

lemma send_each_perm:
  "distinct xs \<Longrightarrow> distinct ys \<Longrightarrow> set xs = set ys \<Longrightarrow> send_each pk msg xs w = send_each pk msg ys w"
  by (simp add: send_each_world sending.each_perm [of xs ys])

text \<open>The same for the whole world: only queues grow.\<close>

definition only_sends :: "(bytes \<Rightarrow> bool) \<Rightarrow> world \<Rightarrow> world \<Rightarrow> bool" where
  "only_sends P w w' \<longleftrightarrow>
     w' = w\<lparr>cl := cl w'\<rparr> \<and> (\<forall>y. rel_option (after_sends P) (cl w y) (cl w' y))"

lemma only_sends_refl [simp]: "only_sends P w w"
  by (simp add: only_sends_def option.rel_refl)

lemma only_sends_trans [trans]:
  assumes "only_sends P a b" "only_sends P b c" shows "only_sends P a c"
  unfolding only_sends_def
proof
  from assms show "c = a\<lparr>cl := cl c\<rparr>" unfolding only_sends_def by (cases a; cases b; cases c) simp
  show "\<forall>y. rel_option (after_sends P) (cl a y) (cl c y)"
  proof
    fix y
    from assms have "rel_option (after_sends P) (cl a y) (cl b y)"
      "rel_option (after_sends P) (cl b y) (cl c y)" by (auto simp: only_sends_def)
    then show "rel_option (after_sends P) (cl a y) (cl c y)"
      by (cases "cl a y"; cases "cl b y"; cases "cl c y") (auto intro: after_sends_trans)
  qed
qed

lemma only_sends_frame:
  assumes "only_sends P w w'"
  shows "lastID w' = lastID w" "clients w' = clients w" "channels w' = channels w" "ch w' = ch w"
    "next_cl w' = next_cl w" "next_ch w' = next_ch w" "motd w' = motd w"
    "motdAlwaysDisplay w' = motdAlwaysDisplay w" "members r w' = members r w"
  using assms unfolding only_sends_def members_def by (cases w; cases w'; simp)+

lemma only_sends_at:
  assumes "only_sends P w w'"
  shows "cl w x = None \<Longrightarrow> cl w' x = None" "cl w x = Some k \<Longrightarrow> \<exists>k'. cl w' x = Some k' \<and> after_sends P k k'"
    "cl w' x = Some k' \<Longrightarrow> \<exists>k. cl w x = Some k \<and> after_sends P k k'"
proof -
  from assms have "rel_option (after_sends P) (cl w x) (cl w' x)" by (simp add: only_sends_def)
  then show "cl w x = None \<Longrightarrow> cl w' x = None"
    "cl w x = Some k \<Longrightarrow> \<exists>k'. cl w' x = Some k' \<and> after_sends P k k'"
    "cl w' x = Some k' \<Longrightarrow> \<exists>k. cl w x = Some k \<and> after_sends P k k'"
    by (auto simp: option_rel_Some1 option_rel_Some2)
qed

lemma only_sends_client_Send: "(b \<noteq> [] \<Longrightarrow> P b) \<Longrightarrow> only_sends P w (client_Send pk x b w)"
  by (auto simp: only_sends_def client_Send_def upd_cl_def heap_upd_at option.rel_map
      intro!: option.rel_refl after_sends_Send)

lemma only_sends_each: "(b \<noteq> [] \<Longrightarrow> P b) \<Longrightarrow> only_sends P w (send_each pk b xs w)"
proof (induction xs arbitrary: w)
  case Nil
  then show ?case by (simp add: send_each_def)
next
  case (Cons x xs)
  from Cons.IH [OF Cons.prems, of "client_Send pk x b w"]
    only_sends_client_Send [of b P w pk x] Cons.prems
  show ?case by (auto simp: send_each_def intro: only_sends_trans)
qed

lemma only_sends_AllLocked: "(msg \<noteq> [] \<Longrightarrow> P msg) \<Longrightarrow> only_sends P w (sendAllLocked pk r msg e w)"
  by (simp add: sendAllLocked_def only_sends_each)

lemma only_sends_SendOthers:
  "(msg \<noteq> [] \<Longrightarrow> P msg) \<Longrightarrow> P not_connected_msg \<Longrightarrow> only_sends P w (SendOthers pk r msg x w)"
  by (auto simp: SendOthers_def only_sends_each only_sends_client_Send split: option.split)

text \<open>Everything the server composes itself is clean.\<close>

lemma clean_mustEncode: "clean (mustEncode d)"
proof -
  obtain s where s: "Encode d = Some s" by (simp add: Encode_def)
  with Encode_printable [OF s, of EndMessage] Encode_nonempty [OF s] show ?thesis
    by (auto simp: clean_def mustEncode_def EndMessage_def)
qed

lemma clean_constants: "clean not_connected_msg" "clean ping_msg"
  by (simp_all add: clean_def not_connected_msg_def ping_msg_def EndMessage_def)

lemma only_sends_sendJSON: "only_sends clean w (channel_sendJSON pk r e d w)"
  by (simp add: channel_sendJSON_def only_sends_AllLocked clean_mustEncode)

lemma only_sends_sendToClient: "only_sends clean w (sendToClient pk x d w)"
  by (simp add: sendToClient_def Let_def only_sends_client_Send clean_mustEncode)

lemma only_sends_announce: "only_sends clean w (announce pk r x name i connection lmotd w)"
proof -
  note two = only_sends_trans [OF only_sends_sendJSON only_sends_sendToClient]
  note three = only_sends_trans [OF two only_sends_sendToClient]
  show ?thesis by (simp add: announce_def Let_def two three split: option.split)
qed

end
