(* ===== verification/Membership.thy ===== *)
theory Membership
  imports Channels
begin

text \<open>
  The invariant of the client and channel heap: a client's pointer to its channel and the
  channel's member map agree in both directions, every queue is within its bounds and holds
  only messages that can be framed, authorisation agrees with the kind of the channel, and
  the name table points at channels of that name. Every operation of
  \<open>server/clientChannel.go\<close> keeps it.
\<close>

section \<open>The invariant\<close>

text \<open>Everybody in an unlocked channel is authorised, nobody in a locked one without password.\<close>

definition auth_ok :: "channel \<Rightarrow> bool \<Rightarrow> bool" where
  "auth_ok c a \<longleftrightarrow> (\<not> ch_locked c \<longrightarrow> a) \<and> (ch_locked c \<and> ch_password c = [] \<longrightarrow> \<not> a)"

definition client_ok :: "world \<Rightarrow> nat \<Rightarrow> client \<Rightarrow> bool" where
  "client_ok w x k \<longleftrightarrow>
     client_inv k \<and> idle_flushed k \<and> messageTerminator k = EndMessage \<and>
     list_all (\<lambda>b. EndMessage \<notin> set b) (sd k) \<and> x < next_cl w \<and>
     (\<forall>r. cchan k = Some r \<longrightarrow> (cid k, x) \<in> set (members r w) \<and> x \<in> set (clients w))"

definition member_ok :: "world \<Rightarrow> nat \<Rightarrow> channel \<Rightarrow> int \<times> nat \<Rightarrow> bool" where
  "member_ok w r c p \<longleftrightarrow>
     (\<exists>k. cl w (snd p) = Some k \<and> cid k = fst p \<and> cchan k = Some r \<and> auth_ok c (auth k))"

definition channel_ok :: "world \<Rightarrow> nat \<Rightarrow> channel \<Rightarrow> bool" where
  "channel_ok w r c \<longleftrightarrow>
     (ch_password c \<noteq> [] \<longrightarrow> ch_locked c) \<and> ch_name c \<noteq> [] \<and> r < next_ch w \<and>
     distinct (map fst (members r w)) \<and> (\<forall>p \<in> set (members r w). member_ok w r c p)"

definition world_inv :: "world \<Rightarrow> bool" where
  "world_inv w \<longleftrightarrow>
     (\<forall>x k. cl w x = Some k \<longrightarrow> client_ok w x k) \<and>
     (\<forall>r c. ch w r = Some c \<longrightarrow> channel_ok w r c) \<and>
     distinct (map fst (channels w)) \<and>
     (\<forall>(n, r) \<in> set (channels w). \<exists>c. ch w r = Some c \<and> ch_name c = n) \<and>
     distinct (clients w) \<and> (\<forall>x \<in> set (clients w). cl w x \<noteq> None)"

text \<open>Between two operations no live channel is empty, and every named channel is live.\<close>

definition settled :: "world \<Rightarrow> bool" where
  "settled w \<longleftrightarrow>
     (\<forall>r c. ch w r = Some c \<longrightarrow> ClientsAll c \<noteq> Some []) \<and>
     (\<forall>(n, r) \<in> set (channels w). \<exists>c. ch w r = Some c \<and> ClientsAll c \<noteq> None)"

text \<open>Every live channel is the one its name leads to. Concurrent first joins break this.\<close>

definition registered :: "world \<Rightarrow> bool" where
  "registered w \<longleftrightarrow>
     (\<forall>r c. ch w r = Some c \<longrightarrow> ClientsAll c \<noteq> None \<longrightarrow> (ch_name c, r) \<in> set (channels w))"

lemma world_invD:
  assumes "world_inv w"
  shows "cl w x = Some k \<Longrightarrow> client_ok w x k"
    and "ch w r = Some c \<Longrightarrow> channel_ok w r c"
    and "distinct (map fst (channels w))"
    and "(n, r) \<in> set (channels w) \<Longrightarrow> \<exists>c. ch w r = Some c \<and> ch_name c = n"
    and "distinct (clients w)"
    and "x \<in> set (clients w) \<Longrightarrow> \<exists>k. cl w x = Some k"
  using assms by (auto simp: world_inv_def)

lemma members_ch: "p \<in> set (members r w) \<Longrightarrow> \<exists>c m. ch w r = Some c \<and> ClientsAll c = Some m \<and> p \<in> set m"
  by (cases "ch w r"; cases "ClientsAll (the (ch w r))") (auto simp: members_def)

lemma world_inv_member:
  assumes "world_inv w" "(i, x) \<in> set (members r w)"
  shows "\<exists>k c. cl w x = Some k \<and> cid k = i \<and> cchan k = Some r \<and> ch w r = Some c \<and> auth_ok c (auth k)"
proof -
  from members_ch [OF assms(2)] obtain c where "ch w r = Some c" by blast
  with world_invD(2) [OF assms(1) this] assms(2) show ?thesis
    by (fastforce simp: channel_ok_def member_ok_def)
qed

text \<open>A client occurs at most once in a channel.\<close>

lemma world_inv_distinct_addr:
  assumes "world_inv w" shows "distinct (map snd (members r w))"
proof -
  have "distinct (map fst (members r w))"
  proof (cases "ch w r")
    case (Some c)
    with world_invD(2) [OF assms Some] show ?thesis by (simp add: channel_ok_def)
  qed (simp add: members_def)
  moreover have "inj_on snd (set (members r w))"
  proof (rule inj_onI)
    fix p q assume "p \<in> set (members r w)" "q \<in> set (members r w)" "snd p = snd q"
    with world_inv_member [OF assms, of "fst p" "snd p" r] world_inv_member [OF assms, of "fst q" "snd q" r]
    show "p = q" by (cases p; cases q) auto
  qed
  ultimately show ?thesis by (simp add: distinct_map)
qed

lemma distinct_targets: "world_inv w \<Longrightarrow> distinct (targets e (members r w))"
  by (simp add: targets_def world_inv_distinct_addr)

section \<open>The elementary changes\<close>

lemma client_ok_after:
  assumes "after_sends clean k k'" "client_ok w x k"
    and "\<And>r. members r w' = members r w" "next_cl w' = next_cl w" "clients w' = clients w"
  shows "client_ok w' x k'"
proof -
  from assms(1) have s: "sends_only k k'" by (simp add: after_sends_def)
  from assms(1) obtain bs where "sd k' = sd k @ bs" "list_all clean bs" by (auto simp: after_sends_def)
  then have "list_all (\<lambda>b. EndMessage \<notin> set b) (sd k) \<Longrightarrow> list_all (\<lambda>b. EndMessage \<notin> set b) (sd k')"
    by (auto simp: list_all_iff clean_def)
  with assms after_sends_idle [OF assms(1)] sends_only_fields [OF s] show ?thesis
    by (auto simp: client_ok_def after_sends_def)
qed

lemma world_inv_only_sends:
  assumes s: "only_sends clean w w'" and inv: "world_inv w"
  shows "world_inv w'"
proof -
  note f = only_sends_frame [OF s] and a = only_sends_at [OF s] and I = world_invD [OF inv]
  have "client_ok w' x k'" if "cl w' x = Some k'" for x k'
  proof -
    from a(3) [OF that] obtain k where k: "cl w x = Some k" "after_sends clean k k'" by blast
    from client_ok_after [OF k(2) I(1) [OF k(1)] f(9) f(5) f(2)] show ?thesis .
  qed
  moreover have "channel_ok w' r c" if "ch w' r = Some c" for r c
  proof -
    have "member_ok w' r c p" if "member_ok w r c p" for p
    proof -
      from that obtain k where k: "cl w (snd p) = Some k" "cid k = fst p" "cchan k = Some r" "auth_ok c (auth k)"
        by (auto simp: member_ok_def)
      with a(2) [OF k(1)] obtain k' where "cl w' (snd p) = Some k'" "sends_only k k'"
        by (auto simp: after_sends_def)
      with k sends_only_fields [OF this(2)] show ?thesis by (simp add: member_ok_def)
    qed
    with I(2) [of r c] that f show ?thesis by (simp add: channel_ok_def)
  qed
  moreover have "cl w' x \<noteq> None" if "x \<in> set (clients w')" for x
    using that f I(6) [of x] a(2) [of x] by auto
  ultimately show ?thesis using inv f by (auto simp: world_inv_def)
qed

lemma settled_only_sends: "only_sends P w w' \<Longrightarrow> settled w' = settled w"
  by (simp add: settled_def only_sends_frame)

lemma registered_only_sends: "only_sends P w w' \<Longrightarrow> registered w' = registered w"
  by (simp add: registered_def only_sends_frame)

text \<open>Updates of fields the invariant does not mention, for a client in no channel.\<close>

definition minor_update :: "(client \<Rightarrow> client) \<Rightarrow> bool" where
  "minor_update f \<longleftrightarrow> (\<forall>k. \<exists>a t v. f k = k\<lparr>connectionType := t, version := v, auth := a\<rparr>)"

lemma minor_updates:
  "minor_update (SetAuthorized b)" "minor_update (SetConnectionType t)" "minor_update (SetVersion v)"
proof -
  have "SetAuthorized b k = k\<lparr>connectionType := connectionType k, version := version k, auth := b\<rparr>"
    "SetConnectionType t k = k\<lparr>connectionType := t, version := version k, auth := auth k\<rparr>"
    "SetVersion v k = k\<lparr>connectionType := connectionType k, version := v, auth := auth k\<rparr>" for k
    by (cases k; simp add: setter_defs)+
  then show "minor_update (SetAuthorized b)" "minor_update (SetConnectionType t)" "minor_update (SetVersion v)"
    unfolding minor_update_def by blast+
qed

lemma upd_cl_simps [simp]:
  "lastID (upd_cl x f w) = lastID w" "clients (upd_cl x f w) = clients w"
  "channels (upd_cl x f w) = channels w" "ch (upd_cl x f w) = ch w"
  "next_cl (upd_cl x f w) = next_cl w" "next_ch (upd_cl x f w) = next_ch w"
  "motd (upd_cl x f w) = motd w" "motdAlwaysDisplay (upd_cl x f w) = motdAlwaysDisplay w"
  "members r (upd_cl x f w) = members r w"
  "cl (upd_cl x f w) y = (if y = x then map_option f (cl w x) else cl w y)"
  by (simp_all add: upd_cl_def heap_upd_at members_def)

text \<open>An update of one client that keeps its number and its channel.\<close>

lemma world_inv_upd:
  assumes inv: "world_inv w" and k: "cl w x = Some k"
    and f: "cid (f k) = cid k" "cchan (f k) = cchan k" "auth (f k) = auth k \<or> cchan k = None"
    and ok: "client_ok w x (f k)"
  shows "world_inv (upd_cl x f w)"
proof -
  note I = world_invD [OF inv]
  have frame: "client_ok (upd_cl x f w) y j = client_ok w y j" for y j
    by (simp add: client_ok_def)
  have "client_ok (upd_cl x f w) y j" if "cl (upd_cl x f w) y = Some j" for y j
    using that I(1) [of y j] ok k unfolding frame by (auto split: if_splits)
  moreover have "channel_ok (upd_cl x f w) r c" if "ch w r = Some c" for r c
  proof -
    have "member_ok (upd_cl x f w) r c p" if "member_ok w r c p" for p
      using that k f by (auto simp: member_ok_def)
    with I(2) [OF that] show ?thesis by (simp add: channel_ok_def)
  qed
  ultimately show ?thesis using inv k unfolding world_inv_def by simp
qed

lemma world_inv_minor:
  assumes inv: "world_inv w" and f: "minor_update f" and k: "cl w x = Some k" "cchan k = None"
  shows "world_inv (upd_cl x f w)"
proof -
  from f obtain a t v where fk: "f k = k\<lparr>connectionType := t, version := v, auth := a\<rparr>"
    unfolding minor_update_def by blast
  have "client_ok w x (f k)"
    using world_invD(1) [OF inv k(1)] unfolding fk by (simp add: client_ok_def client_inv_def idle_flushed_def)
  with k fk show ?thesis by (intro world_inv_upd [OF inv k(1)]) simp_all
qed

lemma only_sends_Close: "only_sends P w (upd_cl x Close w)"
  by (cases "cl w x")
     (auto simp: only_sends_def upd_cl_def heap_upd_def after_sends_def sends_only_def Close_def client_inv_def
        option.rel_refl intro!: option.rel_refl)

lemma settled_upd_cl [simp]: "settled (upd_cl x f w) = settled w"
  and registered_upd_cl [simp]: "registered (upd_cl x f w) = registered w"
  by (simp_all add: settled_def registered_def)

lemma set_members_simps [simp]:
  "lastID (set_members r m w) = lastID w" "clients (set_members r m w) = clients w"
  "channels (set_members r m w) = channels w" "cl (set_members r m w) = cl w"
  "next_cl (set_members r m w) = next_cl w" "next_ch (set_members r m w) = next_ch w"
  "motd (set_members r m w) = motd w" "motdAlwaysDisplay (set_members r m w) = motdAlwaysDisplay w"
  "ch (set_members r m w) q =
     (if q = r then map_option (\<lambda>c. c\<lparr>ClientsAll := m\<rparr>) (ch w r) else ch w q)"
  by (simp_all add: set_members_def heap_upd_at)

lemma members_set_members:
  "members q (set_members r m w) =
     (if q = r \<and> ch w r \<noteq> None then (case m of None \<Rightarrow> [] | Some l \<Rightarrow> l) else members q w)"
  by (auto simp: members_def)

text \<open>Storing a client in the member map, with the pointer back.\<close>

definition enter :: "nat \<Rightarrow> int \<Rightarrow> nat \<Rightarrow> (int \<times> nat) list \<Rightarrow> world \<Rightarrow> world" where
  "enter r i x m w = upd_cl x (SetChannel r) (set_members r (Some ((i, x) # m)) w)"

lemma world_inv_enter:
  assumes inv: "world_inv w" and k: "cl w x = Some k" "cchan k = None" "x \<in> set (clients w)"
    and c: "ch w r = Some c" "ClientsAll c = Some m" and new: "map_of m (cid k) = None"
    and a: "auth_ok c (auth k)"
  shows "world_inv (enter r (cid k) x m w)" (is "world_inv ?w")
proof -
  note I = world_invD [OF inv]
  have mem: "members q ?w = (if q = r then (cid k, x) # m else members q w)" for q
    using c by (simp add: enter_def members_set_members)
  have mr: "members r w = m" using c by (simp add: members_def)
  have "client_ok ?w y j" if "cl ?w y = Some j" for y j
  proof (cases "y = x")
    case True
    with that k have "j = SetChannel r k" by (simp add: enter_def)
    with I(1) [OF k(1)] k mem True show ?thesis
      by (auto simp: client_ok_def SetChannel_def client_inv_def idle_flushed_def enter_def)
  next
    case False
    with that have j: "cl w y = Some j" by (simp add: enter_def)
    from I(1) [OF j] mem mr show ?thesis by (auto simp: client_ok_def enter_def)
  qed
  moreover have "channel_ok ?w q d" if d: "ch ?w q = Some d" for q d
  proof -
    from d c obtain d0 where d0: "ch w q = Some d0" "ch_password d = ch_password d0"
      "ch_locked d = ch_locked d0" "ch_name d = ch_name d0"
      by (auto simp: enter_def split: if_splits)
    have old: "member_ok ?w q d p" if "member_ok w q d0 p" for p
      using that k d0 by (auto simp: member_ok_def enter_def auth_ok_def)
    have "member_ok ?w r d (cid k, x)" if "q = r"
      using k a d0 c that by (auto simp: member_ok_def enter_def auth_ok_def SetChannel_def)
    with old I(2) [OF d0(1)] d0 mem mr new show ?thesis
      by (auto simp: channel_ok_def map_of_eq_None_iff enter_def)
  qed
  moreover have "\<exists>d. ch ?w q = Some d \<and> ch_name d = n" if "(n, q) \<in> set (channels ?w)" for n q
    using that I(4) [of n q] by (auto simp: enter_def)
  ultimately show ?thesis
    using inv k unfolding world_inv_def by (auto simp: enter_def)
qed

text \<open>Taking a client out of the member map, with the pointer back.\<close>

definition leave :: "nat \<Rightarrow> int \<Rightarrow> nat \<Rightarrow> world \<Rightarrow> world" where
  "leave r i x w =
     upd_cl x ClearChannel
       (set_members r (case ch w r of None \<Rightarrow> None | Some c \<Rightarrow> map_option (AList.delete i) (ClientsAll c)) w)"

lemma members_leave: "members q (leave r i x w) = (if q = r then AList.delete i (members q w) else members q w)"
  by (auto simp: leave_def members_set_members members_def split: option.splits)

lemma world_inv_leave:
  assumes inv: "world_inv w" and k: "cl w x = Some k" "cchan k = Some r"
  shows "world_inv (leave r (cid k) x w)" (is "world_inv ?w")
proof -
  note I = world_invD [OF inv]
  from I(1) [OF k(1)] k have x: "(cid k, x) \<in> set (members r w)" by (simp add: client_ok_def)
  have other: "i \<noteq> cid k" if "(i, y) \<in> set (members r w)" "y \<noteq> x" for i y
  proof
    assume "i = cid k"
    with that x world_inv_distinct_addr [OF inv, of r] members_ch [OF x] I(2) [of r]
    show False by (auto simp: channel_ok_def dest!: eq_key_imp_eq_value)
  qed
  have "client_ok ?w y j" if "cl ?w y = Some j" for y j
  proof (cases "y = x")
    case True
    with that k have "j = ClearChannel k" by (simp add: leave_def)
    with I(1) [OF k(1)] True show ?thesis
      by (auto simp: client_ok_def ClearChannel_def client_inv_def idle_flushed_def leave_def)
  next
    case False
    with that have j: "cl w y = Some j" by (simp add: leave_def)
    from I(1) [OF j] False other [of _ y] show ?thesis
      by (auto simp: client_ok_def members_leave set_AList_delete) (simp_all add: leave_def)
  qed
  moreover have "channel_ok ?w q d" if d: "ch ?w q = Some d" for q d
  proof -
    from d obtain d0 where d0: "ch w q = Some d0" "ch_password d = ch_password d0"
      "ch_locked d = ch_locked d0" "ch_name d = ch_name d0"
      by (auto simp: leave_def split: if_splits)
    have "member_ok ?w q d p" if p: "p \<in> set (members q ?w)" for p
    proof -
      from p have p0: "p \<in> set (members q w)" by (auto simp: members_leave set_AList_delete split: if_splits)
      with I(2) [OF d0(1)] have ok: "member_ok w q d0 p" by (simp add: channel_ok_def)
      then have "snd p \<noteq> x" using p k by (auto simp: member_ok_def members_leave set_AList_delete)
      with ok d0 show ?thesis by (auto simp: member_ok_def leave_def auth_ok_def)
    qed
    with I(2) [OF d0(1)] d0 show ?thesis
      by (auto simp: channel_ok_def members_leave distinct_AList_delete) (simp_all add: leave_def)
  qed
  moreover have "\<exists>d. ch ?w q = Some d \<and> ch_name d = n" if "(n, q) \<in> set (channels ?w)" for n q
    using that I(4) [of n q] by (auto simp: leave_def)
  ultimately show ?thesis using inv k unfolding world_inv_def by (auto simp: leave_def)
qed

lemma world_inv_RemoveChannel: "world_inv w \<Longrightarrow> world_inv (RemoveChannel n w)"
proof -
  assume inv: "world_inv w"
  have "client_ok (w\<lparr>channels := t\<rparr>) = client_ok w" "channel_ok (w\<lparr>channels := t\<rparr>) = channel_ok w" for t
    by (intro ext, simp add: client_ok_def channel_ok_def member_ok_def members_def)+
  with inv show ?thesis
    by (auto simp: RemoveChannel_def world_inv_def set_AList_delete distinct_AList_delete)
qed

lemma RemoveChannel_simps [simp]:
  "cl (RemoveChannel n w) = cl w" "ch (RemoveChannel n w) = ch w" "clients (RemoveChannel n w) = clients w"
  "lastID (RemoveChannel n w) = lastID w" "next_cl (RemoveChannel n w) = next_cl w"
  "next_ch (RemoveChannel n w) = next_ch w" "members r (RemoveChannel n w) = members r w"
  "motd (RemoveChannel n w) = motd w" "motdAlwaysDisplay (RemoveChannel n w) = motdAlwaysDisplay w"
  "channels (RemoveChannel n w) = AList.delete n (channels w)"
  by (auto simp: RemoveChannel_def members_def AList.delete_eq map_of_eq_None_iff
      intro!: filter_True [symmetric]) force

lemma world_inv_close_empty:
  assumes inv: "world_inv w" and e: "members r w = []"
  shows "world_inv (set_members r None w)"
proof -
  note I = world_invD [OF inv]
  have mem: "members q (set_members r None w) = members q w" for q
    using e by (auto simp: members_set_members)
  have "client_ok (set_members r None w) = client_ok w"
    by (intro ext) (simp add: client_ok_def mem)
  moreover have "channel_ok (set_members r None w) q d" if d: "ch (set_members r None w) q = Some d" for q d
  proof -
    from d obtain d0 where d0: "ch w q = Some d0" "ch_password d = ch_password d0"
      "ch_locked d = ch_locked d0" "ch_name d = ch_name d0"
      by (auto split: if_splits)
    with I(2) [OF d0(1)] show ?thesis
      by (simp add: channel_ok_def mem member_ok_def auth_ok_def)
  qed
  moreover have "\<exists>d. ch (set_members r None w) q = Some d \<and> ch_name d = n" if "(n, q) \<in> set (channels w)" for n q
    using I(4) [OF that] by auto
  ultimately show ?thesis using inv unfolding world_inv_def by auto
qed

text \<open>Closing an emptied channel: what \<open>quitLocked\<close> does where it is called.\<close>

lemma quitLocked_empty:
  assumes "ch w r = Some c" "members r w = []"
  shows "quitLocked r w = RemoveChannel (ch_name c) (set_members r None w)"
proof (cases "ClientsAll c")
  case None
  then have "c\<lparr>ClientsAll := None\<rparr> = c" by (cases c) simp
  with assms None have "set_members r None w = w"
    by (cases w) (auto simp: set_members_def heap_upd_def)
  with assms None show ?thesis by (simp add: quitLocked_def)
next
  case (Some m)
  with assms show ?thesis by (simp add: quitLocked_def members_def)
qed

text \<open>A new channel, before its first member is stored.\<close>

definition fresh_channel :: "bytes \<Rightarrow> bytes \<Rightarrow> bool \<Rightarrow> channel" where
  "fresh_channel name password locked =
     \<lparr>ch_name = name, ch_password = password, ch_locked = locked, ClientsAll = Some []\<rparr>"

definition new_channel :: "channel \<Rightarrow> world \<Rightarrow> world" where
  "new_channel c w = w\<lparr>ch := (ch w)(next_ch w \<mapsto> c), next_ch := Suc (next_ch w)\<rparr>"

lemma new_channel_simps [simp]:
  "cl (new_channel c w) = cl w" "clients (new_channel c w) = clients w"
  "channels (new_channel c w) = channels w" "lastID (new_channel c w) = lastID w"
  "next_cl (new_channel c w) = next_cl w" "next_ch (new_channel c w) = Suc (next_ch w)"
  "motd (new_channel c w) = motd w" "motdAlwaysDisplay (new_channel c w) = motdAlwaysDisplay w"
  "ch (new_channel c w) q = (if q = next_ch w then Some c else ch w q)"
  by (simp_all add: new_channel_def)

lemma fresh_address: "world_inv w \<Longrightarrow> next_ch w \<le> r \<Longrightarrow> ch w r = None"
  using world_invD(2) [of w r] by (cases "ch w r") (fastforce simp: channel_ok_def)+

lemma world_inv_new_channel:
  assumes inv: "world_inv w" and p: "password \<noteq> [] \<Longrightarrow> locked" and n: "name \<noteq> []"
  shows "world_inv (new_channel (fresh_channel name password locked) w)" (is "world_inv ?w")
proof -
  note I = world_invD [OF inv]
  have fr: "ch w (next_ch w) = None" using fresh_address [OF inv] by simp
  have mem: "members q ?w = members q w" for q
    using fr by (simp add: members_def fresh_channel_def)
  have "client_ok ?w = client_ok w" by (intro ext) (simp add: client_ok_def mem)
  moreover have "channel_ok ?w q d" if d: "ch ?w q = Some d" for q d
  proof (cases "q = next_ch w")
    case True
    have e: "members (next_ch w) w = []" using fr by (simp add: members_def)
    from True d have d': "d = fresh_channel name password locked" by simp
    from p n True e show ?thesis unfolding d' by (simp add: channel_ok_def mem) (simp add: fresh_channel_def)
  next
    case False
    with d have "ch w q = Some d" by simp
    from I(2) [OF this] show ?thesis by (auto simp: channel_ok_def mem member_ok_def)
  qed
  moreover have "\<exists>d. ch ?w q = Some d \<and> ch_name d = n" if "(n, q) \<in> set (channels w)" for n q
    using I(4) [OF that] fr by auto
  moreover have "(n, next_ch w) \<notin> set (channels w)" for n
    using I(4) [of n "next_ch w"] fr by auto
  ultimately show ?thesis using inv unfolding world_inv_def by auto
qed

section \<open>Joining\<close>

lemma upd_cl_upd_cl: "upd_cl x f (upd_cl x g w) = upd_cl x (f \<circ> g) w"
  by (auto simp: upd_cl_def heap_upd_def option.map_comp)

text \<open>\<open>Add\<close> in one piece.\<close>

lemma Add_unfold:
  assumes "ch w r = Some c" "cl w x = Some k"
  shows "Add pk r x password w =
     (let w2 = upd_cl x (SetAuthorized (grants c password)) w
      in if map_of (members r w) (cid k) \<noteq> None then Ok w2
         else case ClientsAll c of
           None \<Rightarrow> Panic NilMapWrite
         | Some m \<Rightarrow>
             Ok (announce pk r x (ch_name c) (cid k) (connectionType k)
                   (Lmotd c (connectionType k) (ch_name c) password) (enter r (cid k) x m w2)))"
proof -
  have "SetAuthorized True \<circ> SetAuthorized False = SetAuthorized True"
    by (intro ext) (simp add: SetAuthorized_def)
  with assms show ?thesis
    by (cases "map_of (members r w) (cid k)"; cases "grants c password"; cases "ClientsAll c")
       (simp_all add: Add_def Let_def upd_cl_upd_cl enter_def)
qed

lemma grants_auth_ok: "(ch_password c \<noteq> [] \<Longrightarrow> ch_locked c) \<Longrightarrow> auth_ok c (grants c password)"
  by (auto simp: auth_ok_def grants_def)

lemma Add_no_Goexit: "Add pk r x password w \<noteq> Goexit w'" "Add pk r x password w \<noteq> Hang"
  by (auto simp: Add_def Let_def split: option.split)

lemma world_inv_Add:
  assumes inv: "world_inv w" and k: "cl w x = Some k" "cchan k = None" "x \<in> set (clients w)"
    and ok: "Add pk r x password w = Ok w'"
  shows "world_inv w'"
proof -
  from ok k obtain c where c: "ch w r = Some c" by (cases "ch w r") (auto simp: Add_def)
  let ?a = "SetAuthorized (grants c password)"
  let ?w2 = "upd_cl x ?a w"
  have w2: "world_inv ?w2" using world_inv_minor [OF inv minor_updates(1) k(1,2)] .
  have a: "auth_ok c (grants c password)"
    using world_invD(2) [OF inv c] by (intro grants_auth_ok) (simp add: channel_ok_def)
  show ?thesis
  proof (cases "map_of (members r w) (cid k) = None")
    case False
    with ok w2 show ?thesis by (simp add: Add_unfold [OF c k(1)] Let_def)
  next
    case True
    with ok obtain m where m: "ClientsAll c = Some m" and w':
      "w' = announce pk r x (ch_name c) (cid k) (connectionType k)
        (Lmotd c (connectionType k) (ch_name c) password) (enter r (cid k) x m ?w2)"
      by (auto simp: Add_unfold [OF c k(1)] Let_def split: option.splits)
    have "world_inv (enter r (cid (?a k)) x m ?w2)"
      by (rule world_inv_enter [OF w2]) (use k c m True a in \<open>auto simp: SetAuthorized_def members_def\<close>)
    then show ?thesis
      unfolding w' by (intro world_inv_only_sends [OF only_sends_announce]) (simp add: SetAuthorized_def)
  qed
qed

lemma enter_simps [simp]:
  "channels (enter r i x m w) = channels w" "clients (enter r i x m w) = clients w"
  "ch (enter r i x m w) q =
     (if q = r then map_option (\<lambda>c. c\<lparr>ClientsAll := Some ((i, x) # m)\<rparr>) (ch w r) else ch w q)"
  "next_ch (enter r i x m w) = next_ch w" "next_cl (enter r i x m w) = next_cl w"
  "lastID (enter r i x m w) = lastID w"
  by (simp_all add: enter_def)

text \<open>
  What \<open>Add\<close> does to the tables, whatever it sends: a live channel may gain a member.
\<close>

definition grows :: "channel \<Rightarrow> channel \<Rightarrow> bool" where
  "grows c c' \<longleftrightarrow> c' = c \<or> (ClientsAll c \<noteq> None \<and> (\<exists>p m. c' = c\<lparr>ClientsAll := Some (p # m)\<rparr>))"

lemma grows_refl [simp]: "grows c c"
  by (simp add: grows_def)

lemma growsD:
  assumes "grows c c'"
  shows "ch_name c' = ch_name c" "ch_locked c' = ch_locked c" "ch_password c' = ch_password c"
    "ClientsAll c' = None \<longleftrightarrow> ClientsAll c = None" "ClientsAll c' = Some [] \<Longrightarrow> ClientsAll c = Some []"
  using assms by (auto simp: grows_def)

lemma Add_tables:
  assumes "Add pk r x password w = Ok w'"
  shows "channels w' = channels w" "clients w' = clients w" "next_ch w' = next_ch w"
    "next_cl w' = next_cl w" "lastID w' = lastID w" "rel_option grows (ch w q) (ch w' q)"
proof -
  from assms obtain c k where c: "ch w r = Some c" "cl w x = Some k"
    by (auto simp: Add_def split: option.splits)
  let ?w2 = "upd_cl x (SetAuthorized (grants c password)) w"
  consider "w' = ?w2" | m where "ClientsAll c = Some m"
    "only_sends clean (enter r (cid k) x m ?w2) w'"
    using assms only_sends_announce
    by (auto simp: Add_unfold [OF c] Let_def split: if_splits option.splits)
  note cases = this
  from cases show "channels w' = channels w" "clients w' = clients w" "next_ch w' = next_ch w"
    "next_cl w' = next_cl w" "lastID w' = lastID w"
    by (cases; simp add: only_sends_frame)+
  have refl: "rel_option grows h h" for h by (cases h) auto
  from cases show "rel_option grows (ch w q) (ch w' q)"
  proof cases
    case 1
    then show ?thesis by (simp add: refl)
  next
    case (2 m)
    with c have "grows c (c\<lparr>ClientsAll := Some ((cid k, x) # m)\<rparr>)" by (auto simp: grows_def)
    with 2 c show ?thesis by (auto simp: only_sends_frame refl)
  qed
qed

lemma Add_other:
  assumes "Add pk r x password w = Ok w'" "q \<noteq> r" shows "ch w' q = ch w q"
proof -
  from assms(1) obtain c k where c: "ch w r = Some c" "cl w x = Some k"
    by (auto simp: Add_def split: option.splits)
  from assms show ?thesis
    by (auto simp: Add_unfold [OF c] Let_def only_sends_frame(4) [OF only_sends_announce]
        split: if_splits option.splits)
qed

lemma settled_grows:
  assumes "\<And>q. rel_option grows (ch w q) (ch w' q)" "channels w' = channels w" "settled w"
  shows "settled w'"
proof -
  have "ClientsAll c' \<noteq> Some []" if c': "ch w' q = Some c'" for q c'
    using assms(1) [of q] c' assms(3) growsD(5) by (fastforce simp: settled_def option_rel_Some2)
  moreover have "\<exists>c. ch w' q = Some c \<and> ClientsAll c \<noteq> None" if n: "(n, q) \<in> set (channels w)" for n q
  proof -
    from n assms(3) obtain c where "ch w q = Some c" "ClientsAll c \<noteq> None" by (auto simp: settled_def)
    moreover from this assms(1) [of q] obtain c' where "ch w' q = Some c'" "grows c c'"
      by (auto simp: option_rel_Some1)
    ultimately show ?thesis using growsD(4) [of c c'] by (cases "ClientsAll c'") simp_all
  qed
  ultimately show ?thesis using assms(2) by (auto simp: settled_def)
qed

lemma registered_grows:
  assumes "\<And>q. rel_option grows (ch w q) (ch w' q)" "channels w' = channels w" "registered w"
  shows "registered w'"
  unfolding registered_def
proof (intro allI impI)
  fix q c' assume "ch w' q = Some c'" "ClientsAll c' \<noteq> None"
  moreover from this assms(1) [of q] obtain c where c: "ch w q = Some c" "grows c c'"
    by (auto simp: option_rel_Some2)
  ultimately have "ClientsAll c \<noteq> None" "ch_name c' = ch_name c"
    using growsD(1,4) [OF c(2)] by simp_all
  with c assms(2,3) show "(ch_name c', q) \<in> set (channels w')" by (auto simp: registered_def)
qed

lemma settled_Add: "Add pk r x password w = Ok w' \<Longrightarrow> settled w \<Longrightarrow> settled w'"
  using settled_grows Add_tables(1,6) by metis

lemma registered_Add: "Add pk r x password w = Ok w' \<Longrightarrow> registered w \<Longrightarrow> registered w'"
  using registered_grows Add_tables(1,6) by metis

section \<open>Leaving\<close>

text \<open>\<open>Remove\<close> in one piece.\<close>

lemma Remove_unfold:
  assumes "ch w r = Some c" "cl w x = Some k"
  shows "Remove pk r x w =
     (let w3 = sendAllLocked pk r (mustEncode (client_left_msg (cid k) (connectionType k))) (Some x)
                 (leave r (cid k) x w)
      in Ok (if members r w3 = [] then quitLocked r w3 else w3))"
  using assms by (simp add: Remove_def leave_def Let_def)

lemma Remove_no_panic:
  "ch w r = Some c \<Longrightarrow> cl w x = Some k \<Longrightarrow> \<exists>w'. Remove pk r x w = Ok w'"
  by (simp add: Remove_unfold Let_def)

text \<open>
  After the member is out and the others are told, the channel is closed if it is empty.
\<close>

lemma Remove_cases:
  assumes "ch w r = Some c" "cl w x = Some k" and ok: "Remove pk r x w = Ok w'"
  obtains w3 where "only_sends clean (leave r (cid k) x w) w3"
    "members r w3 \<noteq> [] \<and> w' = w3 \<or> members r w3 = [] \<and> w' = RemoveChannel (ch_name c) (set_members r None w3)"
proof -
  let ?w1 = "leave r (cid k) x w"
  let ?w3 = "sendAllLocked pk r (mustEncode (client_left_msg (cid k) (connectionType k))) (Some x) ?w1"
  have s: "only_sends clean ?w1 ?w3" by (simp add: only_sends_AllLocked clean_mustEncode)
  from assms(1) obtain d where "ch ?w1 r = Some d" "ch_name d = ch_name c" by (auto simp: leave_def)
  then have "members r ?w3 = [] \<Longrightarrow> quitLocked r ?w3 = RemoveChannel (ch_name c) (set_members r None ?w3)"
    using quitLocked_empty [of ?w3 r d] only_sends_frame [OF s] by simp
  with s that [of ?w3] ok show ?thesis
    by (auto simp: Remove_unfold [OF assms(1,2)] Let_def split: if_splits)
qed

lemma world_inv_Remove:
  assumes inv: "world_inv w" and k: "cl w x = Some k" "cchan k = Some r"
    and ok: "Remove pk r x w = Ok w'"
  shows "world_inv w'"
proof -
  from ok k obtain c where c: "ch w r = Some c" by (cases "ch w r") (auto simp: Remove_def)
  from Remove_cases [OF c k(1) ok] obtain w3 where w3: "only_sends clean (leave r (cid k) x w) w3"
    "members r w3 \<noteq> [] \<and> w' = w3 \<or> members r w3 = [] \<and> w' = RemoveChannel (ch_name c) (set_members r None w3)" .
  from world_inv_only_sends [OF w3(1) world_inv_leave [OF inv k]] have "world_inv w3" .
  with w3(2) show ?thesis by (auto intro: world_inv_RemoveChannel world_inv_close_empty)
qed

lemma leave_simps [simp]:
  "channels (leave r i x w) = channels w" "clients (leave r i x w) = clients w"
  "next_ch (leave r i x w) = next_ch w" "next_cl (leave r i x w) = next_cl w"
  "lastID (leave r i x w) = lastID w"
  by (simp_all add: leave_def)

text \<open>The tables after \<open>Remove\<close>: the channel has lost a member, or is closed and unnamed.\<close>

lemma Remove_tables:
  assumes c: "ch w r = Some c" "cl w x = Some k" and ok: "Remove pk r x w = Ok w'"
  shows "q \<noteq> r \<Longrightarrow> ch w' q = ch w q" and "clients w' = clients w"
    "next_ch w' = next_ch w" "next_cl w' = next_cl w" "lastID w' = lastID w"
    and "(\<exists>m. ClientsAll c = Some m \<and> AList.delete (cid k) m \<noteq> [] \<and> channels w' = channels w \<and>
             ch w' r = Some (c\<lparr>ClientsAll := Some (AList.delete (cid k) m)\<rparr>)) \<or>
         ((\<forall>m. ClientsAll c = Some m \<longrightarrow> AList.delete (cid k) m = []) \<and>
          ch w' r = Some (c\<lparr>ClientsAll := None\<rparr>) \<and> channels w' = AList.delete (ch_name c) (channels w))"
proof -
  from Remove_cases [OF c ok] obtain w3 where w3: "only_sends clean (leave r (cid k) x w) w3"
    "members r w3 \<noteq> [] \<and> w' = w3 \<or> members r w3 = [] \<and> w' = RemoveChannel (ch_name c) (set_members r None w3)" .
  note f = only_sends_frame [OF w3(1)]
  from w3(2) f show "q \<noteq> r \<Longrightarrow> ch w' q = ch w q" "clients w' = clients w"
    "next_ch w' = next_ch w" "next_cl w' = next_cl w" "lastID w' = lastID w"
    by (auto simp: leave_def)
  have "members r w3 = (case ClientsAll c of None \<Rightarrow> [] | Some m \<Rightarrow> AList.delete (cid k) m)"
    "ch w3 r = Some (c\<lparr>ClientsAll := map_option (AList.delete (cid k)) (ClientsAll c)\<rparr>)"
    using c f by (auto simp: members_leave members_def leave_def split: option.splits)
  with w3(2) f show "(\<exists>m. ClientsAll c = Some m \<and> AList.delete (cid k) m \<noteq> [] \<and> channels w' = channels w \<and>
             ch w' r = Some (c\<lparr>ClientsAll := Some (AList.delete (cid k) m)\<rparr>)) \<or>
         ((\<forall>m. ClientsAll c = Some m \<longrightarrow> AList.delete (cid k) m = []) \<and>
          ch w' r = Some (c\<lparr>ClientsAll := None\<rparr>) \<and> channels w' = AList.delete (ch_name c) (channels w))"
    by (cases "ClientsAll c") auto
qed

lemma settled_Remove:
  assumes inv: "world_inv w" and c: "ch w r = Some c" "cl w x = Some k"
    and ok: "Remove pk r x w = Ok w'" and s: "settled w"
  shows "settled w'"
proof -
  note T = Remove_tables [OF c ok]
  have "ClientsAll d \<noteq> Some []" if "ch w' q = Some d" for q d
    using that T(1) [of q] T(6) s by (cases "q = r") (auto simp: settled_def)
  moreover have "\<exists>d. ch w' q = Some d \<and> ClientsAll d \<noteq> None" if n: "(n, q) \<in> set (channels w')" for n q
  proof -
    from n T(6) have n0: "(n, q) \<in> set (channels w)" by (auto simp: set_AList_delete)
    with s obtain d where d: "ch w q = Some d" "ClientsAll d \<noteq> None" by (auto simp: settled_def)
    show ?thesis
    proof (cases "q = r")
      case False
      with d T(1) show ?thesis by simp
    next
      case True
      with c world_invD(4) [OF inv n0] have "ch_name c = n" by simp
      with n have "\<not> (channels w' = AList.delete (ch_name c) (channels w))" by (auto simp: set_AList_delete)
      with T(6) True show ?thesis by auto
    qed
  qed
  ultimately show ?thesis by (auto simp: settled_def)
qed

lemma member_live:
  assumes "world_inv w" "cl w x = Some k" "cchan k = Some r"
  shows "\<exists>c m. ch w r = Some c \<and> ClientsAll c = Some m \<and> (cid k, x) \<in> set m"
  using world_invD(1) [OF assms(1,2)] assms(3) members_ch by (auto simp: client_ok_def)

lemma registered_Remove:
  assumes inv: "world_inv w" and k: "cl w x = Some k" "cchan k = Some r"
    and ok: "Remove pk r x w = Ok w'" and s: "registered w"
  shows "registered w'"
  unfolding registered_def
proof (intro allI impI)
  from member_live [OF inv k] obtain c m where c: "ch w r = Some c" "ClientsAll c = Some m" by auto
  note T = Remove_tables [OF c(1) k(1) ok]
  fix q d assume d: "ch w' q = Some d" "ClientsAll d \<noteq> None"
  show "(ch_name d, q) \<in> set (channels w')"
  proof (cases "q = r")
    case True
    with d T(6) obtain m where "ClientsAll c = Some m" "channels w' = channels w" "ch_name d = ch_name c"
      by auto
    with c True s show ?thesis by (auto simp: registered_def)
  next
    case False
    with d T(1) s have n: "(ch_name d, q) \<in> set (channels w)" by (simp add: registered_def)
    moreover have "ch_name d \<noteq> ch_name c"
    proof
      assume "ch_name d = ch_name c"
      moreover from s c have "(ch_name c, r) \<in> set (channels w)" by (simp add: registered_def)
      ultimately show False using n False world_invD(3) [OF inv] by (metis eq_key_imp_eq_value)
    qed
    ultimately show ?thesis using T(6) by (auto simp: set_AList_delete)
  qed
qed

section \<open>Opening\<close>

lemma NewClientChannel_unfold:
  "NewClientChannel pk name password locked x w =
     (next_ch w, Add pk (next_ch w) x password (new_channel (fresh_channel name password locked) w))"
  by (simp add: NewClientChannel_def new_channel_def fresh_channel_def Let_def)

text \<open>The first member always gets in.\<close>

lemma NewClientChannel_Ok:
  assumes inv: "world_inv w" and k: "cl w x = Some k"
  shows "\<exists>w1. snd (NewClientChannel pk name password locked x w) = Ok w1 \<and>
    ch w1 (next_ch w) = Some ((fresh_channel name password locked)\<lparr>ClientsAll := Some [(cid k, x)]\<rparr>)"
proof -
  let ?w = "new_channel (fresh_channel name password locked) w"
  have "ch ?w (next_ch w) = Some (fresh_channel name password locked)" "cl ?w x = Some k"
    using k by simp_all
  moreover have "members (next_ch w) ?w = []" by (simp add: members_def fresh_channel_def)
  ultimately show ?thesis
    by (simp add: NewClientChannel_unfold Add_unfold Let_def fresh_channel_def
        only_sends_frame(4) [OF only_sends_announce])
qed

section \<open>Who gets what\<close>

lemma set_targets: "y \<in> set (targets e m) \<longleftrightarrow> e \<noteq> Some y \<and> (\<exists>i. (i, y) \<in> set m)"
  by (force simp: targets_def)

lemma sendAllLocked_at:
  assumes "distinct (map snd (members r w))"
  shows "cl (sendAllLocked pk r msg e w) y =
    (if y \<in> set (targets e (members r w)) then map_option (Send (pk y msg) msg) (cl w y) else cl w y)"
proof (cases "members r w = []")
  case True
  then show ?thesis by (simp add: sendAllLocked_def targets_def)
next
  case False
  have "distinct (targets e (members r w))" using assms by (simp add: targets_def)
  with False show ?thesis by (simp add: sendAllLocked_def send_each_at)
qed

lemma SendOthers_at:
  assumes "distinct (map snd (members r w))"
  shows "cl (SendOthers pk r msg (Some x) w) y =
    (if length (members r w) \<le> 1
     then (if y = x then map_option (Send (pk x not_connected_msg) not_connected_msg) (cl w x) else cl w y)
     else if y \<in> set (targets (Some x) (members r w)) then map_option (Send (pk y msg) msg) (cl w y) else cl w y)"
proof -
  have "distinct (targets (Some x) (members r w))" using assms by (simp add: targets_def)
  then show ?thesis by (simp add: SendOthers_def client_Send_def send_each_at)
qed

text \<open>The replies a joining client gets, in order.\<close>

definition join_replies :: "bytes \<Rightarrow> int \<Rightarrow> (int \<times> nat) list \<Rightarrow> bytes \<Rightarrow> world \<Rightarrow> data list" where
  "join_replies name i m lmotd w =
     channel_joined_msg name i m w # (case motd_msg w lmotd of None \<Rightarrow> [] | Some d \<Rightarrow> [d])"

definition send_data :: "picks \<Rightarrow> nat \<Rightarrow> data \<Rightarrow> client \<Rightarrow> client" where
  "send_data pk x d = Send (pk x (mustEncode d)) (mustEncode d)"

lemma sendToClient_upd: "sendToClient pk x d w = upd_cl x (send_data pk x d) w"
  using clean_mustEncode [of d] by (simp add: sendToClient_def send_data_def client_Send_def clean_def Let_def)

lemma member_data_frame: "only_sends P w w' \<Longrightarrow> member_data w' p = member_data w p"
proof -
  assume "only_sends P w w'"
  then have "rel_option (after_sends P) (cl w (snd p)) (cl w' (snd p))" by (simp add: only_sends_def)
  then show ?thesis
    by (cases "cl w (snd p)"; cases "cl w' (snd p)")
       (auto simp: member_data_def after_sends_def sends_only_fields)
qed

lemma join_replies_frame:
  "only_sends P w w' \<Longrightarrow> channel_joined_msg name i m w' = channel_joined_msg name i m w"
  "only_sends P w w' \<Longrightarrow> motd_msg w' lmotd = motd_msg w lmotd"
proof -
  assume o: "only_sends P w w'"
  have "member_data w' = member_data w" using member_data_frame [OF o] by (intro ext)
  then show "channel_joined_msg name i m w' = channel_joined_msg name i m w"
    by (simp only: channel_joined_msg_def)
  show "motd_msg w' lmotd = motd_msg w lmotd" by (simp add: motd_msg_def only_sends_frame [OF o])
qed

lemma motd_msg_upd_cl [simp]: "motd_msg (upd_cl x f w) lmotd = motd_msg w lmotd"
  by (simp add: motd_msg_def)

lemma announce_at:
  assumes d: "distinct (map snd (members r w))"
  shows "cl (announce pk r x name i connection lmotd w) y =
    (if y = x then map_option (fold (send_data pk x) (join_replies name i (members r w) lmotd w)) (cl w x)
     else if \<exists>j. (j, y) \<in> set (members r w) then map_option (send_data pk y (client_joined_msg name i connection)) (cl w y)
     else cl w y)"
proof -
  let ?w1 = "channel_sendJSON pk r (Some x) (client_joined_msg name i connection) w"
  have o1: "only_sends clean w ?w1" by (rule only_sends_sendJSON)
  have c1: "cl ?w1 z = (if z \<in> set (targets (Some x) (members r w))
      then map_option (send_data pk z (client_joined_msg name i connection)) (cl w z) else cl w z)" for z
    using d by (simp add: channel_sendJSON_def sendAllLocked_at send_data_def)
  show ?thesis
    using c1 only_sends_frame(9) [OF o1]
    by (auto simp: announce_def Let_def join_replies_frame [OF o1] join_replies_def
        sendToClient_upd set_targets option.map_comp o_def split: option.split)
qed

text \<open>Go visits a map in any order: the reply does not depend on it.\<close>

lemma sort_key_perm:
  assumes "mset xs = mset ys" "distinct (map f xs)" shows "sort_key f xs = sort_key f ys"
proof (rule sort_key_inj_key_eq)
  show "mset xs = mset (sort_key f ys)" using assms(1) by simp
  show "inj_on f (set xs)" using assms(2) by (simp add: distinct_map)
qed simp

lemma channel_joined_msg_cases:
  "channel_joined_msg name i m w =
     (let others = filter (\<lambda>p. fst p \<noteq> i) m
      in zero_data\<lparr>Type := ''channel_joined'', Channel := name, Origin := i,
           UserIds := sort (map fst others),
           Clients := sort_key cd_ID (map (member_data w) others)\<rparr>)"
proof (cases "filter (\<lambda>p. fst p \<noteq> i) m" rule: remdups_adj.cases)
  case 1
  then show ?thesis by (simp only: channel_joined_msg_def Let_def) (simp add: zero_data_def)
next
  case (2 p)
  then show ?thesis by (simp only: channel_joined_msg_def Let_def) simp
next
  case (3 p q ps)
  then have l: "length (map fst (filter (\<lambda>p. fst p \<noteq> i) m)) \<noteq> 0"
    "1 < length (map fst (filter (\<lambda>p. fst p \<noteq> i) m))" by simp_all
  then show ?thesis by (simp only: channel_joined_msg_def Let_def if_False if_True)
qed

lemma channel_joined_msg_perm:
  assumes p: "mset m = mset m'" and d: "distinct (map fst m)"
  shows "channel_joined_msg name i m w = channel_joined_msg name i m' w"
proof -
  let ?o = "filter (\<lambda>p. fst p \<noteq> i) m" and ?o' = "filter (\<lambda>p. fst p \<noteq> i) m'"
  have "sort (map fst ?o) = sort (map fst ?o')"
    by (rule properties_for_sort) (simp_all add: p)
  moreover have "distinct (map cd_ID (map (member_data w) ?o))"
    using d by (simp add: member_data_def o_def distinct_map_filter)
  then have "sort_key cd_ID (map (member_data w) ?o) = sort_key cd_ID (map (member_data w) ?o')"
    by (intro sort_key_perm) (simp_all add: p)
  ultimately show ?thesis by (simp only: channel_joined_msg_cases Let_def)
qed

end
