(* ===== verification/Registry.thy ===== *)
theory Registry
  imports Membership
begin

text \<open>
  The package-level tables of \<open>server/server.go\<close>: the counter that numbers clients, the
  set of connected clients and the map from names to channels. Each operation holds the lock
  \<open>mu\<close> throughout, so it is one step.
\<close>

section \<open>Operations\<close>

text \<open>The counter is an \<open>atomic.Int32\<close>; its wrap-around is kept.\<close>

definition AddClient :: "nat \<Rightarrow> world \<Rightarrow> world" where
  "AddClient x w =
     (let n = lastID w + 1
      in (upd_cl x (SetID (sint n)) w)\<lparr>lastID := n, clients := List.insert x (clients w)\<rparr>)"

definition FindClient :: "nat \<Rightarrow> world \<Rightarrow> bool" where
  "FindClient x w \<longleftrightarrow> List.member (clients w) x"

text \<open>\<open>RemoveClient\<close> first leaves the channel, then takes \<open>mu\<close> for the client set.\<close>

definition leave_channel :: "picks \<Rightarrow> nat \<Rightarrow> world \<Rightarrow> world go" where
  "leave_channel pk x w =
     (case cl w x of None \<Rightarrow> Panic NilDereference
      | Some k \<Rightarrow> (case cchan k of None \<Rightarrow> Ok w | Some r \<Rightarrow> Remove pk r x w))"

definition delete_client :: "nat \<Rightarrow> world \<Rightarrow> world" where
  "delete_client x w =
     (if \<not> List.member (clients w) x then w else w\<lparr>clients := remove1 x (clients w)\<rparr>)"

definition RemoveClient :: "picks \<Rightarrow> nat \<Rightarrow> world \<Rightarrow> world go" where
  "RemoveClient pk x w = go_bind (leave_channel pk x w) (\<lambda>w1. Ok (delete_client x w1))"

definition FindChannel :: "bytes \<Rightarrow> world \<Rightarrow> nat option" where
  "FindChannel name w = map_of (channels w) name"

definition AddChannel :: "picks \<Rightarrow> bytes \<Rightarrow> bytes \<Rightarrow> bool \<Rightarrow> nat \<Rightarrow> world \<Rightarrow> world go" where
  "AddChannel pk name password locked x w =
     (case NewClientChannel pk name password locked x w of
        (r, res) \<Rightarrow> go_bind res (\<lambda>w1. Ok (w1\<lparr>channels := AList.update name r (channels w1)\<rparr>)))"

section \<open>The invariant\<close>

lemma world_inv_AddClient:
  assumes inv: "world_inv w" and k: "cl w x = Some k" "cchan k = None"
  shows "world_inv (AddClient x w)"
proof -
  note I = world_invD [OF inv]
  let ?w = "AddClient x w"
  have mem: "members q ?w = members q w" for q
    by (simp add: AddClient_def Let_def members_def)
  have cls: "cl ?w y = (if y = x then map_option (SetID (sint (lastID w + 1))) (cl w x) else cl w y)" for y
    by (simp add: AddClient_def Let_def)
  have fld: "ch ?w = ch w" "channels ?w = channels w" "next_ch ?w = next_ch w" "next_cl ?w = next_cl w"
    "set (clients ?w) = insert x (set (clients w))" "distinct (clients ?w) = distinct (clients w)"
    by (simp_all add: AddClient_def Let_def)
  have "client_ok ?w y j" if "cl ?w y = Some j" for y j
    using that I(1) [of y] I(1) [OF k(1)] k
    by (auto simp: cls client_ok_def SetID_def client_inv_def idle_flushed_def mem fld split: if_splits)
  moreover have "channel_ok ?w r c" if "ch ?w r = Some c" for r c
  proof -
    from that have c: "ch w r = Some c" by (simp add: fld)
    have "member_ok ?w r c p" if "member_ok w r c p" for p
      using that k by (auto simp: member_ok_def cls)
    with I(2) [OF c] show ?thesis by (simp add: channel_ok_def mem fld)
  qed
  ultimately show ?thesis using inv k unfolding world_inv_def by (simp add: fld cls)
qed

lemma world_inv_delete_client:
  assumes inv: "world_inv w" and k: "cl w x = Some k" "cchan k = None"
  shows "world_inv (delete_client x w)"
proof -
  note I = world_invD [OF inv]
  have mem: "members q (w\<lparr>clients := t\<rparr>) = members q w" for q t
    by (simp add: members_def)
  have "client_ok (w\<lparr>clients := remove1 x (clients w)\<rparr>) y j" if "cl w y = Some j" for y j
    using I(1) [OF that] I(5) k that by (auto simp: client_ok_def mem)
  moreover have "channel_ok (w\<lparr>clients := t\<rparr>) = channel_ok w" for t
    by (intro ext) (simp add: channel_ok_def mem member_ok_def)
  ultimately show ?thesis
    using inv unfolding world_inv_def delete_client_def by (auto simp: I(5) set_remove1_eq)
qed

text \<open>
  An operation run for one client changes another client only by queueing messages to it, and
  never changes a client's number.
\<close>

definition same_identity :: "client \<Rightarrow> client \<Rightarrow> bool" where
  "same_identity k k' \<longleftrightarrow>
     cid k' = cid k \<and> srv k' = srv k \<and> ip k' = ip k \<and> messageTerminator k' = messageTerminator k \<and>
     wr k' = wr k \<and> sd_closed k' = sd_closed k \<and> (ctx_done k \<longrightarrow> ctx_done k') \<and>
     (\<exists>bs. sd k' = sd k @ bs)"

definition names_kept :: "world \<Rightarrow> world \<Rightarrow> bool" where
  "names_kept w w' \<longleftrightarrow>
     (\<forall>r c. ch w r = Some c \<longrightarrow> (\<exists>c'. ch w' r = Some c' \<and> ch_name c' = ch_name c))"

definition run_for :: "nat \<Rightarrow> world \<Rightarrow> world \<Rightarrow> bool" where
  "run_for x w w' \<longleftrightarrow>
     (\<forall>y. y \<noteq> x \<longrightarrow> rel_option (after_sends clean) (cl w y) (cl w' y)) \<and>
     rel_option same_identity (cl w x) (cl w' x) \<and> next_cl w' = next_cl w \<and> lastID w' = lastID w \<and>
     names_kept w w'"

lemma same_identity_refl [simp]: "same_identity k k"
  by (simp add: same_identity_def)

lemma same_identity_trans: "same_identity a b \<Longrightarrow> same_identity b c \<Longrightarrow> same_identity a c"
  by (auto simp: same_identity_def)

lemma after_sends_identity: "after_sends P k k' \<Longrightarrow> same_identity k k'"
  by (auto simp: after_sends_def same_identity_def sends_only_fields)

lemma names_kept_refl [simp]: "names_kept w w"
  by (simp add: names_kept_def)

lemma names_kept_trans: "names_kept a b \<Longrightarrow> names_kept b c \<Longrightarrow> names_kept a c"
  unfolding names_kept_def by metis

lemma run_for_refl [simp]: "run_for x w w"
  by (simp add: run_for_def option.rel_refl)

lemma rel_option_trans:
  "(\<And>a b c. R a b \<Longrightarrow> R b c \<Longrightarrow> R a c) \<Longrightarrow> rel_option R x y \<Longrightarrow> rel_option R y z \<Longrightarrow> rel_option R x z"
  by (cases x; cases y; cases z) auto

lemma run_for_trans [trans]:
  assumes "run_for x a b" "run_for x b c" shows "run_for x a c"
proof -
  have "rel_option (after_sends clean) (cl a y) (cl c y)" if "y \<noteq> x" for y
    by (rule rel_option_trans [of _ "cl a y" "cl b y"])
       (use assms that in \<open>auto simp: run_for_def intro: after_sends_trans\<close>)
  moreover have "rel_option same_identity (cl a x) (cl c x)"
    by (rule rel_option_trans [of _ "cl a x" "cl b x"])
       (use assms in \<open>auto simp: run_for_def intro: same_identity_trans\<close>)
  moreover from assms have "names_kept a c" by (auto simp: run_for_def intro: names_kept_trans)
  ultimately show ?thesis using assms by (simp add: run_for_def)
qed

lemma run_for_only_sends: "only_sends clean w w' \<Longrightarrow> run_for x w w'"
proof -
  assume s: "only_sends clean w w'"
  then have r: "rel_option (after_sends clean) (cl w y) (cl w' y)" for y by (simp add: only_sends_def)
  have "rel_option same_identity (cl w x) (cl w' x)"
    by (rule option.rel_mono_strong [OF r]) (rule after_sends_identity)
  with r s show ?thesis by (simp add: run_for_def only_sends_frame names_kept_def)
qed

lemma run_for_local:
  assumes "\<And>y. y \<noteq> x \<Longrightarrow> cl w' y = cl w y" "rel_option same_identity (cl w x) (cl w' x)"
    "next_cl w' = next_cl w" "lastID w' = lastID w" "names_kept w w'"
  shows "run_for x w w'"
  using assms by (simp add: run_for_def option.rel_refl)

lemma run_for_Add:
  assumes "Add pk r x password w = Ok w'"
  shows "run_for x w w'"
proof -
  from assms obtain c k where c: "ch w r = Some c" "cl w x = Some k"
    by (auto simp: Add_def split: option.splits)
  let ?w2 = "upd_cl x (SetAuthorized (grants c password)) w"
  have "run_for x w ?w2" "run_for x w (enter r (cid k) x m ?w2)" for m
    using c by (auto intro!: run_for_local simp: enter_def setter_defs same_identity_def names_kept_def)
  moreover from assms have "w' = ?w2 \<or> (\<exists>m. only_sends clean (enter r (cid k) x m ?w2) w')"
    by (auto simp: Add_unfold [OF c] Let_def split: if_splits option.splits intro: only_sends_announce)
  ultimately show ?thesis by (auto intro: run_for_trans run_for_only_sends)
qed

lemma run_for_Remove:
  assumes "ch w r = Some c" "cl w x = Some k" "Remove pk r x w = Ok w'"
  shows "run_for x w w'" and "\<exists>k'. cl w' x = Some k' \<and> cchan k' = None"
proof -
  from Remove_cases [OF assms] obtain w3 where w3: "only_sends clean (leave r (cid k) x w) w3"
    "members r w3 \<noteq> [] \<and> w' = w3 \<or> members r w3 = [] \<and> w' = RemoveChannel (ch_name c) (set_members r None w3)" .
  have "run_for x w (leave r (cid k) x w)"
    using assms by (auto intro!: run_for_local simp: leave_def setter_defs same_identity_def names_kept_def)
  then have "run_for x w w3" using run_for_only_sends [OF w3(1)] by (rule run_for_trans)
  moreover have "run_for x w3 w'"
    using w3(2) by (auto intro!: run_for_local option.rel_refl simp: names_kept_def)
  ultimately show "run_for x w w'" by (rule run_for_trans)
  have "cl (leave r (cid k) x w) x = Some (ClearChannel k)" using assms by (simp add: leave_def)
  from only_sends_at(2) [OF w3(1) this] obtain k' where "cl w3 x = Some k'" "sends_only (ClearChannel k) k'"
    by (auto simp: after_sends_def)
  moreover from sends_only_fields(2) [OF this(2)] have "cchan k' = None" by (simp add: ClearChannel_def)
  ultimately show "\<exists>k'. cl w' x = Some k' \<and> cchan k' = None" using w3(2) by auto
qed

section \<open>Leaving\<close>

lemma leave_channel_Ok:
  assumes inv: "world_inv w" and k: "cl w x = Some k"
  shows "\<exists>w'. leave_channel pk x w = Ok w'"
proof (cases "cchan k")
  case None
  with k show ?thesis by (simp add: leave_channel_def)
next
  case (Some r)
  with member_live [OF inv k Some] Remove_no_panic [OF _ k] k show ?thesis
    by (auto simp: leave_channel_def)
qed

lemma leave_channel_inv:
  assumes inv: "world_inv w" and k: "cl w x = Some k" and ok: "leave_channel pk x w = Ok w'"
  shows "world_inv w'" "settled w \<Longrightarrow> settled w'" "registered w \<Longrightarrow> registered w'" "run_for x w w'"
    "\<exists>k'. cl w' x = Some k' \<and> cchan k' = None" "clients w' = clients w"
proof -
  have "world_inv w' \<and> (settled w \<longrightarrow> settled w') \<and> (registered w \<longrightarrow> registered w') \<and> run_for x w w' \<and>
    (\<exists>k'. cl w' x = Some k' \<and> cchan k' = None) \<and> clients w' = clients w"
  proof (cases "cchan k")
    case None
    with k ok inv show ?thesis by (simp add: leave_channel_def)
  next
    case (Some r)
    with k ok have R: "Remove pk r x w = Ok w'" by (simp add: leave_channel_def)
    from member_live [OF inv k Some] obtain c where c: "ch w r = Some c" by auto
    from world_inv_Remove [OF inv k Some R] settled_Remove [OF inv c k R]
      registered_Remove [OF inv k Some R] run_for_Remove [OF c k R] Remove_tables(2) [OF c k R]
    show ?thesis by simp
  qed
  then show "world_inv w'" "settled w \<Longrightarrow> settled w'" "registered w \<Longrightarrow> registered w'" "run_for x w w'"
    "\<exists>k'. cl w' x = Some k' \<and> cchan k' = None" "clients w' = clients w" by simp_all
qed

section \<open>Opening a channel\<close>

lemma world_inv_publish:
  assumes inv: "world_inv w" and r: "ch w r = Some c" "ch_name c = n"
  shows "world_inv (w\<lparr>channels := AList.update n r (channels w)\<rparr>)"
proof -
  have "client_ok (w\<lparr>channels := t\<rparr>) = client_ok w" "channel_ok (w\<lparr>channels := t\<rparr>) = channel_ok w" for t
    by (intro ext, simp add: client_ok_def channel_ok_def member_ok_def members_def)+
  with inv r show ?thesis
    unfolding world_inv_def by (auto simp: AList.distinct_update set_AList_update)
qed

text \<open>Opening never fails: the new channel takes its first member and gets its name.\<close>

lemma AddChannel_Ok:
  assumes inv: "world_inv w" and k: "cl w x = Some k" "cchan k = None" "x \<in> set (clients w)"
    and p: "password \<noteq> [] \<Longrightarrow> locked" "name \<noteq> []"
  obtains w1 where "AddChannel pk name password locked x w =
      Ok (w1\<lparr>channels := AList.update name (next_ch w) (channels w)\<rparr>)"
    and "world_inv w1" "run_for x w w1" "channels w1 = channels w" "clients w1 = clients w"
    and "ch w1 (next_ch w) = Some ((fresh_channel name password locked)\<lparr>ClientsAll := Some [(cid k, x)]\<rparr>)"
    and "\<And>q. q \<noteq> next_ch w \<Longrightarrow> ch w1 q = ch w q"
proof -
  let ?w = "new_channel (fresh_channel name password locked) w"
  from NewClientChannel_Ok [OF inv k(1)] obtain w1 where w1:
    "snd (NewClientChannel pk name password locked x w) = Ok w1"
    "ch w1 (next_ch w) = Some ((fresh_channel name password locked)\<lparr>ClientsAll := Some [(cid k, x)]\<rparr>)"
    by blast
  then have A: "Add pk (next_ch w) x password ?w = Ok w1" by (simp add: NewClientChannel_unfold)
  have inv1: "world_inv w1"
    using world_inv_Add [OF world_inv_new_channel [OF inv p] _ _ _ A] k by simp
  have "run_for x w ?w"
    by (rule run_for_local)
       (use fresh_address [OF inv, of "next_ch w"] in \<open>auto intro: option.rel_refl simp: names_kept_def\<close>)
  then have rf: "run_for x w w1" using run_for_Add [OF A] by (rule run_for_trans)
  have other: "ch w1 q = ch w q" if "q \<noteq> next_ch w" for q
    using Add_other [OF A] that by simp
  have "AddChannel pk name password locked x w = Ok (w1\<lparr>channels := AList.update name (next_ch w) (channels w)\<rparr>)"
    using A Add_tables(1) [OF A] by (simp add: AddChannel_def NewClientChannel_unfold)
  then show thesis
    by (rule that) (use inv1 rf w1(2) other Add_tables(1,2) [OF A] in simp_all)
qed

lemma AddChannel_inv:
  assumes inv: "world_inv w" and k: "cl w x = Some k" "cchan k = None" "x \<in> set (clients w)"
    and p: "password \<noteq> [] \<Longrightarrow> locked" "name \<noteq> []"
    and ok: "AddChannel pk name password locked x w = Ok w'"
  shows "world_inv w'" "run_for x w w'" "clients w' = clients w" "settled w \<Longrightarrow> settled w'"
    "registered w \<Longrightarrow> FindChannel name w = None \<Longrightarrow> registered w'"
proof -
  obtain w1 where ok1: "AddChannel pk name password locked x w =
      Ok (w1\<lparr>channels := AList.update name (next_ch w) (channels w)\<rparr>)"
    and w1: "world_inv w1" "run_for x w w1" "channels w1 = channels w" "clients w1 = clients w"
      "ch w1 (next_ch w) = Some ((fresh_channel name password locked)\<lparr>ClientsAll := Some [(cid k, x)]\<rparr>)"
      "\<And>q. q \<noteq> next_ch w \<Longrightarrow> ch w1 q = ch w q"
    using AddChannel_Ok [OF inv k p] by blast
  from ok ok1 have w': "w' = w1\<lparr>channels := AList.update name (next_ch w) (channels w)\<rparr>" by simp
  show "world_inv w'"
    unfolding w' w1(3) [symmetric]
    by (rule world_inv_publish [OF w1(1,5)]) (simp add: fresh_channel_def)
  show "run_for x w w'" using w1(2) by (simp add: w' run_for_def names_kept_def)
  show "clients w' = clients w" using w1(4) by (simp add: w')
  have upd: "set (channels w') = insert (name, next_ch w) {p \<in> set (channels w). fst p \<noteq> name}"
    using set_AList_update [OF world_invD(3) [OF inv]] by (simp add: w')
  have fresh: "(n, next_ch w) \<notin> set (channels w)" for n
    using world_invD(4) [OF inv] fresh_address [OF inv, of "next_ch w"] by fastforce
  show "settled w'" if "settled w"
    unfolding settled_def
  proof (intro conjI allI impI ballI)
    fix q d assume d: "ch w' q = Some d"
    with that w1(5) w1(6) [of q] show "ClientsAll d \<noteq> Some []"
      by (cases "q = next_ch w") (auto simp: w' settled_def)
  next
    fix nr assume nr: "nr \<in> set (channels w')"
    have "\<exists>d. ch w' q = Some d \<and> ClientsAll d \<noteq> None" if "nr = (n, q)" for n q
    proof (cases "q = next_ch w")
      case True
      with w1(5) show ?thesis by (simp add: w')
    next
      case False
      with nr that have "(n, q) \<in> set (channels w)" unfolding upd by simp
      with \<open>settled w\<close> w1(6) [OF False] show ?thesis by (auto simp: w' settled_def)
    qed
    then show "case nr of (n, q) \<Rightarrow> \<exists>d. ch w' q = Some d \<and> ClientsAll d \<noteq> None"
      by (cases nr) simp
  qed
  show "registered w'" if "registered w" "FindChannel name w = None"
    unfolding registered_def
  proof (intro allI impI)
    fix q d assume d: "ch w' q = Some d" "ClientsAll d \<noteq> None"
    show "(ch_name d, q) \<in> set (channels w')"
    proof (cases "q = next_ch w")
      case True
      with d(1) w1(5) have "ch_name d = name" by (auto simp: w' fresh_channel_def)
      with True show ?thesis unfolding upd by simp
    next
      case False
      with d w1(6) that(1) have "(ch_name d, q) \<in> set (channels w)" by (auto simp: w' registered_def)
      moreover from this that(2) have "ch_name d \<noteq> name"
        by (force simp: FindChannel_def map_of_eq_None_iff)
      ultimately show ?thesis unfolding upd by simp
    qed
  qed
qed

end
