(* ===== verification/Effects.thy ===== *)
theory Effects
  imports Registry
begin

text \<open>
  What joining, leaving and relaying do to every client, written out over the room each client
  is in: who is sent what, in which order, and who is left alone.
\<close>

section \<open>Rooms\<close>

definition room_of :: "world \<Rightarrow> nat \<Rightarrow> nat option" where
  "room_of w x = Option.bind (cl w x) cchan"

lemma room_of_Some: "room_of w x = Some r \<longleftrightarrow> (\<exists>k. cl w x = Some k \<and> cchan k = Some r)"
  by (simp add: room_of_def bind_eq_Some_conv)

lemma room_of_upd_cl:
  "room_of (upd_cl x f w) y = (if y = x then Option.bind (cl w x) (\<lambda>k. cchan (f k)) else room_of w y)"
  by (cases "cl w x") (simp_all add: room_of_def)

lemma members_room:
  "world_inv w \<Longrightarrow> (\<exists>i. (i, y) \<in> set (members r w)) \<longleftrightarrow> room_of w y = Some r"
  using world_inv_member [of w _ y r] world_invD(1) [of w y]
  by (fastforce simp: room_of_Some client_ok_def)

lemma targets_room:
  "world_inv w \<Longrightarrow> y \<in> set (targets (Some x) (members r w)) \<longleftrightarrow> y \<noteq> x \<and> room_of w y = Some r"
  by (auto simp: set_targets members_room)

text \<open>Whether a member of a room is alone in it.\<close>

lemma alone_iff:
  assumes inv: "world_inv w" and x: "room_of w x = Some r"
  shows "length (members r w) \<le> 1 \<longleftrightarrow> (\<forall>y. room_of w y = Some r \<longrightarrow> y = x)"
proof -
  let ?as = "map snd (members r w)"
  have s: "y \<in> set ?as \<longleftrightarrow> room_of w y = Some r" for y
    using members_room [OF inv, of y r] by force
  have d: "distinct ?as" by (rule world_inv_distinct_addr [OF inv])
  have "(\<forall>y \<in> set ?as. y = x) \<longleftrightarrow> length ?as \<le> 1"
  proof
    assume a: "\<forall>y \<in> set ?as. y = x"
    then have "set ?as \<subseteq> {x}" by blast
    then have "card (set ?as) \<le> 1" using card_mono [of "{x}" "set ?as"] by simp
    then show "length ?as \<le> 1" unfolding distinct_card [OF d] .
  next
    assume "length ?as \<le> 1"
    moreover have "x \<in> set ?as" using s x by blast
    ultimately show "\<forall>y \<in> set ?as. y = x" by (cases ?as) auto
  qed
  then show ?thesis unfolding s [symmetric] by auto
qed

section \<open>Relaying\<close>

lemma SendOthers_effect:
  assumes inv: "world_inv w" and x: "room_of w x = Some r"
  shows "cl (SendOthers pk r msg (Some x) w) y =
    (if \<forall>z. room_of w z = Some r \<longrightarrow> z = x
     then (if y = x then map_option (Send (pk x not_connected_msg) not_connected_msg) (cl w x) else cl w y)
     else if y \<noteq> x \<and> room_of w y = Some r then map_option (Send (pk y msg) msg) (cl w y) else cl w y)"
  unfolding SendOthers_at [OF world_inv_distinct_addr [OF inv]] alone_iff [OF assms] targets_room [OF inv] ..

lemma SendAll_effect:
  assumes inv: "world_inv w"
  shows "cl (SendAll pk r msg (Some x) w) y =
    (if y \<noteq> x \<and> room_of w y = Some r then map_option (Send (pk y msg) msg) (cl w y) else cl w y)"
  unfolding SendAll_def sendAllLocked_at [OF world_inv_distinct_addr [OF inv]] targets_room [OF inv] ..

section \<open>Joining\<close>

lemma filter_fresh: "map_of m i = None \<Longrightarrow> filter (\<lambda>p. fst p \<noteq> i) m = m"
  by (rule filter_True) (auto simp: map_of_eq_None_iff)

lemma join_replies_enter:
  assumes inv: "world_inv w" and k: "cl w x = Some k" and m: "members r w = m" "map_of m (cid k) = None"
  shows "join_replies name (cid k) ((cid k, x) # m) lmotd (enter r (cid k) x m (upd_cl x (SetAuthorized a) w)) =
    join_replies name (cid k) m lmotd w"
proof -
  let ?w = "enter r (cid k) x m (upd_cl x (SetAuthorized a) w)"
  have "member_data ?w p = member_data w p" if "p \<in> set m" for p
  proof -
    from that m k world_inv_member [OF inv, of "fst p" "snd p" r] have "snd p \<noteq> x"
      by (force simp: map_of_eq_None_iff)
    then show ?thesis by (simp add: member_data_def enter_def)
  qed
  then have "map (member_data ?w) m = map (member_data w) m" by simp
  moreover have "motd_msg ?w lmotd = motd_msg w lmotd"
    by (simp add: motd_msg_def enter_def upd_cl_def set_members_def)
  ultimately show ?thesis
    using filter_fresh [OF m(2)] 
    by (simp add: join_replies_def channel_joined_msg_cases Let_def del: map_eq_conv)
qed

lemma Add_effect:
  assumes inv: "world_inv w" and k: "cl w x = Some k" "cchan k = None" and c: "ch w r = Some c"
    and m: "ClientsAll c = Some m" "map_of m (cid k) = None"
  obtains w' where "Add pk r x password w = Ok w'"
    "\<And>y. cl w' y =
      (if y = x then Some (fold (send_data pk x)
           (join_replies (ch_name c) (cid k) m (Lmotd c (connectionType k) (ch_name c) password) w)
           (SetChannel r (SetAuthorized (grants c password) k)))
       else if room_of w y = Some r
         then map_option (send_data pk y (client_joined_msg (ch_name c) (cid k) (connectionType k))) (cl w y)
       else cl w y)"
    "ch w' = (ch w)(r \<mapsto> c\<lparr>ClientsAll := Some ((cid k, x) # m)\<rparr>)" "channels w' = channels w"
proof -
  let ?e = "enter r (cid k) x m (upd_cl x (SetAuthorized (grants c password)) w)"
  let ?lm = "Lmotd c (connectionType k) (ch_name c) password"
  let ?w' = "announce pk r x (ch_name c) (cid k) (connectionType k) ?lm ?e"
  have mw: "members r w = m" using c m by (simp add: members_def)
  have me: "members r ?e = (cid k, x) # m" using c by (simp add: enter_def members_set_members)
  have x: "y \<noteq> x" if "room_of w y = Some r" for y using that k by (auto simp: room_of_Some)
  have "distinct (map snd (members r ?e))"
    using world_inv_distinct_addr [OF inv, of r] members_room [OF inv, of x r] k unfolding me mw
    by (auto simp: room_of_def image_iff)
  note A = announce_at [where pk = pk, OF this]
  have cle: "cl ?e y = (if y = x then Some (SetChannel r (SetAuthorized (grants c password) k)) else cl w y)" for y
    using k by (simp add: enter_def)
  have "cl ?w' y =
      (if y = x then Some (fold (send_data pk x) (join_replies (ch_name c) (cid k) m ?lm w)
           (SetChannel r (SetAuthorized (grants c password) k)))
       else if room_of w y = Some r
         then map_option (send_data pk y (client_joined_msg (ch_name c) (cid k) (connectionType k))) (cl w y)
       else cl w y)" for y
    using members_room [OF inv, of y r] unfolding A me cle mw
    by (simp add: join_replies_enter [OF inv k(1) mw m(2)])
  moreover have "Add pk r x password w = Ok ?w'" using c m k mw by (simp add: Add_unfold Let_def)
  moreover have "ch ?w' = (ch w)(r \<mapsto> c\<lparr>ClientsAll := Some ((cid k, x) # m)\<rparr>)"
    using c by (intro ext) (simp add: only_sends_frame(4) [OF only_sends_announce])
  moreover have "channels ?w' = channels w" by (simp add: only_sends_frame [OF only_sends_announce])
  ultimately show thesis by (intro that [of ?w'])
qed

lemma AddChannel_effect:
  assumes inv: "world_inv w" and k: "cl w x = Some k" "cchan k = None"
    and p: "password \<noteq> [] \<Longrightarrow> locked" "name \<noteq> []"
  obtains w' where "AddChannel pk name password locked x w = Ok w'"
    "\<And>y. cl w' y =
      (if y = x then Some (fold (send_data pk x)
           (join_replies name (cid k) [] (Lmotd (fresh_channel name password locked) (connectionType k) name password) w)
           (SetChannel (next_ch w) (SetAuthorized (grants (fresh_channel name password locked) password) k)))
       else cl w y)"
    "channels w' = AList.update name (next_ch w) (channels w)"
    "ch w' = (ch w)(next_ch w \<mapsto> (fresh_channel name password locked)\<lparr>ClientsAll := Some [(cid k, x)]\<rparr>)"
proof -
  let ?c = "fresh_channel name password locked"
  let ?w = "new_channel ?c w"
  have c: "cl ?w x = Some k" "ch ?w (next_ch w) = Some ?c" "ClientsAll ?c = Some []" "map_of [] (cid k) = None"
    using k by (simp_all add: fresh_channel_def)
  obtain w1 where w1: "Add pk (next_ch w) x password ?w = Ok w1"
    "\<And>y. cl w1 y =
      (if y = x then Some (fold (send_data pk x)
           (join_replies (ch_name ?c) (cid k) [] (Lmotd ?c (connectionType k) (ch_name ?c) password) ?w)
           (SetChannel (next_ch w) (SetAuthorized (grants ?c password) k)))
       else if room_of ?w y = Some (next_ch w)
         then map_option (send_data pk y (client_joined_msg (ch_name ?c) (cid k) (connectionType k))) (cl ?w y)
       else cl ?w y)"
    "ch w1 = (ch ?w)(next_ch w \<mapsto> ?c\<lparr>ClientsAll := Some [(cid k, x)]\<rparr>)" "channels w1 = channels ?w"
    using Add_effect [where pk = pk and password = password,
        OF world_inv_new_channel [OF inv p] c(1) k(2) c(2-4)] by blast
  have n: "ch_name ?c = name" by (simp add: fresh_channel_def)
  have "room_of w y \<noteq> Some (next_ch w)" for y
    using members_room [OF inv, of y "next_ch w"] fresh_address [OF inv, of "next_ch w"]
    by (auto simp: members_def)
  then have r: "room_of ?w y \<noteq> Some (next_ch w)" for y by (simp add: room_of_def)
  have j: "join_replies name (cid k) [] l ?w = join_replies name (cid k) [] l w" for l
    by (simp add: join_replies_def channel_joined_msg_cases motd_msg_def)
  let ?w' = "w1\<lparr>channels := AList.update name (next_ch w) (channels w)\<rparr>"
  show thesis
  proof (rule that [of ?w'])
    show "AddChannel pk name password locked x w = Ok ?w'"
      using w1(1,4) by (simp add: AddChannel_def NewClientChannel_unfold)
    show "ch ?w' = (ch w)(next_ch w \<mapsto> ?c\<lparr>ClientsAll := Some [(cid k, x)]\<rparr>)"
      using w1(3) by (auto simp: fun_eq_iff)
    show "cl ?w' y =
      (if y = x then Some (fold (send_data pk x)
           (join_replies name (cid k) [] (Lmotd ?c (connectionType k) name password) w)
           (SetChannel (next_ch w) (SetAuthorized (grants ?c password) k)))
       else cl w y)" for y
      using w1(2) [of y] r [of y] by (simp add: n j)
  qed simp
qed

section \<open>Leaving\<close>

lemma Remove_effect:
  assumes inv: "world_inv w" and k: "cl w x = Some k" "cchan k = Some r" and c: "ch w r = Some c"
    and ok: "Remove pk r x w = Ok w'"
  shows "cl w' y =
      (if y = x then Some (ClearChannel k)
       else if room_of w y = Some r
         then map_option (send_data pk y (client_left_msg (cid k) (connectionType k))) (cl w y)
       else cl w y)"
proof -
  let ?l = "leave r (cid k) x w"
  let ?msg = "mustEncode (client_left_msg (cid k) (connectionType k))"
  let ?w3 = "sendAllLocked pk r ?msg (Some x) ?l"
  have invl: "world_inv ?l" by (rule world_inv_leave [OF inv k])
  have l: "cl ?l z = (if z = x then Some (ClearChannel k) else cl w z)" for z using k by (simp add: leave_def)
  then have room: "room_of ?l z = (if z = x then None else room_of w z)" for z
    by (simp add: room_of_def ClearChannel_def)
  have w3: "cl ?w3 y = (if y = x then Some (ClearChannel k)
       else if room_of w y = Some r then map_option (send_data pk y (client_left_msg (cid k) (connectionType k))) (cl w y)
       else cl w y)"
    unfolding sendAllLocked_at [OF world_inv_distinct_addr [OF invl]] targets_room [OF invl] room l
    by (simp add: send_data_def)
  have "cl w' = cl ?w3"
  proof (cases "members r ?w3 = []")
    case True
    with ok have w': "w' = quitLocked r ?w3" using c k by (simp add: Remove_unfold Let_def)
    have "cl (quitLocked r v) = cl v" if "members r v = []" for v
      using that by (auto simp: quitLocked_def RemoveChannel_def members_def set_members_def split: option.splits)
    with w' True show ?thesis by simp
  next
    case False
    with ok c k show ?thesis by (simp add: Remove_unfold Let_def)
  qed
  with w3 show ?thesis by simp
qed

end
