(* ===== verification/Key_Gen.thy ===== *)
theory Key_Gen
  imports Registry
begin

text \<open>
  Channel keys, after \<open>server/genKey.go\<close>: nine random digits taken from one 64-bit draw,
  drawn again while a channel uses them as name or password. The random source is an
  argument: what each read of \<open>crypto/rand\<close> answers, by position.
\<close>

unbundle bit_operations_syntax

section \<open>Random digits\<close>

text \<open>
  \<open>read8\<close> answers \<open>rand.Read\<close> into an 8-byte buffer, \<open>int10\<close> answers
  \<open>rand.Int(rand.Reader, 10)\<close>, whose documented range is 0 to 9; \<open>None\<close> is an error.
\<close>

record rng =
  read8 :: "nat \<Rightarrow> 8 word list option"
  int10 :: "nat \<Rightarrow> nat option"

definition rng_ok :: "rng \<Rightarrow> bool" where
  "rng_ok g \<longleftrightarrow> (\<forall>p bs. read8 g p = Some bs \<longrightarrow> length bs = 8) \<and> (\<forall>p d. int10 g p = Some d \<longrightarrow> d < 10)"

datatype key_error = ReadingRandomBytes | GeneratingRandomDigit

definition big_endian :: "8 word list \<Rightarrow> 64 word" where
  "big_endian bs = fold (\<lambda>b acc. push_bit 8 acc OR ucast b) bs 0"

fun modulus_loop :: "nat \<Rightarrow> 64 word \<Rightarrow> 64 word" where
  "modulus_loop 0 m = m"
| "modulus_loop (Suc n) m = modulus_loop n (m * 10)"

fun digit_loop :: "nat \<Rightarrow> 64 word \<Rightarrow> bytes" where
  "digit_loop 0 v = []"
| "digit_loop (Suc n) v = char_of (unat (48 + v mod 10)) # digit_loop n (v div 10)"

text \<open>The reversal in place.\<close>

function swap_loop :: "int \<Rightarrow> int \<Rightarrow> bytes \<Rightarrow> bytes" where
  "swap_loop i j b =
     (if i < j then swap_loop (i + 1) (j - 1) (b[nat i := b ! nat j, nat j := b ! nat i]) else b)"
  by pat_completeness auto
termination by (relation "measure (\<lambda>(i, j, b). nat (j - i))") auto

declare swap_loop.simps [simp del]

definition digits_of_word :: "nat \<Rightarrow> 64 word \<Rightarrow> bytes" where
  "digits_of_word n v =
     (let b = digit_loop n (v mod modulus_loop n 1) in swap_loop 0 (int (length b) - 1) b)"

fun big_loop :: "(nat \<Rightarrow> nat option) \<Rightarrow> nat \<Rightarrow> nat \<Rightarrow> key_error + bytes" where
  "big_loop d pos 0 = Inr []"
| "big_loop d pos (Suc n) =
     (case d pos of None \<Rightarrow> Inl GeneratingRandomDigit
      | Some k \<Rightarrow>
          (case big_loop d (Suc pos) n of Inl e \<Rightarrow> Inl e
           | Inr ds \<Rightarrow> Inr (char_of (48 + k) # ds)))"

definition randomDigitsBig :: "rng \<Rightarrow> nat \<Rightarrow> nat \<Rightarrow> key_error + bytes" where
  "randomDigitsBig g pos n = big_loop (int10 g) pos n"

definition randomDigits :: "rng \<Rightarrow> nat \<Rightarrow> int \<Rightarrow> key_error + bytes" where
  "randomDigits g pos n =
     (if n \<le> 0 then Inr []
      else if 18 < n then randomDigitsBig g pos (nat n)
      else case read8 g pos of None \<Rightarrow> Inl ReadingRandomBytes
           | Some buf \<Rightarrow> Inr (digits_of_word (nat n) (big_endian buf)))"

section \<open>What the digits are\<close>

lemma modulus_loop_val: "n + k \<le> 19 \<Longrightarrow> unat m = 10 ^ k \<Longrightarrow> unat (modulus_loop n m) = 10 ^ (n + k)"
proof (induction n arbitrary: m k)
  case 0
  then show ?case by simp
next
  case (Suc n)
  have "(10::nat) ^ Suc k \<le> 10 ^ 19" using Suc.prems by (intro power_increasing) auto
  then have "unat (m * 10) = 10 ^ Suc k"
    using Suc.prems by (simp add: unat_word_ariths)
  with Suc.IH [of "Suc k" "m * 10"] Suc.prems show ?case by simp
qed

lemma unat_modulus: "n \<le> 19 \<Longrightarrow> unat (modulus_loop n 1) = 10 ^ n"
  using modulus_loop_val [of n 0 1] by simp

lemma digit_loop_digits: "list_all is_digit (digit_loop n v) \<and> length (digit_loop n v) = n"
proof (induction n arbitrary: v)
  case 0
  then show ?case by simp
next
  case (Suc n)
  have "unat (v mod 10) < 10" by (simp add: unat_mod_distrib)
  then have "unat (48 + v mod 10) = 48 + unat (v mod 10)" by (simp add: unat_word_ariths)
  with \<open>unat (v mod 10) < 10\<close> Suc show ?case by (simp add: is_digit_def)
qed

lemma swap_loop_length [simp]: "length (swap_loop i j b) = length b"
  by (induction i j b rule: swap_loop.induct) (subst swap_loop.simps, simp)

text \<open>The loop reverses the part between its indices.\<close>

lemma swap_loop_nth:
  "0 \<le> i \<Longrightarrow> j < int (length b) \<Longrightarrow> k < length b \<Longrightarrow>
     swap_loop i j b ! k = (if i \<le> int k \<and> int k \<le> j then b ! nat (i + j - int k) else b ! k)"
proof (induction i j b arbitrary: k rule: swap_loop.induct)
  case (1 i j b)
  show ?case
  proof (cases "i < j")
    case False
    with 1 show ?thesis by (subst swap_loop.simps) (auto intro: arg_cong2 [where f = nth])
  next
    case True
    let ?b = "b[nat i := b ! nat j, nat j := b ! nat i]"
    from True have eq: "swap_loop i j b = swap_loop (i + 1) (j - 1) ?b" by (subst swap_loop.simps) simp
    have IH: "swap_loop (i + 1) (j - 1) ?b ! k =
        (if i + 1 \<le> int k \<and> int k \<le> j - 1 then ?b ! nat (i + j - int k) else ?b ! k)"
      using "1.IH" [OF True, of k] "1.prems" by simp
    consider "int k < i" | "int k = i" | "i < int k \<and> int k < j" | "int k = j" | "j < int k" by linarith
    then show ?thesis
      using "1.prems" True
      by cases (auto simp: eq IH nth_list_update)
  qed
qed

lemma swap_loop_rev: "swap_loop 0 (int (length b) - 1) b = rev b"
proof (rule nth_equalityI)
  fix k assume "k < length (swap_loop 0 (int (length b) - 1) b)"
  then have k: "k < length b" by simp
  then have "nat (int (length b) - 1 - int k) = length b - Suc k" by linarith
  with k swap_loop_nth [of 0 "int (length b) - 1" b k] show "swap_loop 0 (int (length b) - 1) b ! k = rev b ! k"
    by (simp add: rev_nth)
qed simp

text \<open>Reading the key back gives the draw modulo a power of ten, so every key has its draws.\<close>

lemma digits_val_digit_loop:
  "digits_val (rev (digit_loop n v)) = unat v mod 10 ^ n"
proof (induction n arbitrary: v)
  case 0
  then show ?case by (simp add: digits_val_def)
next
  case (Suc n)
  have lt: "unat v mod 10 < 10" by simp
  have "unat (48 + v mod 10) = 48 + unat v mod 10" by (simp add: unat_word_ariths unat_mod_distrib)
  with lt have "digits_val (rev (digit_loop (Suc n) v)) = 10 * (unat v div 10 mod 10 ^ n) + unat v mod 10"
    by (simp add: digits_val_snoc Suc unat_div_distrib)
  also have "\<dots> = unat v mod 10 ^ Suc n" by (simp add: mod_mult2_eq)
  finally show ?case .
qed

lemma digits_of_word_rev: "digits_of_word n v = rev (digit_loop n (v mod modulus_loop n 1))"
  by (simp add: digits_of_word_def Let_def swap_loop_rev)

lemma digits_of_word_shape: "list_all is_digit (digits_of_word n v)" "length (digits_of_word n v) = n"
  using digit_loop_digits [of n] by (simp_all add: digits_of_word_rev list_all_rev)

lemma digits_of_word_val:
  assumes "n \<le> 19" shows "digits_val (digits_of_word n v) = unat v mod 10 ^ n"
  using unat_modulus [OF assms] by (simp add: digits_of_word_rev digits_val_digit_loop unat_mod_distrib)

text \<open>Equal length and equal value make equal digit strings.\<close>

lemma digits_val_bound: "list_all is_digit s \<Longrightarrow> digits_val s < 10 ^ length s"
proof (induction s rule: rev_induct)
  case (snoc c s)
  then have "is_digit c" by simp
  then have "ord c - 48 \<le> 9" unfolding is_digit_def by linarith
  with snoc show ?case by (simp add: digits_val_snoc)
qed (simp add: digits_val_def)

lemma digits_val_inj:
  "length s = length t \<Longrightarrow> list_all is_digit s \<Longrightarrow> list_all is_digit t \<Longrightarrow> digits_val s = digits_val t \<Longrightarrow> s = t"
proof (induction s arbitrary: t rule: rev_induct)
  case (snoc c s)
  from snoc.prems(1) obtain d t' where t: "t = t' @ [d]" "length s = length t'"
    by (cases t rule: rev_cases) auto
  from snoc.prems t have dig: "is_digit c" "is_digit d" and
    eq: "10 * digits_val s + (ord c - 48) = 10 * digits_val t' + (ord d - 48)"
    by (simp_all add: digits_val_snoc)
  from dig have b: "ord c - 48 < 10" "ord d - 48 < 10" by (auto simp: is_digit_def)
  from arg_cong [OF eq, of "\<lambda>k. k mod 10"] b have "ord c - 48 = ord d - 48"
    by (simp add: mod_add_left_eq)
  moreover from this eq have "digits_val s = digits_val t'" by simp
  moreover have "ord c = ord d"
    using \<open>ord c - 48 = ord d - 48\<close> dig unfolding is_digit_def by linarith
  ultimately show ?case using snoc t by simp
qed simp

lemma digits_of_word_eq_iff:
  assumes "n \<le> 19" "length key = n" "list_all is_digit key"
  shows "digits_of_word n v = key \<longleftrightarrow> unat v mod 10 ^ n = digits_val key"
  using assms digits_of_word_val [OF assms(1), of v] digits_of_word_shape [of n v]
    digits_val_inj [of "digits_of_word n v" key] by auto

text \<open>How many of the numbers below \<open>N\<close> have a given remainder.\<close>

lemma card_residue:
  assumes "0 < m" "a < m"
  shows "card {k. k < N \<and> k mod m = a} = (if a < N mod m then Suc (N div m) else N div m)"
proof -
  let ?q = "if a < N mod m then Suc (N div m) else N div m"
  have "{k. k < N \<and> k mod m = a} = (\<lambda>q. q * m + a) ` {..<?q}"
  proof (intro equalityI subsetI)
    fix k assume k: "k \<in> {k. k < N \<and> k mod m = a}"
    then have split: "k = (k div m) * m + a" using div_mult_mod_eq [of k m] by simp
    moreover have "k div m < ?q"
    proof (rule ccontr)
      assume "\<not> k div m < ?q"
      then have "?q * m \<le> (k div m) * m" by simp
      moreover have "N \<le> ?q * m + a"
      proof -
        have e: "N = N div m * m + N mod m" by simp
        have "N mod m < m" using assms(1) by simp
        then show ?thesis by (cases "a < N mod m"; subst e; simp only: if_True if_False mult_Suc; linarith)
      qed
      moreover have "k < N" using k by simp
      ultimately show False using split by linarith
    qed
    ultimately show "k \<in> (\<lambda>q. q * m + a) ` {..<?q}" by blast
  next
    fix k assume "k \<in> (\<lambda>q. q * m + a) ` {..<?q}"
    then obtain q where q: "k = q * m + a" "q < ?q" by auto
    have "k < N"
    proof (cases "q < N div m")
      case True
      then have "Suc q * m \<le> (N div m) * m" by (intro mult_le_mono1) simp
      then have "m + q * m \<le> N div m * m" by simp
      with q(1) assms div_mult_mod_eq [of N m] show ?thesis by linarith
    next
      case False
      with q have "q = N div m" "a < N mod m" by (auto split: if_splits)
      from this(1) q(1) have "k = N div m * m + a" by simp
      with \<open>a < N mod m\<close> div_mult_mod_eq [of N m] show ?thesis by linarith
    qed
    with q assms show "k \<in> {k. k < N \<and> k mod m = a}" by simp
  qed
  moreover have "inj_on (\<lambda>q. q * m + a) {..<?q}" using assms by (intro inj_onI) simp
  ultimately show ?thesis by (simp add: card_image)
qed

lemma card_digits_of_word:
  assumes "n \<le> 19" "length key = n" "list_all is_digit key"
  shows "card {v. digits_of_word n v = key} =
    (if digits_val key < 2 ^ 64 mod 10 ^ n then Suc (2 ^ 64 div 10 ^ n) else 2 ^ 64 div 10 ^ n)"
proof -
  have "bij_betw unat {v :: 64 word. unat v mod 10 ^ n = digits_val key}
      {k. k < 2 ^ 64 \<and> k mod 10 ^ n = digits_val key}"
  proof (rule bij_betw_imageI)
    show "inj_on unat {v :: 64 word. unat v mod 10 ^ n = digits_val key}"
      by (rule inj_onI) (simp add: word_unat_eq_iff)
    have "k \<in> unat ` {v :: 64 word. unat v mod 10 ^ n = digits_val key}"
      if "k < 2 ^ 64" "k mod 10 ^ n = digits_val key" for k
      using that by (intro image_eqI [of _ _ "of_nat k"]) (simp_all add: unat_of_nat)
    moreover have "unat v < 2 ^ 64" for v :: "64 word" using unsigned_less [of v] by simp
    ultimately show "unat ` {v :: 64 word. unat v mod 10 ^ n = digits_val key} =
        {k. k < 2 ^ 64 \<and> k mod 10 ^ n = digits_val key}" by auto
  qed
  from bij_betw_same_card [OF this] have
    "card {v. digits_of_word n v = key} = card {k. k < (2::nat) ^ 64 \<and> k mod 10 ^ n = digits_val key}"
    by (simp add: digits_of_word_eq_iff [OF assms])
  with card_residue [of "10 ^ n" "digits_val key" "2 ^ 64"] digits_val_bound [OF assms(3)] assms(2)
  show ?thesis by simp
qed

section \<open>The key\<close>

definition channelKeyTaken :: "bytes \<Rightarrow> world \<Rightarrow> bool" where
  "channelKeyTaken key w =
     list_ex (\<lambda>(name, r). name = key \<or> (case ch w r of None \<Rightarrow> False | Some c \<Rightarrow> ch_password c = key))
       (channels w)"

text \<open>
  The loop has no bound, and other connections change the channels while it runs: \<open>ws\<close>
  gives the world at the check of each draw. \<open>None\<close> is a run that never returns.
\<close>

partial_function (option) gen_key ::
  "rng \<Rightarrow> (nat \<Rightarrow> world) \<Rightarrow> nat \<Rightarrow> (key_error + bytes) option" where
  "gen_key g ws pos =
     (case randomDigits g pos 9 of
        Inl e \<Rightarrow> Some (Inl e)
      | Inr key \<Rightarrow>
          if \<not> channelKeyTaken key (ws pos) then Some (Inr key) else gen_key g ws (Suc pos))"

lemma randomDigits_nine:
  "randomDigits g pos 9 =
     (case read8 g pos of None \<Rightarrow> Inl ReadingRandomBytes
      | Some buf \<Rightarrow> Inr (digits_of_word 9 (big_endian buf)))"
proof -
  have "nat 9 = 9" by simp
  then show ?thesis by (simp only: randomDigits_def) simp
qed

declare gen_key.simps [code]

text \<open>A key that is returned was drawn, and free when it was checked.\<close>

lemma gen_key_result:
  assumes "gen_key g ws pos = Some y"
  shows "\<exists>p \<ge> pos. randomDigits g p 9 = y \<and> (\<forall>key. y = Inr key \<longrightarrow> \<not> channelKeyTaken key (ws p))"
proof (rule gen_key.raw_induct [OF _ assms], goal_cases)
  case (1 gk g ws pos y)
  show ?case
  proof (cases "randomDigits g pos 9")
    case (Inl e)
    with 1(2) show ?thesis by auto
  next
    case (Inr k)
    show ?thesis
    proof (cases "channelKeyTaken k (ws pos)")
      case False
      with 1(2) Inr show ?thesis by auto
    next
      case True
      with 1(2) Inr have "gk g ws (Suc pos) = Some y" by simp
      from 1(1) [OF this] obtain p where p: "Suc pos \<le> p" "randomDigits g p 9 = y"
        "\<forall>key. y = Inr key \<longrightarrow> \<not> channelKeyTaken key (ws p)" by blast
      then show ?thesis by (intro exI [of _ p]) simp
    qed
  qed
qed

text \<open>The loop returns as soon as the source fails or draws a free key.\<close>

definition draw_stops :: "rng \<Rightarrow> (nat \<Rightarrow> world) \<Rightarrow> nat \<Rightarrow> bool" where
  "draw_stops g ws p \<longleftrightarrow>
     (case randomDigits g p 9 of Inl e \<Rightarrow> True | Inr key \<Rightarrow> \<not> channelKeyTaken key (ws p))"

lemma gen_key_returns:
  assumes "draw_stops g ws (pos + n)" "\<And>m. m < n \<Longrightarrow> \<not> draw_stops g ws (pos + m)"
  shows "gen_key g ws pos = Some (randomDigits g (pos + n) 9)"
  using assms
proof (induction n arbitrary: pos)
  case 0
  then show ?case
    by (subst gen_key.simps) (auto simp: draw_stops_def split: sum.splits)
next
  case (Suc n)
  have "gen_key g ws pos = gen_key g ws (Suc pos)"
    using Suc.prems(2) [of 0] by (subst gen_key.simps) (auto simp: draw_stops_def split: sum.splits)
  with Suc.IH [of "Suc pos"] Suc.prems(1) Suc.prems(2) [of "Suc _"] show ?case by simp
qed

text \<open>
  With the channels unchanged, one more distinct draw than there are names and passwords is
  enough: the loop ends within \<open>2 n + 1\<close> such draws for \<open>n\<close> channels.
\<close>

definition taken_keys :: "world \<Rightarrow> bytes set" where
  "taken_keys w = {key. channelKeyTaken key w}"

lemma taken_keys_bound: "finite (taken_keys w) \<and> card (taken_keys w) \<le> 2 * length (channels w)"
proof -
  let ?names = "set (map fst (channels w))"
  let ?pw = "set (map (\<lambda>(n, r). case ch w r of None \<Rightarrow> [] | Some c \<Rightarrow> ch_password c) (channels w))"
  have sub: "taken_keys w \<subseteq> ?names \<union> ?pw"
  proof
    fix key assume "key \<in> taken_keys w"
    then obtain n r where nr: "(n, r) \<in> set (channels w)"
      "n = key \<or> (case ch w r of None \<Rightarrow> False | Some c \<Rightarrow> ch_password c = key)"
      by (auto simp: taken_keys_def channelKeyTaken_def list_ex_iff)
    then show "key \<in> ?names \<union> ?pw"
      by (cases "ch w r") (force simp: image_iff)+
  qed
  have "card (?names \<union> ?pw) \<le> card ?names + card ?pw" by (rule card_Un_le)
  also have "\<dots> \<le> length (channels w) + length (channels w)"
    by (intro add_mono; rule order_trans [OF card_length]; simp)
  finally have "card (?names \<union> ?pw) \<le> 2 * length (channels w)" by simp
  with card_mono [OF _ sub] finite_subset [OF sub] show ?thesis by fastforce
qed

lemma gen_key_pigeonhole:
  assumes inj: "inj_on (\<lambda>m. randomDigits g (pos + m) 9) {..2 * length (channels w)}"
  shows "\<exists>n \<le> 2 * length (channels w). gen_key g (\<lambda>_. w) pos = Some (randomDigits g (pos + n) 9)"
proof -
  let ?N = "2 * length (channels w)"
  have "\<exists>n \<le> ?N. draw_stops g (\<lambda>_. w) (pos + n)"
  proof (rule ccontr)
    assume none: "\<not> ?thesis"
    have "(\<lambda>m. randomDigits g (pos + m) 9) ` {..?N} \<subseteq> Inr ` taken_keys w"
    proof
      fix r assume "r \<in> (\<lambda>m. randomDigits g (pos + m) 9) ` {..?N}"
      with none show "r \<in> Inr ` taken_keys w"
        by (fastforce simp: draw_stops_def taken_keys_def split: sum.splits)
    qed
    then have "card ((\<lambda>m. randomDigits g (pos + m) 9) ` {..?N}) \<le> card (Inr ` taken_keys w :: (key_error + bytes) set)"
      by (intro card_mono) (simp_all add: taken_keys_bound)
    also have "\<dots> \<le> ?N" using taken_keys_bound [of w] by (simp add: card_image)
    finally show False using card_image [OF inj] by simp
  qed
  then have "draw_stops g (\<lambda>_. w) (pos + (LEAST n. draw_stops g (\<lambda>_. w) (pos + n)))"
    and "(LEAST n. draw_stops g (\<lambda>_. w) (pos + n)) \<le> ?N"
    by (auto intro: LeastI order_trans [OF Least_le])
  with gen_key_returns [of g "\<lambda>_. w" pos "LEAST n. draw_stops g (\<lambda>_. w) (pos + n)"] not_less_Least
  show ?thesis by blast
qed

end
