(* ===== verification/Commands.thy ===== *)
theory Commands
  imports Key_Gen
begin

text \<open>
  The commands a client may send before it is in a channel, after \<open>server/commands.go\<close>:
  the command table, \<open>join\<close>, \<open>protocol_version\<close> and \<open>generate_key\<close>. A handler
  that takes locks twice is given as its parts, because other connections may run in between,
  and as their composition, which is the handler run without interruption.
\<close>

section \<open>Replies\<close>

text \<open>What one message is answered with: the scheduler's and the random source's choices.\<close>

record cmd_env =
  ce_picks :: picks
  ce_close :: bool
  ce_rng :: rng
  ce_pos :: nat
  ce_worlds :: "nat \<Rightarrow> world"

definition sendError :: "picks \<Rightarrow> nat \<Rightarrow> bytes \<Rightarrow> world \<Rightarrow> world" where
  "sendError pk x errType w =
     (case Encode (zero_data\<lparr>Type := ''error'', Error := errType\<rparr>) of
        None \<Rightarrow> w | Some enc \<Rightarrow> client_Send pk x enc w)"

definition sendJSON :: "picks \<Rightarrow> nat \<Rightarrow> data \<Rightarrow> world \<Rightarrow> world \<times> bool" where
  "sendJSON pk x d w =
     (case Encode d of None \<Rightarrow> (w, False) | Some enc \<Rightarrow> (client_Send pk x enc w, True))"

section \<open>The handlers\<close>

text \<open>Where a handler may be interrupted.\<close>

datatype cont = Finished | JoinFound "nat option" bytes bytes bool | ThenClose

definition join_begin :: "picks \<Rightarrow> nat \<Rightarrow> data \<Rightarrow> world \<Rightarrow> world \<times> cont" where
  "join_begin pk x d w =
     (if Option.bind (cl w x) cchan \<noteq> None then (sendError pk x ''already_joined'' w, Finished)
      else
        let (name, password, locked) = getChannelParams (Channel d) in
        if name = [] then (upd_cl x Close (sendError pk x ''invalid_parameters'' w), Finished)
        else
          let w1 = upd_cl x (SetConnectionType (ConnectionType d)) w
          in (w1, JoinFound (FindChannel name w1) name password locked))"

definition join_commit ::
  "picks \<Rightarrow> nat \<Rightarrow> nat option \<Rightarrow> bytes \<Rightarrow> bytes \<Rightarrow> bool \<Rightarrow> world \<Rightarrow> world go" where
  "join_commit pk x found name password locked w =
     (case found of
        Some r \<Rightarrow> Add pk r x password w
      | None \<Rightarrow> AddChannel pk name password locked x w)"

definition generate_begin :: "cmd_env \<Rightarrow> nat \<Rightarrow> world \<Rightarrow> (world \<times> cont) go" where
  "generate_begin env x w =
     (case gen_key (ce_rng env) (ce_worlds env) (ce_pos env) of
        None \<Rightarrow> Hang
      | Some (Inl e) \<Rightarrow> Ok (upd_cl x Close w, Finished)
      | Some (Inr key) \<Rightarrow>
          Ok (fst (sendJSON (ce_picks env) x (zero_data\<lparr>Type := ''generate_key'', Key := key\<rparr>) w),
              ThenClose))"

definition client_CloseGracefully :: "bool \<Rightarrow> nat \<Rightarrow> world \<Rightarrow> world go" where
  "client_CloseGracefully pick x w =
     (case cl w x of None \<Rightarrow> Panic NilDereference
      | Some k \<Rightarrow>
          (case CloseGracefully pick k of
             Ok k' \<Rightarrow> Ok (upd_cl x (\<lambda>_. k') w)
           | Panic p \<Rightarrow> Panic p | Goexit _ \<Rightarrow> Goexit w | Hang \<Rightarrow> Hang))"

definition cmd_finish :: "cmd_env \<Rightarrow> nat \<Rightarrow> world \<times> cont \<Rightarrow> world go" where
  "cmd_finish env x r =
     (case r of (w, c) \<Rightarrow>
        (case c of
           Finished \<Rightarrow> Ok w
         | JoinFound f n p l \<Rightarrow> join_commit (ce_picks env) x f n p l w
         | ThenClose \<Rightarrow> client_CloseGracefully (ce_close env) x w))"

type_synonym handler = "cmd_env \<Rightarrow> nat \<Rightarrow> data \<Rightarrow> world \<Rightarrow> world go"
type_synonym handler_part = "cmd_env \<Rightarrow> nat \<Rightarrow> data \<Rightarrow> world \<Rightarrow> (world \<times> cont) go"

definition run_parts :: "handler_part \<Rightarrow> handler" where
  "run_parts b env x d w =
     (case b env x d w of
        Ok r \<Rightarrow> cmd_finish env x r
      | Panic p \<Rightarrow> Panic p | Goexit r \<Rightarrow> Goexit (fst r) | Hang \<Rightarrow> Hang)"

definition join_handler :: handler where
  "join_handler = run_parts (\<lambda>env x d w. Ok (join_begin (ce_picks env) x d w))"

definition protocol_version_handler :: handler where
  "protocol_version_handler env x d w =
     Ok (if Version d \<le> 0 then w else upd_cl x (SetVersion (Version d)) w)"

definition generate_key_handler :: handler where
  "generate_key_handler = run_parts (\<lambda>env x d w. generate_begin env x w)"

section \<open>The table\<close>

definition cmd_add :: "bytes \<Rightarrow> 'h \<Rightarrow> (bytes \<times> 'h) list \<Rightarrow> (bytes \<times> 'h) list" where
  "cmd_add cmd cfunc table = AList.update cmd cfunc table"

definition command :: "(bytes \<times> handler) list" where
  "command =
     cmd_add ''generate_key'' generate_key_handler
       (cmd_add ''protocol_version'' protocol_version_handler
          (cmd_add ''join'' join_handler []))"

definition cmd_exists :: "(bytes \<times> 'h) list \<Rightarrow> bytes \<Rightarrow> bool" where
  "cmd_exists table cmd \<longleftrightarrow> map_of table cmd \<noteq> None"

definition exec_in :: "(bytes \<times> handler) list \<Rightarrow> handler" where
  "exec_in table env x d w =
     (let cmd = Type d in
      if cmd = [] then Ok w
      else if \<not> cmd_exists table cmd then Ok w
      else the (map_of table cmd) env x d w)"

definition cmd_exec :: handler where
  "cmd_exec = exec_in command"

text \<open>The first part of the command a message names.\<close>

definition cmd_begin :: handler_part where
  "cmd_begin env x d w =
     (if Type d = ''join'' then Ok (join_begin (ce_picks env) x d w)
      else if Type d = ''protocol_version'' then
        (case protocol_version_handler env x d w of Ok w' \<Rightarrow> Ok (w', Finished) | _ \<Rightarrow> Hang)
      else if Type d = ''generate_key'' then generate_begin env x w
      else Ok (w, Finished))"

lemma command_at:
  "map_of command cmd =
     (if cmd = ''join'' then Some join_handler
      else if cmd = ''protocol_version'' then Some protocol_version_handler
      else if cmd = ''generate_key'' then Some generate_key_handler else None)"
  by (simp add: command_def cmd_add_def)

text \<open>Running a command is its first part and then the rest, if nothing comes between.\<close>

lemma cmd_exec_parts: "cmd_exec = run_parts cmd_begin"
  by (intro ext)
     (auto simp: cmd_exec_def exec_in_def cmd_exists_def command_at cmd_begin_def Let_def
      join_handler_def protocol_version_handler_def generate_key_handler_def run_parts_def cmd_finish_def)

section \<open>The contract of a handler\<close>

text \<open>
  A handler is run for a connected client that is in no channel. It keeps the invariant, keeps
  every channel non-empty and every name live, changes other clients only by queueing messages
  to them, and never ends the goroutine.
\<close>

definition outside :: "nat \<Rightarrow> world \<Rightarrow> bool" where
  "outside x w \<longleftrightarrow> (\<exists>k. cl w x = Some k \<and> cchan k = None) \<and> x \<in> set (clients w)"

definition kept :: "nat \<Rightarrow> world \<Rightarrow> world \<Rightarrow> bool" where
  "kept x w w' \<longleftrightarrow> world_inv w' \<and> settled w' \<and> run_for x w w' \<and> clients w' = clients w"

definition handler_ok :: "handler \<Rightarrow> bool" where
  "handler_ok h \<longleftrightarrow>
     (\<forall>env x d w. world_inv w \<longrightarrow> settled w \<longrightarrow> outside x w \<longrightarrow>
        (\<forall>w'. h env x d w = Ok w' \<longrightarrow> kept x w w') \<and> (\<forall>w'. h env x d w \<noteq> Goexit w'))"

locale handler_table =
  fixes table :: "(bytes \<times> handler) list"
  assumes entries_ok: "(n, h) \<in> set table \<Longrightarrow> handler_ok h"
begin

lemma exec_ok: "handler_ok (exec_in table)"
proof -
  have h: "handler_ok h" if "map_of table cmd = Some h" for cmd h
    using that entries_ok map_of_SomeD by metis
  show ?thesis
    unfolding handler_ok_def
  proof (intro allI impI)
    fix env x d w assume pre: "world_inv w" "settled w" "outside x w"
    show "(\<forall>w'. exec_in table env x d w = Ok w' \<longrightarrow> kept x w w') \<and> (\<forall>w'. exec_in table env x d w \<noteq> Goexit w')"
    proof (cases "Type d = [] \<or> \<not> cmd_exists table (Type d)")
      case True
      with pre show ?thesis by (auto simp: exec_in_def Let_def kept_def)
    next
      case False
      then obtain g where g: "map_of table (Type d) = Some g" by (auto simp: cmd_exists_def)
      with False have "exec_in table env x d w = g env x d w" by (simp add: exec_in_def Let_def)
      with h [OF g] pre show ?thesis by (simp add: handler_ok_def)
    qed
  qed
qed

lemma exec_unknown: "map_of table (Type d) = None \<Longrightarrow> exec_in table env x d w = Ok w"
  by (simp add: exec_in_def cmd_exists_def Let_def)

end

subsection \<open>The handlers keep it\<close>

lemma outside_world_inv: "outside x w \<Longrightarrow> \<exists>k. cl w x = Some k \<and> cchan k = None \<and> x \<in> set (clients w)"
  by (auto simp: outside_def)

lemma kept_refl: "world_inv w \<Longrightarrow> settled w \<Longrightarrow> kept x w w"
  by (simp add: kept_def)

lemma kept_trans: "kept x a b \<Longrightarrow> kept x b c \<Longrightarrow> kept x a c"
  by (auto simp: kept_def intro: run_for_trans)

lemma kept_only_sends:
  assumes "only_sends clean w w'" "world_inv w" "settled w" shows "kept x w w'"
  using assms world_inv_only_sends [OF assms(1,2)] settled_only_sends [OF assms(1)]
  by (simp add: kept_def run_for_only_sends only_sends_frame)

lemma only_sends_reply:
  "only_sends clean w (sendError pk x t w)" "only_sends clean w (fst (sendJSON pk x d w))"
proof -
  have c: "clean e" if "Encode d = Some e" for d e
    using clean_mustEncode [of d] that by (simp add: mustEncode_def)
  show "only_sends clean w (sendError pk x t w)" "only_sends clean w (fst (sendJSON pk x d w))"
    by (auto simp: sendError_def sendJSON_def c split: option.split intro!: only_sends_client_Send)
qed

lemma minor_kept:
  assumes "world_inv w" "settled w" "minor_update f" "cl w x = Some k" "cchan k = None"
  shows "kept x w (upd_cl x f w)" and "outside x w \<Longrightarrow> outside x (upd_cl x f w)"
proof -
  from assms(3) obtain a t v where fk: "f k = k\<lparr>connectionType := t, version := v, auth := a\<rparr>"
    unfolding minor_update_def by blast
  have "run_for x w (upd_cl x f w)"
    by (rule run_for_local) (use assms(4) fk in \<open>auto simp: same_identity_def names_kept_def\<close>)
  with world_inv_minor [OF assms(1,3,4,5)] assms(2) show "kept x w (upd_cl x f w)"
    by (simp add: kept_def)
  show "outside x w \<Longrightarrow> outside x (upd_cl x f w)"
    using assms(4,5) fk by (simp add: outside_def)
qed

text \<open>
  What the first half of \<open>join\<close> has settled when it goes on: the name is not empty, and a
  password comes with the lock.
\<close>

definition join_args :: "cont \<Rightarrow> bool" where
  "join_args c \<longleftrightarrow> (case c of JoinFound f n p l \<Rightarrow> n \<noteq> [] \<and> (p \<noteq> [] \<longrightarrow> l) | _ \<Rightarrow> True)"

lemma join_begin_ok:
  assumes inv: "world_inv w" "settled w" and out: "outside x w"
    and b: "join_begin pk x d w = (w', c)"
  shows "kept x w w'" "join_args c" "c \<noteq> Finished \<Longrightarrow> outside x w'"
    "c = JoinFound f n p l \<Longrightarrow> f = FindChannel n w'"
proof -
  from outside_world_inv [OF out] obtain k where k: "cl w x = Some k" "cchan k = None" "x \<in> set (clients w)"
    by blast
  obtain n p l where nm: "getChannelParams (Channel d) = (n, p, l)" by (cases "getChannelParams (Channel d)") auto
  note m = minor_kept [OF inv minor_updates(2) k(1,2)]
  have e: "kept x w (upd_cl x Close (sendError pk x t w))" for t
    by (rule kept_only_sends [OF only_sends_trans [OF only_sends_reply(1) only_sends_Close] inv])
  show "kept x w w'" "join_args c" "c \<noteq> Finished \<Longrightarrow> outside x w'"
    "c = JoinFound f n' p' l' \<Longrightarrow> f = FindChannel n' w'" for f n' p' l'
    using b k nm m e out getChannelParams_password_locked [OF nm]
    by (auto simp: join_begin_def Let_def join_args_def split: if_splits)
qed

lemma join_commit_ok:
  assumes inv: "world_inv w" "settled w" and out: "outside x w" and args: "join_args (JoinFound f n p l)"
    and ok: "join_commit pk x f n p l w = Ok w'"
  shows "kept x w w'"
proof -
  from outside_world_inv [OF out] obtain k where k: "cl w x = Some k" "cchan k = None" "x \<in> set (clients w)"
    by blast
  show ?thesis
  proof (cases f)
    case (Some r)
    with ok have A: "Add pk r x p w = Ok w'" by (simp add: join_commit_def)
    from world_inv_Add [OF inv(1) k A] settled_Add [OF A inv(2)] run_for_Add [OF A] Add_tables(2) [OF A]
    show ?thesis by (simp add: kept_def)
  next
    case None
    with ok have A: "AddChannel pk n p l x w = Ok w'" by (simp add: join_commit_def)
    from args have "p \<noteq> [] \<Longrightarrow> l" "n \<noteq> []" by (auto simp: join_args_def)
    from AddChannel_inv(1-4) [OF inv(1) k this A] inv(2) show ?thesis by (simp add: kept_def)
  qed
qed

lemma CloseGracefully_kept:
  assumes inv: "world_inv w" "settled w" and k: "cl w x = Some k" and c: "CloseGracefully pick k = Ok k'"
  shows "kept x w (upd_cl x (\<lambda>_. k') w)"
proof -
  have k': "k' = k \<or> k' = Close k \<or> k' = k\<lparr>sd := sd k @ [[]]\<rparr>"
    using c by (auto simp: CloseGracefully_def split: if_splits)
  have ok: "client_ok w x k" using world_invD(1) [OF inv(1) k] .
  have "client_ok w x k'"
    using ok k' client_inv_CloseGracefully [OF _ c]
    by (auto simp: client_ok_def Close_def idle_flushed_def)
  moreover have "run_for x w (upd_cl x (\<lambda>_. k') w)"
    by (rule run_for_local) (use k k' in \<open>auto simp: same_identity_def Close_def names_kept_def\<close>)
  moreover have "cid k' = cid k" "cchan k' = cchan k" "auth k' = auth k"
    using k' by (auto simp: Close_def)
  ultimately show ?thesis
    using world_inv_upd [OF inv(1) k, of "\<lambda>_. k'"] inv(2) by (simp add: kept_def)
qed

lemma generate_begin_kept:
  assumes inv: "world_inv w" "settled w" and b: "generate_begin env x w = Ok (w', c)"
  shows "kept x w w'" "c = Finished \<or> c = ThenClose"
  using b kept_only_sends [OF only_sends_reply(2) inv] kept_only_sends [OF only_sends_Close inv]
  by (auto simp: generate_begin_def split: option.splits sum.splits)

lemma client_CloseGracefully_kept:
  "world_inv w \<Longrightarrow> settled w \<Longrightarrow> client_CloseGracefully pick x w = Ok w' \<Longrightarrow> kept x w w'"
  by (auto simp: client_CloseGracefully_def intro: CloseGracefully_kept split: option.splits go.splits)

lemma cmd_finish_kept:
  assumes inv: "world_inv w" "settled w" and a: "join_args c" and o: "c \<noteq> Finished \<Longrightarrow> c \<noteq> ThenClose \<Longrightarrow> outside x w"
    and ok: "cmd_finish env x (w, c) = Ok w'"
  shows "kept x w w'"
proof (cases c)
  case Finished
  with ok inv show ?thesis by (simp add: cmd_finish_def kept_refl)
next
  case (JoinFound f n p l)
  with ok a o show ?thesis by (auto simp: cmd_finish_def intro: join_commit_ok [OF inv])
next
  case ThenClose
  with ok show ?thesis by (auto simp: cmd_finish_def intro: client_CloseGracefully_kept [OF inv])
qed

lemma second_part_no_Goexit:
  "join_commit pk x f n p l w \<noteq> Goexit w'" "client_CloseGracefully b x w \<noteq> Goexit w'"
proof -
  have "AddChannel pk n p l x w \<noteq> Goexit w'" "Add pk q x p w \<noteq> Goexit w'" for q
    by (auto simp: AddChannel_def NewClientChannel_unfold go_bind_Goexit_iff Add_no_Goexit)
  then show "join_commit pk x f n p l w \<noteq> Goexit w'" by (auto simp: join_commit_def split: option.split)
  show "client_CloseGracefully b x w \<noteq> Goexit w'"
    by (auto simp: client_CloseGracefully_def CloseGracefully_def split: option.split go.splits if_splits)
qed

lemma cmd_finish_no_Goexit: "cmd_finish env x r \<noteq> Goexit w"
  by (auto simp: cmd_finish_def second_part_no_Goexit split: prod.split cont.split)

text \<open>A first part that keeps the contract makes a handler that keeps it.\<close>

definition part_ok :: "handler_part \<Rightarrow> bool" where
  "part_ok b \<longleftrightarrow>
     (\<forall>env x d w. world_inv w \<longrightarrow> settled w \<longrightarrow> outside x w \<longrightarrow>
        (\<forall>w' c. b env x d w = Ok (w', c) \<longrightarrow>
           kept x w w' \<and> join_args c \<and> (c \<noteq> Finished \<longrightarrow> c \<noteq> ThenClose \<longrightarrow> outside x w')) \<and>
        (\<forall>r. b env x d w \<noteq> Goexit r))"

lemma part_okD:
  assumes "part_ok b" "world_inv w" "settled w" "outside x w"
  shows "b env x d w = Ok (w', c) \<Longrightarrow>
      kept x w w' \<and> join_args c \<and> (c \<noteq> Finished \<longrightarrow> c \<noteq> ThenClose \<longrightarrow> outside x w')"
    and "b env x d w \<noteq> Goexit r"
  using assms unfolding part_ok_def by blast+

lemma run_parts_ok: assumes b: "part_ok b" shows "handler_ok (run_parts b)"
  unfolding handler_ok_def
proof (intro allI impI)
  fix env x d w assume pre: "world_inv w" "settled w" "outside x w"
  note P = part_okD [OF b pre, where env = env and d = d]
  have "kept x w w'" if "run_parts b env x d w = Ok w'" for w'
  proof -
    from that obtain w1 c where p: "b env x d w = Ok (w1, c)" "cmd_finish env x (w1, c) = Ok w'"
      by (auto simp: run_parts_def split: go.splits)
    from P(1) [OF p(1)] have k: "kept x w w1" "join_args c" "c \<noteq> Finished \<Longrightarrow> c \<noteq> ThenClose \<Longrightarrow> outside x w1"
      by auto
    from k(1) have "world_inv w1" "settled w1" by (simp_all add: kept_def)
    from kept_trans [OF k(1) cmd_finish_kept [OF this k(2,3) p(2)]] show ?thesis .
  qed
  moreover have "run_parts b env x d w \<noteq> Goexit w'" for w'
    using P(2) by (auto simp: run_parts_def cmd_finish_no_Goexit split: go.split)
  ultimately show "(\<forall>w'. run_parts b env x d w = Ok w' \<longrightarrow> kept x w w') \<and> (\<forall>w'. run_parts b env x d w \<noteq> Goexit w')"
    by blast
qed

lemma join_part_ok: "part_ok (\<lambda>env x d w. Ok (join_begin (ce_picks env) x d w))"
  unfolding part_ok_def using join_begin_ok by blast

lemma generate_part_ok: "part_ok (\<lambda>env x d w. generate_begin env x w)"
  unfolding part_ok_def
  using generate_begin_kept by (fastforce simp: join_args_def generate_begin_def split: option.splits sum.splits)

lemma protocol_version_ok: "handler_ok protocol_version_handler"
  unfolding handler_ok_def protocol_version_handler_def
  using minor_kept(1) [OF _ _ minor_updates(3)] by (auto simp: outside_def intro: kept_refl)

interpretation cmds: handler_table command
proof
  fix n h assume "(n, h) \<in> set command"
  then have "h = join_handler \<or> h = protocol_version_handler \<or> h = generate_key_handler"
    by (auto simp: command_def cmd_add_def)
  then show "handler_ok h"
    using run_parts_ok [OF join_part_ok] run_parts_ok [OF generate_part_ok] protocol_version_ok
    by (auto simp: join_handler_def generate_key_handler_def)
qed

lemma cmd_exec_ok: "handler_ok cmd_exec"
  unfolding cmd_exec_def by (rule cmds.exec_ok)

lemma cmd_begin_ok: "part_ok cmd_begin"
proof -
  let ?pv = "\<lambda>env x d w. case protocol_version_handler env x d w of Ok w' \<Rightarrow> Ok (w', Finished) | _ \<Rightarrow> Hang"
  let ?none = "\<lambda>env x d w. Ok (w, Finished)"
  let ?join = "\<lambda>env x d w. Ok (join_begin (ce_picks env) x d w)"
  let ?gen = "\<lambda>env x d w. generate_begin env x w"
  have pv: "part_ok ?pv"
    using protocol_version_ok unfolding part_ok_def handler_ok_def
    by (auto simp: join_args_def split: go.splits)
  have none: "part_ok ?none"
    by (simp add: part_ok_def join_args_def kept_refl)
  have "\<exists>b. part_ok b \<and> cmd_begin env x d w = b env x d w" for env x d w
  proof -
    consider "cmd_begin env x d w = ?join env x d w" | "cmd_begin env x d w = ?pv env x d w"
      | "cmd_begin env x d w = ?gen env x d w" | "cmd_begin env x d w = ?none env x d w"
      unfolding cmd_begin_def by metis
    then show ?thesis using pv none join_part_ok generate_part_ok by cases blast+
  qed
  then show ?thesis
    unfolding part_ok_def by metis
qed

end
