(* ===== verification/Serve.thy ===== *)
theory Serve
  imports Commands
begin

text \<open>
  The server loop of one connection: accepting it (\<open>accept\<close> of \<open>server/connection.go\<close>),
  the reader half of \<open>listen\<close> (\<open>server/client.go\<close>) that cuts the byte stream into
  messages, the dispatch of one message (\<open>MessageReceived\<close> of \<open>server/server.go\<close>) and
  the deferred clean-up.
\<close>

section \<open>Cutting the stream into messages\<close>

text \<open>\<open>bufio.Reader.ReadBytes\<close>: up to and with the delimiter; without one it is an error.\<close>

fun ReadBytes :: "char \<Rightarrow> bytes \<Rightarrow> (bytes \<times> bytes) option" where
  "ReadBytes t [] = None"
| "ReadBytes t (c # s) =
     (if c = t then Some ([c], s) else map_option (map_prod (Cons c) id) (ReadBytes t s))"

datatype frame_action = SkipEmpty | TooMuchData | Received bytes

definition handle_frame :: "int \<Rightarrow> bytes \<Rightarrow> frame_action" where
  "handle_frame maxMsgLen message =
     (if length message = 1 then SkipEmpty
      else if 0 < maxMsgLen \<and> maxMsgLen < int (length message) - 1 then TooMuchData
      else Received (TrimRight1 (CHR 0x0A) message))"

definition read_line :: "char \<Rightarrow> bytes \<Rightarrow> (bytes \<times> bytes) option" where
  "read_line t s = map_option (map_prod butlast id) (ReadBytes t s)"

lemma ReadBytes_append: "t \<notin> set m \<Longrightarrow> ReadBytes t (m @ t # rest) = Some (m @ [t], rest)"
  by (induction m) auto

lemma ReadBytes_Some:
  "ReadBytes t s = Some (m, rest) \<Longrightarrow> \<exists>b. m = b @ [t] \<and> t \<notin> set b \<and> s = b @ t # rest"
proof (induction s arbitrary: m)
  case Nil
  then show ?case by simp
next
  case (Cons c s)
  show ?case
  proof (cases "c = t")
    case True
    with Cons.prems show ?thesis by auto
  next
    case False
    with Cons.prems obtain m' where "ReadBytes t s = Some (m', rest)" "m = c # m'" by auto
    with Cons.IH [of m'] False show ?thesis by (metis append_Cons set_ConsD)
  qed
qed

lemma ReadBytes_None_iff: "ReadBytes t s = None \<longleftrightarrow> t \<notin> set s"
  by (induction s) auto

interpretation line: token_codec "\<lambda>m. m @ [t]" "read_line t" "\<lambda>m. t \<notin> set m" for t
proof
  show "t \<notin> set m \<Longrightarrow> read_line t ((m @ [t]) @ rest) = Some (m, rest)" for m rest
    by (simp add: read_line_def ReadBytes_append)
  show "read_line t s = Some (m, rest) \<Longrightarrow> length rest < length s" for s m rest
    by (auto simp: read_line_def dest!: ReadBytes_Some)
qed

text \<open>What the reader hands on is never empty and holds no terminator.\<close>

lemma handle_frame_clean:
  assumes "ReadBytes EndMessage s = Some (m, rest)" "handle_frame mx m = Received b"
  shows "clean b" "m = b @ [EndMessage]" "0 < mx \<Longrightarrow> int (length b) \<le> mx"
proof -
  from ReadBytes_Some [OF assms(1)] obtain b' where b': "m = b' @ [EndMessage]" "EndMessage \<notin> set b'"
    by blast
  then have "TrimRight1 EndMessage m = b'" by (simp add: TrimRight1_absent)
  with assms(2) b' show "clean b" "m = b @ [EndMessage]" "0 < mx \<Longrightarrow> int (length b) \<le> mx"
    by (auto simp: handle_frame_def clean_def EndMessage_def split: if_splits)
qed

text \<open>The messages of a byte stream, and whether the reader gave up on one.\<close>

fun cut_frames :: "int \<Rightarrow> bytes list \<Rightarrow> bytes list \<times> bool" where
  "cut_frames mx [] = ([], False)"
| "cut_frames mx (m # ms) =
     (case handle_frame mx m of
        SkipEmpty \<Rightarrow> cut_frames mx ms
      | TooMuchData \<Rightarrow> ([], True)
      | Received b \<Rightarrow> map_prod (Cons b) id (cut_frames mx ms))"

definition messages_of :: "int \<Rightarrow> bytes \<Rightarrow> bytes list \<times> bool" where
  "messages_of mx s = cut_frames mx (fst (read_all (ReadBytes EndMessage) s))"

definition fits :: "int \<Rightarrow> bytes \<Rightarrow> bool" where
  "fits mx b \<longleftrightarrow> 0 < mx \<longrightarrow> int (length b) \<le> mx"

interpretation rawline: token_codec "\<lambda>m. m" "ReadBytes t" "\<lambda>m. \<exists>b. m = b @ [t] \<and> t \<notin> set b" for t
proof
  show "\<exists>b. m = b @ [t] \<and> t \<notin> set b \<Longrightarrow> ReadBytes t (m @ rest) = Some (m, rest)" for m rest
    using ReadBytes_append [of t] by force
  show "ReadBytes t s = Some (m, rest) \<Longrightarrow> length rest < length s" for s m rest
    by (auto dest!: ReadBytes_Some)
qed

lemma cut_frames_clean:
  "list_all clean bs \<Longrightarrow> list_all (fits mx) bs \<Longrightarrow> cut_frames mx (map (\<lambda>b. b @ [EndMessage]) bs) = (bs, False)"
proof (induction bs)
  case Nil
  then show ?case by simp
next
  case (Cons b bs)
  then have "handle_frame mx (b @ [EndMessage]) = Received b"
    using TrimRight1_absent [of EndMessage b] TrimRight1_snoc_same [of EndMessage b]
    by (auto simp: handle_frame_def clean_def fits_def EndMessage_def)
  with Cons show ?case by simp
qed

lemma messages_of_frames:
  assumes "list_all clean bs" "list_all (fits mx) bs" "EndMessage \<notin> set lo"
  shows "messages_of mx (frames EndMessage bs @ lo) = (bs, False)"
proof -
  let ?ms = "map (\<lambda>b. b @ [EndMessage]) bs"
  have "list_all (\<lambda>m. \<exists>b. m = b @ [EndMessage] \<and> EndMessage \<notin> set b) ?ms"
    using assms(1) by (auto simp: list_all_iff clean_def)
  from rawline.read_all_emit [OF this, of lo] assms(3)
  have "read_all (ReadBytes EndMessage) (concat ?ms @ lo) = (?ms, lo)"
    by (simp add: ReadBytes_None_iff)
  moreover have "frames EndMessage bs = concat ?ms"
    using assms(1) by (induction bs) (auto simp: frame_def clean_def)
  ultimately show ?thesis using cut_frames_clean [OF assms(1,2)] by (simp add: messages_of_def)
qed

text \<open>Clean messages in front of a stream are cut off it one by one.\<close>

lemma messages_of_prefix:
  assumes "list_all clean bs" "list_all (fits mx) bs"
  shows "messages_of mx (frames EndMessage bs @ s) = map_prod ((@) bs) id (messages_of mx s)"
  using assms
proof (induction bs)
  case Nil
  then show ?case by (simp add: map_prod_def split: prod.split)
next
  case (Cons b bs)
  then have b: "EndMessage \<notin> set b" "b \<noteq> []" "handle_frame mx (b @ [EndMessage]) = Received b"
    using TrimRight1_absent [of EndMessage b] TrimRight1_snoc_same [of EndMessage b]
    by (auto simp: handle_frame_def clean_def fits_def EndMessage_def)
  from rawline.read_all_step [OF ReadBytes_append [OF b(1), of "frames EndMessage bs @ s"]] b Cons show ?case
    by (simp add: messages_of_def frame_def map_prod_def split: prod.splits)
qed

section \<open>One message\<close>

text \<open>
  \<open>MessageReceived\<close> up to the point where a command may be interrupted. A message that
  is not a JSON object is relayed as it is, without the notice for a lonely sender.
\<close>

definition receive_begin :: "cmd_env \<Rightarrow> nat \<Rightarrow> bytes \<Rightarrow> world \<Rightarrow> (world \<times> cont) go" where
  "receive_begin env x pmsg w =
     (case cl w x of None \<Rightarrow> Panic NilDereference
      | Some k \<Rightarrow>
          if \<not> FindClient x w then Goexit (w, Finished)
          else
            (case cchan k of
               Some r \<Rightarrow>
                 (case JsonAddOrigin pmsg (cid k) of
                    (m, Some e) \<Rightarrow> Ok (SendAll (ce_picks env) r m (Some x) w, Finished)
                  | (m, None) \<Rightarrow> Ok (SendOthers (ce_picks env) r m (Some x) w, Finished))
             | None \<Rightarrow>
                 (case Decode pmsg of
                    Inl e \<Rightarrow> Ok (w, Finished)
                  | Inr d \<Rightarrow> cmd_begin env x d w)))"

definition MessageReceived :: "cmd_env \<Rightarrow> nat \<Rightarrow> bytes \<Rightarrow> world \<Rightarrow> world go" where
  "MessageReceived env x pmsg w =
     (case cl w x of None \<Rightarrow> Panic NilDereference
      | Some k \<Rightarrow>
          if \<not> FindClient x w then Goexit w
          else
            (case cchan k of
               Some r \<Rightarrow>
                 (case JsonAddOrigin pmsg (cid k) of
                    (m, Some e) \<Rightarrow> Ok (SendAll (ce_picks env) r m (Some x) w)
                  | (m, None) \<Rightarrow> Ok (SendOthers (ce_picks env) r m (Some x) w))
             | None \<Rightarrow>
                 (case Decode pmsg of
                    Inl e \<Rightarrow> Ok w
                  | Inr d \<Rightarrow> cmd_exec env x d w)))"

lemma MessageReceived_parts:
  "MessageReceived env x pmsg w =
     (case receive_begin env x pmsg w of
        Ok r \<Rightarrow> cmd_finish env x r
      | Panic p \<Rightarrow> Panic p | Goexit r \<Rightarrow> Goexit (fst r) | Hang \<Rightarrow> Hang)"
  by (auto simp: MessageReceived_def receive_begin_def cmd_exec_parts run_parts_def cmd_finish_def
      split: option.split prod.split sum.split)

section \<open>The reader loop and its clean-up\<close>

fun serve_frames :: "(nat \<Rightarrow> cmd_env) \<Rightarrow> int \<Rightarrow> nat \<Rightarrow> bytes list \<Rightarrow> world \<Rightarrow> world go" where
  "serve_frames envs mx x [] w = Ok w"
| "serve_frames envs mx x (m # ms) w =
     (case handle_frame mx m of
        SkipEmpty \<Rightarrow> serve_frames (\<lambda>i. envs (Suc i)) mx x ms w
      | TooMuchData \<Rightarrow> Ok (upd_cl x Close w)
      | Received b \<Rightarrow>
          go_bind (MessageReceived (envs 0) x b w) (serve_frames (\<lambda>i. envs (Suc i)) mx x ms))"

definition read_loop :: "(nat \<Rightarrow> cmd_env) \<Rightarrow> int \<Rightarrow> nat \<Rightarrow> bytes \<Rightarrow> world \<Rightarrow> world go" where
  "read_loop envs mx x input w = serve_frames envs mx x (fst (read_all (ReadBytes EndMessage) input)) w"

text \<open>
  The deferred \<open>Close\<close> and \<open>RemoveClient\<close> run after a return and after \<open>Goexit\<close>
  alike; a panic ends the process.
\<close>

definition cleanup :: "picks \<Rightarrow> nat \<Rightarrow> world \<Rightarrow> world go" where
  "cleanup pk x w = RemoveClient pk x (upd_cl x Close w)"

definition listen :: "(nat \<Rightarrow> cmd_env) \<Rightarrow> picks \<Rightarrow> int \<Rightarrow> nat \<Rightarrow> bytes \<Rightarrow> world \<Rightarrow> world go" where
  "listen envs pk mx x input w =
     (case read_loop envs mx x input w of
        Ok w1 \<Rightarrow> cleanup pk x w1
      | Goexit w1 \<Rightarrow> (case cleanup pk x w1 of Ok w2 \<Rightarrow> Goexit w2 | r \<Rightarrow> r)
      | Panic p \<Rightarrow> Panic p
      | Hang \<Rightarrow> Hang)"

section \<open>Accepting\<close>

definition accept :: "bytes \<Rightarrow> nat \<Rightarrow> bool \<Rightarrow> world \<Rightarrow> nat \<times> world" where
  "accept addr s pd w =
     (let x = next_cl w;
          w1 = w\<lparr>cl := (cl w)(x \<mapsto> new_client EndMessage addr s pd), next_cl := Suc x\<rparr>
      in (x, AddClient x w1))"

section \<open>The contract of the loop\<close>

definition connected :: "nat \<Rightarrow> world \<Rightarrow> bool" where
  "connected x w \<longleftrightarrow> (\<exists>k. cl w x = Some k) \<and> x \<in> set (clients w)"

lemma connected_kept: "connected x w \<Longrightarrow> kept x w w' \<Longrightarrow> connected x w'"
  by (auto simp: connected_def kept_def run_for_def option_rel_Some1)

lemma clean_JsonAddOrigin: "clean m \<Longrightarrow> clean (fst (JsonAddOrigin m i))"
  using JsonAddOrigin_bytes [of EndMessage m i] JsonAddOrigin_nonempty [of m i]
  by (auto simp: clean_def EndMessage_def)

lemma only_sends_relay:
  assumes "clean m"
  shows "only_sends clean w (SendAll pk r (fst (JsonAddOrigin m i)) e w)"
    and "only_sends clean w (SendOthers pk r (fst (JsonAddOrigin m i)) e w)"
  using clean_JsonAddOrigin [OF assms, of i]
  by (auto simp: SendAll_def intro: only_sends_AllLocked only_sends_SendOthers clean_constants)

lemma receive_begin_ok:
  assumes inv: "world_inv w" "settled w" and con: "connected x w" and msg: "clean pmsg"
  shows "receive_begin env x pmsg w = Ok (w', c) \<Longrightarrow>
      kept x w w' \<and> join_args c \<and> (c \<noteq> Finished \<longrightarrow> c \<noteq> ThenClose \<longrightarrow> outside x w')"
    and "receive_begin env x pmsg w \<noteq> Goexit r" and "receive_begin env x pmsg w \<noteq> Panic p"
proof -
  from con obtain k where k: "cl w x = Some k" "FindClient x w"
    by (auto simp: connected_def FindClient_def)
  have out: "cchan k = None \<Longrightarrow> outside x w"
    using con k by (simp add: connected_def outside_def)
  have relay: "kept x w (SendAll pk r m' (Some x) w)" "kept x w (SendOthers pk r m' (Some x) w)"
    if "JsonAddOrigin pmsg i = (m', e)" for pk r m' i e
    using that kept_only_sends [OF only_sends_relay(1) [OF msg, of w pk r i "Some x"] inv]
      kept_only_sends [OF only_sends_relay(2) [OF msg, of w pk r i "Some x"] inv] by simp_all
  show "receive_begin env x pmsg w = Ok (w', c) \<Longrightarrow>
      kept x w w' \<and> join_args c \<and> (c \<noteq> Finished \<longrightarrow> c \<noteq> ThenClose \<longrightarrow> outside x w')"
  proof (cases "cchan k")
    case (Some r)
    assume "receive_begin env x pmsg w = Ok (w', c)"
    with Some k relay show ?thesis
      by (auto simp: receive_begin_def join_args_def split: prod.splits option.splits)
  next
    case None
    assume "receive_begin env x pmsg w = Ok (w', c)"
    with None k(1,2) show ?thesis
      using part_okD(1) [OF cmd_begin_ok inv out [OF None]] kept_refl [OF inv, of x]
      by (auto simp: receive_begin_def join_args_def split: sum.splits)
  qed
  have "cmd_begin env x d w \<noteq> Goexit r" "cmd_begin env x d w \<noteq> Panic p" for d
    by (auto simp: cmd_begin_def generate_begin_def protocol_version_handler_def split: option.split sum.split)
  with k show "receive_begin env x pmsg w \<noteq> Goexit r" "receive_begin env x pmsg w \<noteq> Panic p"
    by (auto simp: receive_begin_def split: option.split prod.split sum.split)
qed

lemma receive_begin_found:
  assumes "receive_begin env x pmsg w = Ok (w', c)" "c = JoinFound f n p l"
  shows "f = FindChannel n w'"
proof -
  from assms obtain d where b: "cmd_begin env x d w = Ok (w', c)"
    by (auto simp: receive_begin_def split: option.splits if_splits prod.splits sum.splits)
  then have "join_begin (ce_picks env) x d w = (w', c)"
    using assms(2)
    by (auto simp: cmd_begin_def generate_begin_def protocol_version_handler_def
        split: if_splits option.splits sum.splits)
  with assms(2) show ?thesis
    by (auto simp: join_begin_def Let_def split: if_splits prod.splits)
qed

text \<open>A connected client's message, run without interruption.\<close>

lemma MessageReceived_kept:
  assumes inv: "world_inv w" "settled w" and con: "connected x w" and msg: "clean pmsg"
  shows "MessageReceived env x pmsg w = Ok w' \<Longrightarrow> kept x w w'"
    and "MessageReceived env x pmsg w \<noteq> Goexit w'"
proof -
  note b = receive_begin_ok [OF inv con msg, where env = env]
  show "MessageReceived env x pmsg w = Ok w' \<Longrightarrow> kept x w w'"
  proof -
    assume "MessageReceived env x pmsg w = Ok w'"
    then obtain w1 c where p: "receive_begin env x pmsg w = Ok (w1, c)" "cmd_finish env x (w1, c) = Ok w'"
      by (auto simp: MessageReceived_parts split: go.splits)
    from b(1) [OF p(1)] have k: "kept x w w1" "join_args c" "c \<noteq> Finished \<Longrightarrow> c \<noteq> ThenClose \<Longrightarrow> outside x w1"
      by auto
    from k(1) have "world_inv w1" "settled w1" by (simp_all add: kept_def)
    from kept_trans [OF k(1) cmd_finish_kept [OF this k(2,3) p(2)]] show ?thesis .
  qed
  show "MessageReceived env x pmsg w \<noteq> Goexit w'"
    using b(2) by (auto simp: MessageReceived_parts cmd_finish_no_Goexit split: go.split)
qed

section \<open>Numbers of clients\<close>

text \<open>
  The n-th accepted client (from 0) has the number n + 1 as a 32-bit signed integer, so numbers
  repeat after \<open>2 ^ 32\<close> connections and are negative from \<open>2 ^ 31\<close> on.
\<close>

definition nth_id :: "nat \<Rightarrow> int" where
  "nth_id x = sint (of_nat (Suc x) :: 32 word)"

definition ids_inv :: "world \<Rightarrow> bool" where
  "ids_inv w \<longleftrightarrow>
     lastID w = of_nat (next_cl w) \<and> (\<forall>x k. cl w x = Some k \<longrightarrow> cid k = nth_id x)"

lemma nth_id_small:
  assumes "x < 2 ^ 31 - 1" shows "nth_id x = int x + 1"
proof -
  from assms have "int (Suc x) < 2147483648" by simp
  then have "signed_take_bit 31 (int (Suc x)) = int (Suc x)"
    by (simp add: signed_take_bit_int_eq_self_iff)
  then have "sint (of_nat (Suc x) :: 32 word) = int (Suc x)"
    by (simp only: signed_of_nat) simp
  then show ?thesis by (simp add: nth_id_def)
qed

lemma nth_id_inj:
  assumes "x < 2 ^ 32" "y < 2 ^ 32" "nth_id x = nth_id y" shows "x = y"
proof -
  from assms(3) have "(of_nat (Suc x) :: 32 word) = of_nat (Suc y)"
    unfolding nth_id_def by (rule signed_word_eqI)
  then have "(of_nat x :: 32 word) = of_nat y" by simp
  then have "unat (of_nat x :: 32 word) = unat (of_nat y :: 32 word)" by simp
  with assms(1,2) show "x = y" by (simp add: unat_of_nat)
qed

lemma ids_inv_run_for:
  assumes "run_for x w w'" "ids_inv w" shows "ids_inv w'"
proof -
  have "cid k' = nth_id y" if k': "cl w' y = Some k'" for y k'
  proof (cases "y = x")
    case True
    with k' assms show ?thesis by (auto simp: run_for_def ids_inv_def same_identity_def option_rel_Some2)
  next
    case False
    with assms(1) have "rel_option (after_sends clean) (cl w y) (cl w' y)" by (simp add: run_for_def)
    with k' obtain k where k: "cl w y = Some k" "after_sends clean k k'"
      by (auto simp: option_rel_Some2)
    then have "cid k' = cid k" by (auto simp: after_sends_def sends_only_fields)
    with k assms(2) show ?thesis by (simp add: ids_inv_def)
  qed
  with assms show ?thesis by (simp add: ids_inv_def run_for_def)
qed

lemma accept_simps:
  assumes "accept addr s pd w = (x, w')"
  shows "x = next_cl w" "next_cl w' = Suc (next_cl w)" "lastID w' = lastID w + 1" "ch w' = ch w"
    "channels w' = channels w" "clients w' = List.insert x (clients w)"
    "cl w' y = (if y = x then Some (SetID (sint (lastID w + 1)) (new_client EndMessage addr s pd)) else cl w y)"
  using assms by (auto simp: accept_def AddClient_def Let_def)

lemma ids_inv_accept:
  assumes a: "accept addr s pd w = (x, w')" and "ids_inv w" shows "ids_inv w'"
proof -
  note A = accept_simps [OF a]
  from assms(2) have "sint (lastID w + 1) = nth_id x"
    by (simp add: ids_inv_def nth_id_def A(1) add.commute)
  with assms(2) A(2,3,7) show ?thesis
    by (auto simp: ids_inv_def SetID_def add.commute)
qed

lemma client_ok_new: "next_cl w' = Suc x \<Longrightarrow> client_ok w' x (new_client EndMessage addr s pd)"
  using client_inv_new by (simp add: client_ok_def new_client_def idle_flushed_def new_writer_def)

lemma world_inv_accept:
  assumes inv: "world_inv w" and a: "accept addr s pd w = (x, w')"
  shows "world_inv w'" "settled w \<Longrightarrow> settled w'" "registered w \<Longrightarrow> registered w'" "connected x w'"
proof -
  let ?k = "new_client EndMessage addr s pd"
  let ?w1 = "w\<lparr>cl := (cl w)(next_cl w \<mapsto> ?k), next_cl := Suc (next_cl w)\<rparr>"
  note I = world_invD [OF inv]
  have w': "x = next_cl w" "w' = AddClient x ?w1" using a by (auto simp: accept_def Let_def)
  have mem: "members r ?w1 = members r w" for r by (simp add: members_def)
  have fresh: "cl w (next_cl w) = None"
    using I(1) [of "next_cl w"] by (cases "cl w (next_cl w)") (auto simp: client_ok_def)
  have "client_ok ?w1 y j" if "cl ?w1 y = Some j" for y j
  proof (cases "y = next_cl w")
    case True
    with that have "j = ?k" by simp
    with True show ?thesis using client_ok_new [of ?w1 y addr s pd] by simp
  next
    case False
    with that I(1) [of y j] show ?thesis by (simp add: client_ok_def mem)
  qed
  moreover have "channel_ok ?w1 r c" if "ch ?w1 r = Some c" for r c
  proof -
    from that have c: "ch w r = Some c" by simp
    have "member_ok ?w1 r c p" if "member_ok w r c p" for p
      using that fresh by (auto simp: member_ok_def)
    with I(2) [OF c] show ?thesis by (simp add: channel_ok_def mem)
  qed
  ultimately have "world_inv ?w1" using inv unfolding world_inv_def by simp
  from world_inv_AddClient [OF this, of x ?k] show "world_inv w'"
    unfolding w'(2) using w'(1) by (simp add: new_client_def)
  show "settled w \<Longrightarrow> settled w'" "registered w \<Longrightarrow> registered w'" "connected x w'"
    using accept_simps [OF a] by (simp_all add: settled_def registered_def connected_def)
qed

end
