(* ===== verification/System.thy ===== *)
theory System
  imports Serve
begin

text \<open>
  The whole server as a transition system. Each connection runs a reader goroutine, a writer
  goroutine and a goroutine for ping and teardown; their critical sections interleave freely.
  A command that takes locks twice is two steps, so every race the locks leave open is a run
  of this system. A panic that nobody recovers ends the process.
\<close>

section \<open>States\<close>

text \<open>Where the reader goroutine of a connection is.\<close>

datatype stage =
    Reading
  | Joining "nat option" bytes bytes bool
  | Closing
  | Leaving
  | Deleting
  | Gone

record system =
  sw :: world
  stages :: "nat \<Rightarrow> stage option"
  stopped :: "nat \<Rightarrow> bool"
  crash :: "go_panic option"

definition empty_world :: "bytes \<Rightarrow> bool \<Rightarrow> world" where
  "empty_world m d =
     \<lparr>lastID = 0, clients = [], channels = [], cl = Map.empty, ch = Map.empty, next_cl = 0, next_ch = 0,
      motd = m, motdAlwaysDisplay = d\<rparr>"

definition initial :: "bytes \<Rightarrow> bool \<Rightarrow> system" where
  "initial m d =
     \<lparr>sw = empty_world m d, stages = Map.empty, stopped = (\<lambda>_. False), crash = None\<rparr>"

definition set_stage :: "nat \<Rightarrow> stage \<Rightarrow> world \<Rightarrow> system \<Rightarrow> system" where
  "set_stage x st w sy = sy\<lparr>sw := w, stages := (stages sy)(x \<mapsto> st)\<rparr>"

text \<open>
  How a call of the reader goroutine ends: it goes on, waits before its second critical
  section, is ended by \<open>Goexit\<close> (whose first deferred call is \<open>Close\<close>), or takes the
  process down. A call that never returns is no step.
\<close>

fun settle :: "nat \<Rightarrow> (world \<times> cont) go \<Rightarrow> system \<Rightarrow> system option" where
  "settle x (Ok (w, Finished)) sy = Some (set_stage x Reading w sy)"
| "settle x (Ok (w, JoinFound f n p l)) sy = Some (set_stage x (Joining f n p l) w sy)"
| "settle x (Ok (w, ThenClose)) sy = Some (set_stage x Closing w sy)"
| "settle x (Panic p) sy = Some (sy\<lparr>crash := Some p\<rparr>)"
| "settle x (Goexit (w, c)) sy = Some (set_stage x Leaving (upd_cl x Close w) sy)"
| "settle x Hang sy = None"

fun finished :: "world go \<Rightarrow> (world \<times> cont) go" where
  "finished (Ok w) = Ok (w, Finished)"
| "finished (Panic p) = Panic p"
| "finished (Goexit w) = Goexit (w, Finished)"
| "finished Hang = Hang"

definition close_all :: "nat \<Rightarrow> world \<Rightarrow> world" where
  "close_all s w = w\<lparr>cl := (\<lambda>x. map_option (\<lambda>k. if srv k = s then Close k else k) (cl w x))\<rparr>"

section \<open>Steps\<close>

text \<open>
  \<open>mx\<close> is the configured message limit. Cancelling the context of a server cancels those
  of its clients.
\<close>

inductive sys_step :: "int \<Rightarrow> system \<Rightarrow> system \<Rightarrow> bool" for mx where
  accept_step:
    "crash sy = None \<Longrightarrow> accept addr s (stopped sy s) (sw sy) = (x, w') \<Longrightarrow>
       sys_step mx sy (set_stage x Reading w' sy)"
| receive_step:
    "crash sy = None \<Longrightarrow> stages sy x = Some Reading \<Longrightarrow>
       ReadBytes EndMessage input = Some (m, rest) \<Longrightarrow> handle_frame mx m = Received b \<Longrightarrow>
       settle x (receive_begin env x b (sw sy)) sy = Some sy' \<Longrightarrow> sys_step mx sy sy'"
| commit_step:
    "crash sy = None \<Longrightarrow> stages sy x = Some (Joining f n p l) \<Longrightarrow>
       settle x (finished (join_commit pk x f n p l (sw sy))) sy = Some sy' \<Longrightarrow> sys_step mx sy sy'"
| graceful_step:
    "crash sy = None \<Longrightarrow> stages sy x = Some Closing \<Longrightarrow>
       settle x (finished (client_CloseGracefully pick x (sw sy))) sy = Some sy' \<Longrightarrow> sys_step mx sy sy'"
| hangup_step:
    "crash sy = None \<Longrightarrow> stages sy x = Some Reading \<Longrightarrow>
       sys_step mx sy (set_stage x Leaving (upd_cl x Close (sw sy)) sy)"
| leave_step:
    "crash sy = None \<Longrightarrow> stages sy x = Some Leaving \<Longrightarrow> leave_channel pk x (sw sy) = Ok w' \<Longrightarrow>
       sys_step mx sy (set_stage x Deleting w' sy)"
| leave_panic:
    "crash sy = None \<Longrightarrow> stages sy x = Some Leaving \<Longrightarrow> leave_channel pk x (sw sy) = Panic p \<Longrightarrow>
       sys_step mx sy (sy\<lparr>crash := Some p\<rparr>)"
| delete_step:
    "crash sy = None \<Longrightarrow> stages sy x = Some Deleting \<Longrightarrow>
       sys_step mx sy (set_stage x Gone (delete_client x (sw sy)) sy)"
| ping_step:
    "crash sy = None \<Longrightarrow> cl (sw sy) x = Some k \<Longrightarrow> \<not> closed k \<Longrightarrow>
       sys_step mx sy (sy\<lparr>sw := upd_cl x (ping pick) (sw sy)\<rparr>)"
| teardown_step:
    "crash sy = None \<Longrightarrow> cl (sw sy) x = Some k \<Longrightarrow> ctx_done k \<Longrightarrow> \<not> closed k \<Longrightarrow>
       sys_step mx sy (sy\<lparr>sw := upd_cl x teardown (sw sy)\<rparr>)"
| writer_run:
    "crash sy = None \<Longrightarrow> cl (sw sy) x = Some k \<Longrightarrow> writer_ready k e \<Longrightarrow>
       sys_step mx sy (sy\<lparr>sw := upd_cl x (writer_step net e) (sw sy)\<rparr>)"
| stop_step:
    "crash sy = None \<Longrightarrow>
       sys_step mx sy (sy\<lparr>sw := close_all s (sw sy), stopped := (stopped sy)(s := True)\<rparr>)"

inductive_cases sys_stepE: "sys_step mx sy sy'"
inductive_simps sys_step_crashed: "sys_step mx (sy\<lparr>crash := Some p\<rparr>) sy'"

text \<open>A crashed process does nothing more.\<close>

lemma crashed_stuck: "crash sy \<noteq> None \<Longrightarrow> \<not> sys_step mx sy sy'"
  by (auto elim: sys_stepE)

section \<open>The invariant\<close>

fun stage_ok :: "world \<Rightarrow> nat \<Rightarrow> stage \<Rightarrow> bool" where
  "stage_ok w x Reading = connected x w"
| "stage_ok w x (Joining f n p l) =
     (outside x w \<and> join_args (JoinFound f n p l) \<and>
      (case f of None \<Rightarrow> True | Some r \<Rightarrow> \<exists>c. ch w r = Some c \<and> ch_name c = n))"
| "stage_ok w x Closing = connected x w"
| "stage_ok w x Leaving = (connected x w \<and> pred_option ctx_done (cl w x))"
| "stage_ok w x Deleting = outside x w"
| "stage_ok w x Gone = (x \<notin> set (clients w) \<and> (\<exists>k. cl w x = Some k \<and> cchan k = None))"

definition sys_inv :: "system \<Rightarrow> bool" where
  "sys_inv sy \<longleftrightarrow>
     world_inv (sw sy) \<and> settled (sw sy) \<and> ids_inv (sw sy) \<and>
     (\<forall>x. stages sy x = None \<longleftrightarrow> cl (sw sy) x = None) \<and>
     (\<forall>x st. stages sy x = Some st \<longrightarrow> stage_ok (sw sy) x st)"

text \<open>What a step of somebody else leaves of a connection.\<close>

definition keeps_stage :: "nat \<Rightarrow> world \<Rightarrow> world \<Rightarrow> bool" where
  "keeps_stage y w w' \<longleftrightarrow>
     (\<forall>k. cl w y = Some k \<longrightarrow>
        (\<exists>k'. cl w' y = Some k' \<and> cchan k' = cchan k \<and> (ctx_done k \<longrightarrow> ctx_done k'))) \<and>
     (y \<in> set (clients w') \<longleftrightarrow> y \<in> set (clients w)) \<and> names_kept w w'"

lemma stage_ok_kept: "keeps_stage y w w' \<Longrightarrow> stage_ok w y st \<Longrightarrow> stage_ok w' y st"
  by (cases st)
     (fastforce simp: keeps_stage_def connected_def outside_def names_kept_def split: option.splits)+

lemma kept_keeps_stage:
  assumes "kept x w w'" "y \<noteq> x" shows "keeps_stage y w w'"
proof -
  from assms have r: "rel_option (after_sends clean) (cl w y) (cl w' y)" "names_kept w w'" "clients w' = clients w"
    by (simp_all add: kept_def run_for_def)
  have "\<exists>k'. cl w' y = Some k' \<and> cchan k' = cchan k \<and> (ctx_done k \<longrightarrow> ctx_done k')" if "cl w y = Some k" for k
    using that r(1) by (auto simp: option_rel_Some1 after_sends_def sends_only_fields)
  with r show ?thesis by (simp add: keeps_stage_def)
qed

lemma kept_dom: "kept x w w' \<Longrightarrow> cl w' y = None \<longleftrightarrow> cl w y = None"
proof -
  assume "kept x w w'"
  then have "rel_option same_identity (cl w x) (cl w' x)"
    "y \<noteq> x \<Longrightarrow> rel_option (after_sends clean) (cl w y) (cl w' y)"
    by (simp_all add: kept_def run_for_def)
  then show ?thesis by (cases "y = x"; cases "cl w y"; cases "cl w' y") simp_all
qed

text \<open>A step of the reader goroutine of one connection.\<close>

lemma sys_inv_set_stage:
  assumes inv: "sys_inv sy" and k: "kept x (sw sy) w'" and st: "stage_ok w' x st"
    and dom: "cl (sw sy) x \<noteq> None"
  shows "sys_inv (set_stage x st w' sy)"
proof -
  have w: "world_inv w'" "settled w'" "ids_inv w'"
    using k inv ids_inv_run_for by (auto simp: kept_def sys_inv_def)
  have "stage_ok w' y s" if "stages sy y = Some s" "y \<noteq> x" for y s
    using stage_ok_kept [OF kept_keeps_stage [OF k that(2)]] inv that(1) by (simp add: sys_inv_def)
  with w st inv dom kept_dom [OF k] show ?thesis
    by (auto simp: sys_inv_def set_stage_def)
qed

lemma connected_reader:
  assumes "sys_inv sy" "stages sy x = Some st" "st \<noteq> Gone"
  shows "connected x (sw sy)" "cl (sw sy) x \<noteq> None"
proof -
  from assms have "stage_ok (sw sy) x st" by (simp add: sys_inv_def)
  with assms(3) show "connected x (sw sy)" by (cases st) (auto simp: outside_def connected_def)
  then show "cl (sw sy) x \<noteq> None" by (auto simp: connected_def)
qed

lemma sys_inv_receive:
  assumes inv: "sys_inv sy" and x: "stages sy x = Some Reading" and b: "clean b"
    and s: "settle x (receive_begin env x b (sw sy)) sy = Some sy'"
  shows "sys_inv sy'"
proof -
  have W: "world_inv (sw sy)" "settled (sw sy)" using inv by (simp_all add: sys_inv_def)
  have con: "connected x (sw sy)" "cl (sw sy) x \<noteq> None" using connected_reader [OF inv x] by simp_all
  note R = receive_begin_ok [OF W con(1) b, where env = env]
  from s R(2,3) obtain w' c where r: "receive_begin env x b (sw sy) = Ok (w', c)"
    by (cases "receive_begin env x b (sw sy)") auto
  from R(1) [OF r] have k: "kept x (sw sy) w'" and c: "join_args c"
    "c \<noteq> Finished \<Longrightarrow> c \<noteq> ThenClose \<Longrightarrow> outside x w'" by simp_all
  have con': "connected x w'" using connected_kept [OF con(1) k] .
  have found: "\<exists>d. ch w' q = Some d \<and> ch_name d = n" if "c = JoinFound (Some q) n p l" for q n p l
    using receive_begin_found [OF r that, symmetric] k world_invD(4) [of w' n q]
    by (auto simp: kept_def FindChannel_def dest: map_of_SomeD)
  show ?thesis
  proof (cases c)
    case Finished
    with s r con' sys_inv_set_stage [OF inv k, of Reading] con show ?thesis by simp
  next
    case ThenClose
    with s r con' sys_inv_set_stage [OF inv k, of Closing] con show ?thesis by simp
  next
    case (JoinFound f n p l)
    with s r c found con have "stage_ok w' x (Joining f n p l)" by (auto split: option.split)
    from sys_inv_set_stage [OF inv k this con(2)] JoinFound s r show ?thesis by simp
  qed
qed

lemma sys_inv_crash: "sys_inv sy \<Longrightarrow> sys_inv (sy\<lparr>crash := p\<rparr>)"
  by (simp add: sys_inv_def)

text \<open>The second critical section of a command.\<close>

lemma sys_inv_second:
  assumes inv: "sys_inv sy" and x: "stages sy x = Some st" "st \<noteq> Gone"
    and k: "\<And>w'. r = Ok w' \<Longrightarrow> kept x (sw sy) w'" and g: "\<And>w'. r \<noteq> Goexit w'"
    and s: "settle x (finished r) sy = Some sy'"
  shows "sys_inv sy'"
proof (cases r)
  case (Ok w')
  note con = connected_reader [OF inv x]
  from connected_kept [OF con(1) k [OF Ok]] have "stage_ok w' x Reading" by simp
  with Ok s sys_inv_set_stage [OF inv k [OF Ok]] con show ?thesis by auto
next
  case (Panic p)
  with s sys_inv_crash [OF inv, of "Some p"] show ?thesis by auto
qed (use g s in auto)

lemma sys_inv_commit:
  assumes inv: "sys_inv sy" and x: "stages sy x = Some (Joining f n p l)"
    and s: "settle x (finished (join_commit pk x f n p l (sw sy))) sy = Some sy'"
  shows "sys_inv sy'"
proof (rule sys_inv_second [OF inv x _ _ _ s])
  have W: "world_inv (sw sy)" "settled (sw sy)" using inv by (simp_all add: sys_inv_def)
  have st: "stage_ok (sw sy) x (Joining f n p l)" using inv x by (simp only: sys_inv_def)
  then show "join_commit pk x f n p l (sw sy) = Ok w' \<Longrightarrow> kept x (sw sy) w'" for w'
    by (intro join_commit_ok [OF W]) simp_all
  show "join_commit pk x f n p l (sw sy) \<noteq> Goexit w'" for w'
    by (rule second_part_no_Goexit)
qed simp

lemma sys_inv_graceful:
  assumes inv: "sys_inv sy" and x: "stages sy x = Some Closing"
    and s: "settle x (finished (client_CloseGracefully pick x (sw sy))) sy = Some sy'"
  shows "sys_inv sy'"
proof (rule sys_inv_second [OF inv x _ _ _ s])
  have W: "world_inv (sw sy)" "settled (sw sy)" using inv by (simp_all add: sys_inv_def)
  show "client_CloseGracefully pick x (sw sy) = Ok w' \<Longrightarrow> kept x (sw sy) w'" for w'
    by (rule client_CloseGracefully_kept [OF W])
  show "client_CloseGracefully pick x (sw sy) \<noteq> Goexit w'" for w'
    by (rule second_part_no_Goexit)
qed simp

text \<open>Ending a connection.\<close>

lemma sys_inv_hangup:
  assumes inv: "sys_inv sy" and x: "stages sy x = Some Reading"
  shows "sys_inv (set_stage x Leaving (upd_cl x Close (sw sy)) sy)"
proof (rule sys_inv_set_stage [OF inv])
  have W: "world_inv (sw sy)" "settled (sw sy)" using inv by (simp_all add: sys_inv_def)
  have con: "connected x (sw sy)" "cl (sw sy) x \<noteq> None" using connected_reader [OF inv x] by simp_all
  show k: "kept x (sw sy) (upd_cl x Close (sw sy))" by (rule kept_only_sends [OF only_sends_Close W])
  show "stage_ok (upd_cl x Close (sw sy)) x Leaving"
    using connected_kept [OF con(1) k] con(2) by (auto simp: Close_def)
  show "cl (sw sy) x \<noteq> None" using con by simp
qed

lemma sys_inv_leave:
  assumes inv: "sys_inv sy" and x: "stages sy x = Some Leaving" and l: "leave_channel pk x (sw sy) = Ok w'"
  shows "sys_inv (set_stage x Deleting w' sy)"
proof (rule sys_inv_set_stage [OF inv])
  have W: "world_inv (sw sy)" "settled (sw sy)" using inv by (simp_all add: sys_inv_def)
  have con: "connected x (sw sy)" "cl (sw sy) x \<noteq> None" using connected_reader [OF inv x] by simp_all
  then obtain k where k: "cl (sw sy) x = Some k" by auto
  note L = leave_channel_inv [OF W(1) k l]
  show "kept x (sw sy) w'" using L W by (simp add: kept_def)
  show "stage_ok w' x Deleting" using L(5,6) con(1) by (simp add: outside_def connected_def)
  show "cl (sw sy) x \<noteq> None" using con by simp
qed

lemma leave_never_panics:
  assumes inv: "sys_inv sy" and x: "stages sy x = Some Leaving"
  shows "leave_channel pk x (sw sy) \<noteq> Panic p"
proof -
  from connected_reader [OF inv x] obtain k where k: "cl (sw sy) x = Some k" by auto
  with leave_channel_Ok [OF _ k, of pk] inv show ?thesis by (auto simp: sys_inv_def)
qed

text \<open>The other steps.\<close>

lemma sys_inv_accept:
  assumes inv: "sys_inv sy" and a: "accept addr s pd (sw sy) = (x, w')"
  shows "sys_inv (set_stage x Reading w' sy)"
proof -
  have W: "world_inv (sw sy)" "settled (sw sy)" "ids_inv (sw sy)" using inv by (simp_all add: sys_inv_def)
  note A = accept_simps [OF a] and B = world_inv_accept [OF W(1) a]
  have "cl (sw sy) x = None"
    using world_invD(1) [OF W(1), of x] A(1) by (cases "cl (sw sy) x") (auto simp: client_ok_def)
  then have "keeps_stage y (sw sy) w'" if "y \<noteq> x" for y
    using that A by (simp add: keeps_stage_def names_kept_def)
  moreover have "stages sy x = None" using inv \<open>cl (sw sy) x = None\<close> by (simp add: sys_inv_def)
  ultimately have "stage_ok w' y st" if "stages sy y = Some st" "y \<noteq> x" for y st
    using that inv stage_ok_kept by (fastforce simp: sys_inv_def)
  with B W(2) ids_inv_accept [OF a W(3)] inv A(7) show ?thesis
    by (auto simp: sys_inv_def set_stage_def)
qed

lemma sys_inv_delete:
  assumes inv: "sys_inv sy" and x: "stages sy x = Some Deleting"
  shows "sys_inv (set_stage x Gone (delete_client x (sw sy)) sy)"
proof -
  let ?w = "delete_client x (sw sy)"
  have W: "world_inv (sw sy)" "settled (sw sy)" "ids_inv (sw sy)" using inv by (simp_all add: sys_inv_def)
  from inv x have "stage_ok (sw sy) x Deleting" by (simp only: sys_inv_def)
  then obtain k where k: "cl (sw sy) x = Some k" "cchan k = None" "x \<in> set (clients (sw sy))"
    by (auto simp: outside_def)
  have f: "cl ?w = cl (sw sy)" "ch ?w = ch (sw sy)" "channels ?w = channels (sw sy)"
    "lastID ?w = lastID (sw sy)" "next_cl ?w = next_cl (sw sy)"
    "set (clients ?w) = set (clients (sw sy)) - {x}"
    using world_invD(5) [OF W(1)] k(3) by (auto simp: delete_client_def set_remove1_eq)
  then have "settled ?w" "ids_inv ?w" using W by (simp_all add: settled_def ids_inv_def)
  moreover have "stage_ok ?w y st" if "stages sy y = Some st" "y \<noteq> x" for y st
  proof (rule stage_ok_kept)
    show "keeps_stage y (sw sy) ?w" using f that(2) by (simp add: keeps_stage_def names_kept_def)
    show "stage_ok (sw sy) y st" using inv that(1) by (simp add: sys_inv_def)
  qed
  moreover have "stage_ok ?w x Gone" using f k by simp
  ultimately show ?thesis
    using world_inv_delete_client [OF W(1) k(1,2)] inv f(1) k by (auto simp: sys_inv_def set_stage_def)
qed

text \<open>A step on one client's object by another goroutine than its reader.\<close>

lemma sys_inv_upd:
  assumes inv: "sys_inv sy" and k: "cl (sw sy) x = Some k"
    and f: "cid (f k) = cid k" "cchan (f k) = cchan k" "auth (f k) = auth k" "ctx_done k \<Longrightarrow> ctx_done (f k)"
    and ok: "client_ok (sw sy) x (f k)"
  shows "sys_inv (sy\<lparr>sw := upd_cl x f (sw sy)\<rparr>)"
proof -
  have W: "world_inv (sw sy)" "settled (sw sy)" "ids_inv (sw sy)" using inv by (simp_all add: sys_inv_def)
  have "ids_inv (upd_cl x f (sw sy))" using W(3) k f(1) by (auto simp: ids_inv_def)
  moreover have "keeps_stage y (sw sy) (upd_cl x f (sw sy))" for y
    using k f by (auto simp: keeps_stage_def names_kept_def)
  then have "stage_ok (upd_cl x f (sw sy)) y st" if "stages sy y = Some st" for y st
    using stage_ok_kept that inv by (metis sys_inv_def)
  moreover have "world_inv (upd_cl x f (sw sy))"
    using world_inv_upd [of _ x k f, OF W(1) k f(1,2)] f(3) ok by simp
  ultimately show ?thesis using k W(2) inv by (simp add: sys_inv_def)
qed

lemma client_ok_step:
  assumes ok: "client_ok w x k" and s: "client_step e k = Ok k'"
    and e: "\<And>pick b. e = CSend pick b \<Longrightarrow> EndMessage \<notin> set b"
  shows "client_ok w x k' \<and> cid k' = cid k \<and> cchan k' = cchan k \<and> auth k' = auth k \<and>
    (ctx_done k \<longrightarrow> ctx_done k')"
proof -
  have "client_inv k' \<and> idle_flushed k'"
    using client_step_inv [OF _ s] ok by (simp add: client_ok_def)
  moreover have "messageTerminator k' = messageTerminator k \<and> list_all (\<lambda>b. EndMessage \<notin> set b) (sd k') \<and>
      cid k' = cid k \<and> cchan k' = cchan k \<and> auth k' = auth k \<and> (ctx_done k \<longrightarrow> ctx_done k')"
  proof (cases e)
    case (CSend pick b)
    with s e ok Send_queue [of pick b k] sends_only_fields [OF sends_only_Send [of k pick b]] show ?thesis
      by (auto simp: client_ok_def Send_done)
  next
    case (CGraceful pick)
    with s ok show ?thesis
      by (auto simp: client_ok_def CloseGracefully_def Close_def split: if_splits)
  next
    case CClose
    with s ok show ?thesis by (auto simp: client_ok_def Close_def)
  next
    case CTeardown
    with s ok show ?thesis by (cases "ctx_done k") (auto simp: client_ok_def teardown_def)
  next
    case (CWriter net we)
    with s have k': "k' = writer_step net we k" by simp
    have "list_all (\<lambda>b. EndMessage \<notin> set b) (sd k)" using ok by (simp add: client_ok_def)
    then show ?thesis unfolding k'
      by (auto simp: writer_step_def writer_take_def writer_timer_def Let_def set_wr_def Close_def stop_writer_def
          split: list.split writer_event.split)
  qed
  ultimately show ?thesis using ok by (auto simp: client_ok_def)
qed

lemma sys_inv_client_step:
  assumes inv: "sys_inv sy" and k: "cl (sw sy) x = Some k" and s: "client_step e k = Ok (f k)"
    and e: "\<And>pick b. e = CSend pick b \<Longrightarrow> EndMessage \<notin> set b"
  shows "sys_inv (sy\<lparr>sw := upd_cl x f (sw sy)\<rparr>)"
proof -
  have "client_ok (sw sy) x k" using inv k world_invD(1) by (simp add: sys_inv_def)
  from client_ok_step [OF this s e] show ?thesis by (intro sys_inv_upd [OF inv k]) auto
qed

lemma sys_inv_close_all:
  assumes inv: "sys_inv sy"
  shows "sys_inv (sy\<lparr>sw := close_all s (sw sy), stopped := st\<rparr>)"
proof -
  let ?w = "close_all s (sw sy)"
  have o: "only_sends clean (sw sy) ?w"
    unfolding only_sends_def
  proof
    show "?w = (sw sy)\<lparr>cl := cl ?w\<rparr>" by (simp add: close_all_def)
    have "after_sends clean k (Close k)" for k
      by (auto simp: after_sends_def sends_only_def Close_def client_inv_def)
    then show "\<forall>y. rel_option (after_sends clean) (cl (sw sy) y) (cl ?w y)"
      by (auto simp: close_all_def option.rel_map intro!: option.rel_refl)
  qed
  have W: "world_inv (sw sy)" "settled (sw sy)" "ids_inv (sw sy)" using inv by (simp_all add: sys_inv_def)
  have k: "kept x (sw sy) ?w" for x by (rule kept_only_sends [OF o W(1,2)])
  have "stage_ok ?w y st" if "stages sy y = Some st" for y st
    using stage_ok_kept [OF kept_keeps_stage [OF k [of "Suc y"], of y]] that inv by (simp add: sys_inv_def)
  moreover from k have "run_for 0 (sw sy) ?w" by (simp add: kept_def)
  from ids_inv_run_for [OF this W(3)] have "ids_inv ?w" .
  ultimately show ?thesis
    using k [of 0] kept_dom [OF k [of 0]] inv by (simp add: sys_inv_def kept_def)
qed

lemma sys_inv_initial: "sys_inv (initial m d)"
  by (simp add: sys_inv_def initial_def empty_world_def world_inv_def settled_def ids_inv_def)

lemma sys_inv_step:
  assumes inv: "sys_inv sy" and step: "sys_step mx sy sy'"
  shows "sys_inv sy'"
  using step
proof (cases rule: sys_step.cases)
  case (receive_step x input m rest b env)
  then show ?thesis using sys_inv_receive [OF inv] handle_frame_clean(1) by blast
next
  case (ping_step x k pick)
  have "EndMessage \<notin> set ping_msg" using clean_constants(2) by (simp add: clean_def)
  with ping_step show ?thesis
    by (auto intro!: sys_inv_client_step [OF inv, of _ _ "CSend pick ping_msg"] simp: ping_def)
next
  case (teardown_step x k)
  then show ?thesis by (auto intro!: sys_inv_client_step [OF inv, of _ _ CTeardown])
next
  case (writer_run x k e net)
  then show ?thesis by (auto intro!: sys_inv_client_step [OF inv, of _ _ "CWriter net e"])
qed (auto intro: inv sys_inv_accept [OF inv] sys_inv_commit [OF inv] sys_inv_graceful [OF inv]
    sys_inv_hangup [OF inv] sys_inv_leave [OF inv] sys_inv_crash [OF inv] sys_inv_delete [OF inv]
    sys_inv_close_all [OF inv])

interpretation sys: invariant_system "initial m d" "sys_step mx" sys_inv for m d mx
  by unfold_locales (auto intro: sys_inv_initial sys_inv_step)

section \<open>What can take the process down\<close>

lemma set_stage_crash [simp]: "crash (set_stage x st w sy) = crash sy"
  by (simp add: set_stage_def)

lemma settle_crash:
  "settle x r sy = Some sy' \<Longrightarrow> crash sy = None \<Longrightarrow> crash sy' = Some p \<Longrightarrow> r = Panic p"
  by (cases "(x, r, sy)" rule: settle.cases) auto

lemma finished_Panic: "finished r = Panic p \<longleftrightarrow> r = Panic p"
  by (cases r) auto

lemma join_commit_Panic:
  assumes inv: "world_inv w" and out: "outside x w"
    and f: "\<And>r. f = Some r \<Longrightarrow> \<exists>c. ch w r = Some c" and n: "n \<noteq> []" "p \<noteq> [] \<Longrightarrow> l"
    and bad: "join_commit pk x f n p l w = Panic q"
  shows "q = NilMapWrite \<and> (\<exists>r c. f = Some r \<and> ch w r = Some c \<and> ClientsAll c = None)"
proof -
  from out obtain k where k: "cl w x = Some k" "cchan k = None" "x \<in> set (clients w)" by (auto simp: outside_def)
  show ?thesis
  proof (cases f)
    case None
    with bad have "AddChannel pk n p l x w = Panic q" by (simp add: join_commit_def)
    then show ?thesis using AddChannel_Ok [where pk = pk, OF inv k n(2,1)] by fastforce
  next
    case (Some r)
    from f [OF this] obtain c where c: "ch w r = Some c" by blast
    with bad Some have "Add pk r x p w = Panic q" by (simp add: join_commit_def)
    then show ?thesis
      unfolding Add_unfold [OF c k(1)] Let_def using Some c by (auto split: if_splits option.splits)
  qed
qed

text \<open>
  Only two panics are left: joining a channel that has quit since it was looked up, and a
  graceful close of a client whose queue is closed already.
\<close>

definition crash_cause :: "system \<Rightarrow> go_panic \<Rightarrow> bool" where
  "crash_cause sy p \<longleftrightarrow>
     (p = NilMapWrite \<and>
      (\<exists>x r n pw l c. stages sy x = Some (Joining (Some r) n pw l) \<and> ch (sw sy) r = Some c \<and> ClientsAll c = None)) \<or>
     (p = SendOnClosedChannel \<and>
      (\<exists>x k. stages sy x = Some Closing \<and> cl (sw sy) x = Some k \<and> sd_closed k))"

lemma step_crash_cause:
  assumes inv: "sys_inv sy" and step: "sys_step mx sy sy'" and p: "crash sy' = Some p"
  shows "crash_cause sy p"
  using step
proof (cases rule: sys_step.cases)
  case (receive_step x input m rest b env)
  then have "receive_begin env x b (sw sy) = Panic p" using settle_crash p by blast
  moreover have "connected x (sw sy)" using connected_reader [OF inv receive_step(2)] by simp
  then have "receive_begin env x b (sw sy) \<noteq> Panic p"
    using receive_begin_ok(3) handle_frame_clean(1) [OF receive_step(3,4)] inv by (simp add: sys_inv_def)
  ultimately show ?thesis by simp
next
  case (commit_step x f n pw l pk)
  then have c: "join_commit pk x f n pw l (sw sy) = Panic p"
    using settle_crash p finished_Panic by metis
  have st: "stage_ok (sw sy) x (Joining f n pw l)" using inv commit_step(2) by (simp only: sys_inv_def)
  then have "p = NilMapWrite \<and> (\<exists>r c. f = Some r \<and> ch (sw sy) r = Some c \<and> ClientsAll c = None)"
    using inv by (intro join_commit_Panic [OF _ _ _ _ _ c])
      (auto simp: sys_inv_def join_args_def split: option.splits)
  with commit_step(2) show ?thesis unfolding crash_cause_def by blast
next
  case (graceful_step x pick)
  then have c: "client_CloseGracefully pick x (sw sy) = Panic p"
    using settle_crash p finished_Panic by metis
  from connected_reader [OF inv graceful_step(2)] obtain k where k: "cl (sw sy) x = Some k" by auto
  with c have "CloseGracefully pick k = Panic p"
    by (auto simp: client_CloseGracefully_def split: go.splits)
  then have "p = SendOnClosedChannel \<and> sd_closed k" by (auto simp: CloseGracefully_def split: if_splits)
  with graceful_step(2) k show ?thesis by (auto simp: crash_cause_def)
next
  case (leave_panic x pk q)
  then show ?thesis using leave_never_panics [OF inv] by blast
qed (use p in auto)

section \<open>Running the system\<close>

datatype event =
    EAccept bytes nat
  | EReceive cmd_env nat bytes
  | ECommit picks nat
  | EGraceful bool nat
  | EHangup nat
  | ELeave picks nat
  | EDelete nat
  | EPing bool nat
  | ETeardown nat
  | EWriter network writer_event nat
  | EStop nat

fun perform_running :: "int \<Rightarrow> event \<Rightarrow> system \<Rightarrow> system option" where
  "perform_running mx (EAccept addr s) sy =
     (case accept addr s (stopped sy s) (sw sy) of (x, w') \<Rightarrow> Some (set_stage x Reading w' sy))"
| "perform_running mx (EReceive env x input) sy =
     (case (stages sy x, ReadBytes EndMessage input) of
        (Some Reading, Some (m, rest)) \<Rightarrow>
          (case handle_frame mx m of
             Received b \<Rightarrow> settle x (receive_begin env x b (sw sy)) sy
           | _ \<Rightarrow> None)
      | _ \<Rightarrow> None)"
| "perform_running mx (ECommit pk x) sy =
     (case stages sy x of
        Some (Joining f n p l) \<Rightarrow> settle x (finished (join_commit pk x f n p l (sw sy))) sy
      | _ \<Rightarrow> None)"
| "perform_running mx (EGraceful pick x) sy =
     (if stages sy x = Some Closing then settle x (finished (client_CloseGracefully pick x (sw sy))) sy
      else None)"
| "perform_running mx (EHangup x) sy =
     (if stages sy x = Some Reading then Some (set_stage x Leaving (upd_cl x Close (sw sy)) sy) else None)"
| "perform_running mx (ELeave pk x) sy =
     (if stages sy x = Some Leaving then
        (case leave_channel pk x (sw sy) of
           Ok w' \<Rightarrow> Some (set_stage x Deleting w' sy)
         | Panic p \<Rightarrow> Some (sy\<lparr>crash := Some p\<rparr>)
         | _ \<Rightarrow> None)
      else None)"
| "perform_running mx (EDelete x) sy =
     (if stages sy x = Some Deleting then Some (set_stage x Gone (delete_client x (sw sy)) sy) else None)"
| "perform_running mx (EPing pick x) sy =
     (case cl (sw sy) x of
        Some k \<Rightarrow> if closed k then None else Some (sy\<lparr>sw := upd_cl x (ping pick) (sw sy)\<rparr>)
      | None \<Rightarrow> None)"
| "perform_running mx (ETeardown x) sy =
     (case cl (sw sy) x of
        Some k \<Rightarrow> if ctx_done k \<and> \<not> closed k then Some (sy\<lparr>sw := upd_cl x teardown (sw sy)\<rparr>) else None
      | None \<Rightarrow> None)"
| "perform_running mx (EWriter net e x) sy =
     (case cl (sw sy) x of
        Some k \<Rightarrow> if writer_ready k e then Some (sy\<lparr>sw := upd_cl x (writer_step net e) (sw sy)\<rparr>) else None
      | None \<Rightarrow> None)"
| "perform_running mx (EStop s) sy =
     Some (sy\<lparr>sw := close_all s (sw sy), stopped := (stopped sy)(s := True)\<rparr>)"

definition perform :: "int \<Rightarrow> event \<Rightarrow> system \<Rightarrow> system option" where
  "perform mx e sy = (if crash sy = None then perform_running mx e sy else None)"

fun run_events :: "int \<Rightarrow> event list \<Rightarrow> system \<Rightarrow> system option" where
  "run_events mx [] sy = Some sy"
| "run_events mx (e # es) sy = Option.bind (perform mx e sy) (run_events mx es)"

lemma perform_sound: "perform mx e sy = Some sy' \<Longrightarrow> sys_step mx sy sy'"
  by (cases e)
     (auto simp: perform_def split: if_splits option.splits stage.splits frame_action.splits go.splits prod.splits
        intro: sys_step.intros)

lemma perform_complete:
  assumes "sys_step mx sy sy'" shows "\<exists>e. perform mx e sy = Some sy'"
  using assms
proof (cases rule: sys_step.cases)
  case (accept_step addr s x w')
  then have "perform mx (EAccept addr s) sy = Some sy'" by (simp add: perform_def)
  then show ?thesis ..
next
  case (receive_step x input m rest b env)
  then have "perform mx (EReceive env x input) sy = Some sy'" by (simp add: perform_def)
  then show ?thesis ..
next
  case (commit_step x f n p l pk)
  then have "perform mx (ECommit pk x) sy = Some sy'" by (simp add: perform_def)
  then show ?thesis ..
next
  case (graceful_step x pick)
  then have "perform mx (EGraceful pick x) sy = Some sy'" by (simp add: perform_def)
  then show ?thesis ..
next
  case (hangup_step x)
  then have "perform mx (EHangup x) sy = Some sy'" by (simp add: perform_def)
  then show ?thesis ..
next
  case (leave_step x pk w')
  then have "perform mx (ELeave pk x) sy = Some sy'" by (simp add: perform_def)
  then show ?thesis ..
next
  case (leave_panic x pk p)
  then have "perform mx (ELeave pk x) sy = Some sy'" by (simp add: perform_def)
  then show ?thesis ..
next
  case (delete_step x)
  then have "perform mx (EDelete x) sy = Some sy'" by (simp add: perform_def)
  then show ?thesis ..
next
  case (ping_step x k pick)
  then have "perform mx (EPing pick x) sy = Some sy'" by (simp add: perform_def)
  then show ?thesis ..
next
  case (teardown_step x k)
  then have "perform mx (ETeardown x) sy = Some sy'" by (simp add: perform_def)
  then show ?thesis ..
next
  case (writer_run x k e net)
  then have "perform mx (EWriter net e x) sy = Some sy'" by (simp add: perform_def)
  then show ?thesis ..
next
  case (stop_step s)
  then have "perform mx (EStop s) sy = Some sy'" by (simp add: perform_def)
  then show ?thesis ..
qed

lemma run_events_append:
  "run_events mx (es @ fs) sy = Option.bind (run_events mx es sy) (run_events mx fs)"
  by (induction es arbitrary: sy) (auto intro: bind_option_cong)

lemma run_events_snoc:
  "run_events mx (es @ [e]) sy = Some sy' \<longleftrightarrow>
     (\<exists>s1. run_events mx es sy = Some s1 \<and> perform mx e s1 = Some sy')"
  by (auto simp: run_events_append bind_eq_Some_conv)

lemma run_events_reach:
  "reach s0 (sys_step mx) sy \<Longrightarrow> run_events mx es sy = Some sy' \<Longrightarrow> reach s0 (sys_step mx) sy'"
proof (induction es arbitrary: sy)
  case Nil
  then show ?case by simp
next
  case (Cons e es)
  then obtain s1 where "perform mx e sy = Some s1" "run_events mx es s1 = Some sy'"
    by (auto simp: bind_eq_Some_conv)
  with Cons.IH Cons.prems(1) reach_step [OF Cons.prems(1) perform_sound] show ?case by blast
qed

end
