(* ===== verification/Scenarios.thy ===== *)
theory Scenarios
  imports System
begin

text \<open>
  Concrete runs of the server: two connections, the lines they send, and the schedules that
  the properties are applied to. The random source of the runs always draws the same bytes.
\<close>

definition any_pick :: picks where "any_pick = (\<lambda>_ _. True)"

definition sample_rng :: rng where
  "sample_rng = \<lparr>read8 = (\<lambda>_. Some [0, 0, 0, 0, 0, 0, 0, 1]), int10 = (\<lambda>_. None)\<rparr>"

definition sample_env :: cmd_env where
  "sample_env = \<lparr>ce_picks = any_pick, ce_close = True, ce_rng = sample_rng, ce_pos = 0,
     ce_worlds = (\<lambda>_. empty_world [] False)\<rparr>"

text \<open>Lines are written with apostrophes for the quotes of JSON.\<close>

definition q :: "bytes \<Rightarrow> bytes" where
  "q s = map (\<lambda>c. if c = CHR 0x27 then dquote else c) s"

definition apos :: bytes where "apos = [CHR 0x27]"

definition command_line :: "bytes \<Rightarrow> bytes \<Rightarrow> bytes" where
  "command_line cmd room =
     q (''{'' @ apos @ ''type'' @ apos @ '':'' @ apos @ cmd @ apos @ '','' @ apos @ ''channel'' @ apos @ '':'' @
        apos @ room @ apos @ ''}'') @ [EndMessage]"

text \<open>Client 0 opens the channel \<open>a\<close>; client 1 joins it; client 0 sends a message.\<close>

definition two_join :: "event list" where
  "two_join =
     [EAccept [] 0, EAccept [] 0,
      EReceive sample_env 0 (command_line ''join'' ''a''), ECommit any_pick 0,
      EReceive sample_env 1 (command_line ''join'' ''a''), ECommit any_pick 1]"

definition relay_line :: bytes where
  "relay_line = q (''{'' @ apos @ ''k'' @ apos @ '':1}'') @ [EndMessage]"

text \<open>Client 1 has looked the channel up when its last member leaves.\<close>

definition join_meets_quit :: "event list" where
  "join_meets_quit =
     [EAccept [] 0, EAccept [] 0,
      EReceive sample_env 0 (command_line ''join'' ''a''), ECommit any_pick 0,
      EReceive sample_env 1 (command_line ''join'' ''a''),
      EHangup 0, ELeave any_pick 0, ECommit any_pick 1]"

text \<open>Both look up \<open>a\<close> before either opens it.\<close>

definition two_open :: "event list" where
  "two_open =
     [EAccept [] 0, EAccept [] 0,
      EReceive sample_env 0 (command_line ''join'' ''a''),
      EReceive sample_env 1 (command_line ''join'' ''a''),
      ECommit any_pick 0, ECommit any_pick 1]"

text \<open>A refused join closes the client; the key it asked for in the same packet comes after.\<close>

definition key_after_close :: "event list" where
  "key_after_close =
     [EAccept [] 0, EReceive sample_env 0 (command_line ''join'' ''''), ETeardown 0,
      EReceive sample_env 0 (command_line ''generate_key'' ''''), EGraceful True 0]"

definition after :: "event list \<Rightarrow> system" where
  "after es = the (run_events 0 es (initial [] False))"

lemma after_reach:
  assumes "run_events 0 es (initial [] False) \<noteq> None"
  shows "reach (initial [] False) (sys_step 0) (after es)"
  using assms run_events_reach [OF reach_init, of 0 es "initial [] False"] by (auto simp: after_def)

text \<open>The state the schedule \<open>two_join\<close> ends in, evaluated once.\<close>

definition client_view :: "client \<Rightarrow> int \<times> nat option \<times> bool \<times> nat" where
  "client_view k = (cid k, cchan k, auth k, length (sd k))"

definition world_view ::
  "world \<Rightarrow> nat \<times> (bytes \<times> nat) list \<times> (int \<times> nat) list \<times> (int \<times> nat option \<times> bool \<times> nat) option \<times>
     (int \<times> nat option \<times> bool \<times> nat) option \<times> (bytes \<times> bool) option" where
  "world_view w =
     (next_cl w, channels w, members 0 w, map_option client_view (cl w 0), map_option client_view (cl w 1),
      map_option (\<lambda>c. (ch_name c, ch_locked c)) (ch w 0))"

lemma two_join_view:
  "map_option (\<lambda>sy. (crash sy, world_view (sw sy))) (run_events 0 two_join (initial [] False)) =
     Some (None, 2, [(''a'', 0)], [(2, 1), (1, 0)], Some (1, Some 0, True, 2), Some (2, Some 0, True, 1),
       Some (''a'', False))"
  by code_simp

lemma after_two_join: "reach (initial [] False) (sys_step 0) (after two_join)"
  by (rule after_reach) (use two_join_view in auto)

lemma two_join_at:
  obtains k0 k1 c where
    "cl (sw (after two_join)) 0 = Some k0" "cid k0 = 1" "cchan k0 = Some 0" "length (sd k0) = 2"
    "cl (sw (after two_join)) 1 = Some k1" "cid k1 = 2" "cchan k1 = Some 0" "auth k1" "length (sd k1) = 1"
    "ch (sw (after two_join)) 0 = Some c" "ch_name c = ''a''" "\<not> ch_locked c"
    "members 0 (sw (after two_join)) = [(2, 1), (1, 0)]" "channels (sw (after two_join)) = [(''a'', 0)]"
    "next_cl (sw (after two_join)) = 2" "crash (after two_join) = None"
proof -
  from two_join_view have "(crash (after two_join), world_view (sw (after two_join))) =
      (None, 2, [(''a'', 0)], [(2, 1), (1, 0)], Some (1, Some 0, True, 2), Some (2, Some 0, True, 1),
       Some (''a'', False))" by (auto simp: after_def)
  then show thesis by (auto simp: world_view_def client_view_def intro!: that)
qed

text \<open>From there, client 0 sends a message.\<close>

lemma relay_view:
  "map_option (\<lambda>sy. map_option client_view (cl (sw sy) 1)) (perform 0 (EReceive sample_env 0 relay_line) (after two_join)) =
     Some (Some (2, Some 0, True, 2))"
  by code_simp

lemma relay_at:
  obtains sy where "perform 0 (EReceive sample_env 0 relay_line) (after two_join) = Some sy"
    "cl (sw sy) 1 \<noteq> cl (sw (after two_join)) 1"
proof -
  from relay_view obtain sy k where sy: "perform 0 (EReceive sample_env 0 relay_line) (after two_join) = Some sy"
    "cl (sw sy) 1 = Some k" "length (sd k) = 2" by (auto simp: client_view_def)
  have "cl (sw sy) 1 \<noteq> cl (sw (after two_join)) 1"
  proof (rule two_join_at)
    fix j assume "cl (sw (after two_join)) 1 = Some j" "length (sd j) = 1"
    with sy show ?thesis by auto
  qed
  with sy that show thesis by blast
qed

end
