(* ===== verification/Rooms.thy ===== *)
theory Rooms
  imports Effects Scenarios
begin

text \<open>
  The abstract server: each client is in no room or in one, enters a room only from none and
  leaves to none. The transition system implements it, and a step of one client touches
  nobody but that client and those who share a room with it.
\<close>

section \<open>The specification\<close>

inductive room_step :: "(nat \<Rightarrow> nat option) \<Rightarrow> (nat \<Rightarrow> nat option) \<Rightarrow> bool" where
  room_stay: "room_step R R"
| room_enter: "R x = None \<Longrightarrow> room_step R (R(x \<mapsto> r))"
| room_exit: "R x = Some r \<Longrightarrow> room_step R (R(x := None))"

inductive_simps room_step_iff: "room_step R R'"

section \<open>Who a step touches\<close>

text \<open>
  Besides \<open>x\<close> only clients of its room (before or after) may change, and nobody but
  \<open>x\<close> changes rooms, and \<open>x\<close> never directly from one room to another.
\<close>

definition confined :: "nat \<Rightarrow> world \<Rightarrow> world \<Rightarrow> bool" where
  "confined x w w' \<longleftrightarrow>
     (\<forall>y. y \<noteq> x \<longrightarrow> room_of w' y = room_of w y \<and>
        (cl w' y \<noteq> cl w y \<longrightarrow>
           (\<exists>r. room_of w y = Some r \<and> (room_of w x = Some r \<or> room_of w' x = Some r)))) \<and>
     (room_of w' x = room_of w x \<or> room_of w x = None \<or> room_of w' x = None)"

lemma confined_refl [simp]: "confined x w w"
  by (simp add: confined_def)

lemma confined_self:
  assumes "\<And>y. y \<noteq> x \<Longrightarrow> cl w' y = cl w y"
    and "room_of w' x = room_of w x \<or> room_of w x = None \<or> room_of w' x = None"
  shows "confined x w w'"
  using assms by (simp add: confined_def room_of_def)

lemma room_of_only_sends: "only_sends P w w' \<Longrightarrow> room_of w' y = room_of w y"
proof -
  assume "only_sends P w w'"
  then have "rel_option (after_sends P) (cl w y) (cl w' y)" by (simp add: only_sends_def)
  then show ?thesis
    by (cases "cl w y"; cases "cl w' y") (auto simp: room_of_def after_sends_def sends_only_fields)
qed

lemma confined_reply:
  assumes "only_sends P w w'" "\<And>y. y \<noteq> x \<Longrightarrow> cl w' y = cl w y" shows "confined x w w'"
  using assms(2) room_of_only_sends [OF assms(1)] by (intro confined_self) simp_all

lemma confined_step: "confined x w w' \<Longrightarrow> room_step (room_of w) (room_of w')"
proof -
  assume c: "confined x w w'"
  then have eq: "room_of w' = (room_of w)(x := room_of w' x)" by (auto simp: confined_def fun_eq_iff)
  from c consider "room_of w' x = room_of w x" | "room_of w x = None" | "room_of w' x = None"
    by (auto simp: confined_def)
  then show ?thesis
  proof cases
    case 1
    then show ?thesis by (subst eq) (simp add: room_stay)
  next
    case 2
    then show ?thesis
      by (cases "room_of w' x"; subst eq) (auto simp: room_step_iff intro: room_enter)
  next
    case 3
    then show ?thesis
      by (cases "room_of w x"; subst eq) (auto simp: room_step_iff fun_upd_idem)
  qed
qed

subsection \<open>The operations\<close>

lemma confined_sends:
  assumes "only_sends P w w'" "room_of w x = Some r"
    and "\<And>y. y \<noteq> x \<Longrightarrow> room_of w y \<noteq> Some r \<Longrightarrow> cl w' y = cl w y"
  shows "confined x w w'"
  using assms(2,3) unfolding confined_def room_of_only_sends [OF assms(1)] by blast

lemma confined_relay:
  assumes inv: "world_inv w" and x: "room_of w x = Some r" and m: "clean m"
  shows "confined x w (SendAll pk r m (Some x) w)" "confined x w (SendOthers pk r m (Some x) w)"
proof -
  have o: "only_sends clean w (SendAll pk r m (Some x) w)" "only_sends clean w (SendOthers pk r m (Some x) w)"
    using m by (auto simp: SendAll_def intro: only_sends_AllLocked only_sends_SendOthers clean_constants)
  show "confined x w (SendAll pk r m (Some x) w)"
    by (rule confined_sends [OF o(1) x]) (simp add: SendAll_effect [OF inv])
  show "confined x w (SendOthers pk r m (Some x) w)"
    by (rule confined_sends [OF o(2) x]) (simp add: SendOthers_effect [OF inv x])
qed

lemma confined_cmd_begin:
  assumes k: "cl w x = Some k" "cchan k = None" and b: "cmd_begin env x d w = Ok (w', c)"
  shows "confined x w w'"
proof -
  have "cl w' y = cl w y" if "y \<noteq> x" for y
    using b that
    by (auto simp: cmd_begin_def join_begin_def generate_begin_def protocol_version_handler_def Let_def
        sendError_def sendJSON_def client_Send_def
        split: if_splits option.splits sum.splits prod.splits)
  moreover have "room_of w x = None" using k by (simp add: room_of_def)
  ultimately show ?thesis by (intro confined_self) auto
qed

lemma confined_receive:
  assumes inv: "world_inv w" and m: "clean m" and b: "receive_begin env x m w = Ok (w', c)"
  shows "confined x w w'"
proof -
  from b obtain k where k: "cl w x = Some k" by (auto simp: receive_begin_def split: option.splits)
  show ?thesis
  proof (cases "cchan k")
    case None
    with b k show ?thesis
      by (auto simp: receive_begin_def intro: confined_cmd_begin split: if_splits sum.splits)
  next
    case (Some r)
    with k have r: "room_of w x = Some r" by (simp add: room_of_def)
    have "clean m'" if "JsonAddOrigin m i = (m', e)" for i m' e
      using clean_JsonAddOrigin [OF m, of i] that by simp
    with Some b k confined_relay [OF inv r] show ?thesis
      by (auto simp: receive_begin_def split: if_splits prod.splits option.splits)
  qed
qed

lemma confined_Add:
  assumes inv: "world_inv w" and k: "cl w x = Some k" "cchan k = None" and ok: "Add pk r x p w = Ok w'"
  shows "confined x w w'"
proof -
  from ok k obtain c where c: "ch w r = Some c" by (auto simp: Add_def split: option.splits)
  have out: "room_of w x = None" using k by (simp add: room_of_def)
  show ?thesis
  proof (cases "map_of (members r w) (cid k) = None")
    case False
    with ok c k have "w' = upd_cl x (SetAuthorized (grants c p)) w" by (simp add: Add_unfold Let_def)
    then show ?thesis using out by (intro confined_self) simp_all
  next
    case True
    with ok c k obtain m where m: "ClientsAll c = Some m" by (auto simp: Add_unfold Let_def split: option.splits)
    with True c have "map_of m (cid k) = None" by (simp add: members_def)
    with Add_effect [OF inv k c m] ok obtain lm where
      w': "\<And>y. cl w' y =
        (if y = x then Some (fold (send_data pk x) (join_replies (ch_name c) (cid k) m lm w)
             (SetChannel r (SetAuthorized (grants c p) k)))
         else if room_of w y = Some r
           then map_option (send_data pk y (client_joined_msg (ch_name c) (cid k) (connectionType k))) (cl w y)
         else cl w y)"
      by (metis go.inject(1))
    have f: "cchan (send_data pk y d k) = cchan k" for y d k
      by (simp add: send_data_def sends_only_fields(2) [OF sends_only_Send])
    then have "cchan (fold (send_data pk x) ds k) = cchan k" for ds k
      by (induction ds arbitrary: k) simp_all
    with w' out have "room_of w' x = Some r" by (simp add: room_of_def SetChannel_def)
    moreover have "room_of w' y = room_of w y" if "y \<noteq> x" for y
      using w' that f by (cases "cl w y") (auto simp: room_of_def)
    ultimately show ?thesis using out w' by (auto simp: confined_def)
  qed
qed

lemma confined_commit:
  assumes inv: "world_inv w" and out: "outside x w" and a: "join_args (JoinFound f n p l)"
    and ok: "join_commit pk x f n p l w = Ok w'"
  shows "confined x w w'"
proof -
  from outside_world_inv [OF out] obtain k where k: "cl w x = Some k" "cchan k = None" by blast
  show ?thesis
  proof (cases f)
    case (Some r)
    with ok show ?thesis by (auto simp: join_commit_def intro: confined_Add [OF inv k])
  next
    case None
    from a have "p \<noteq> [] \<Longrightarrow> l" "n \<noteq> []" by (auto simp: join_args_def)
    then obtain w1 k' where "AddChannel pk n p l x w = Ok w1"
      "\<And>y. cl w1 y = (if y = x then Some k' else cl w y)"
      by (rule AddChannel_effect [OF inv k]) blast+
    moreover from None ok have "AddChannel pk n p l x w = Ok w'" by (simp add: join_commit_def)
    ultimately have "\<And>y. cl w' y = (if y = x then Some k' else cl w y)" by simp
    then show ?thesis using k by (intro confined_self) (auto simp: room_of_def)
  qed
qed

lemma confined_leave:
  assumes inv: "world_inv w" and k: "cl w x = Some k" and ok: "leave_channel pk x w = Ok w'"
  shows "confined x w w'"
proof (cases "cchan k")
  case None
  with ok k show ?thesis by (simp add: leave_channel_def)
next
  case (Some r)
  with ok k have R: "Remove pk r x w = Ok w'" by (simp add: leave_channel_def)
  from member_live [OF inv k Some] obtain c where c: "ch w r = Some c" by auto
  note E = Remove_effect [OF inv k Some c R]
  have "room_of w' x = None" using E [of x] by (simp add: room_of_def ClearChannel_def)
  moreover have "room_of w' y = room_of w y" if "y \<noteq> x" for y
    using E [of y] that
    by (cases "cl w y") (auto simp: room_of_def send_data_def sends_only_fields(2) [OF sends_only_Send])
  moreover have "room_of w x = Some r" using k Some by (simp add: room_of_def)
  ultimately show ?thesis using E by (auto simp: confined_def)
qed

section \<open>The system\<close>

text \<open>The client a step acts for.\<close>

fun actor :: "event \<Rightarrow> nat option" where
  "actor (EAccept addr s) = None"
| "actor (EReceive env x input) = Some x"
| "actor (ECommit pk x) = Some x"
| "actor (EGraceful pick x) = Some x"
| "actor (EHangup x) = Some x"
| "actor (ELeave pk x) = Some x"
| "actor (EDelete x) = Some x"
| "actor (EPing pick x) = Some x"
| "actor (ETeardown x) = Some x"
| "actor (EWriter net e x) = Some x"
| "actor (EStop s) = None"

lemma settle_world:
  assumes "settle x r sy = Some sy'"
  obtains w c where "r = Ok (w, c)" "sw sy' = w" | p where "r = Panic p" "sw sy' = sw sy"
    | w c where "r = Goexit (w, c)"
  using assms by (cases "(x, r, sy)" rule: settle.cases) (auto simp: set_stage_def)

lemma finished_Ok: "finished r = Ok (w, c) \<Longrightarrow> r = Ok w"
  and finished_Goexit: "finished r = Goexit (w, c) \<Longrightarrow> r = Goexit w"
  by (cases r; simp)+

lemma confined_settle:
  assumes s: "settle x (finished r) sy = Some sy'"
    and k: "\<And>w'. r = Ok w' \<Longrightarrow> confined x (sw sy) w'" and g: "\<And>w'. r \<noteq> Goexit w'"
  shows "confined x (sw sy) (sw sy')"
  using s by (rule settle_world) (auto dest!: finished_Ok finished_Goexit simp: g intro: k)

lemma confined_own:
  assumes "sw sy' = upd_cl x f (sw sy)" "\<And>k. cl (sw sy) x = Some k \<Longrightarrow> cchan (f k) = cchan k"
  shows "confined x (sw sy) (sw sy')"
  using assms by (intro confined_self) (cases "cl (sw sy) x"; simp add: room_of_upd_cl room_of_def)+

lemma writer_step_chan: "cchan (writer_step net e k) = cchan k"
  by (auto simp: writer_step_def writer_take_def writer_timer_def Let_def set_wr_def Close_def stop_writer_def
      split: list.split writer_event.split)

text \<open>Every step but accepting and stopping is confined to the client it acts for.\<close>

lemma perform_confined:
  assumes inv: "sys_inv sy" and p: "perform mx e sy = Some sy'" and x: "actor e = Some x"
  shows "confined x (sw sy) (sw sy')"
proof -
  have W: "world_inv (sw sy)" "settled (sw sy)" using inv by (simp_all add: sys_inv_def)
  from p have run: "perform_running mx e sy = Some sy'" by (simp add: perform_def split: if_splits)
  show ?thesis
  proof (cases e)
    case (EReceive env z input)
    with run x obtain m rest b where st: "stages sy x = Some Reading"
      and f: "ReadBytes EndMessage input = Some (m, rest)" "handle_frame mx m = Received b"
      and s: "settle x (receive_begin env x b (sw sy)) sy = Some sy'"
      by (auto split: option.splits stage.splits frame_action.splits prod.splits)
    have con: "connected x (sw sy)" by (rule connected_reader(1) [OF inv st]) simp
    note c = handle_frame_clean(1) [OF f]
    from s show ?thesis
      by (rule settle_world)
        (use receive_begin_ok(2) [OF W con c] confined_receive [OF W(1) c] in auto)
  next
    case (ECommit pk z)
    with run x obtain f n p l where st: "stages sy x = Some (Joining f n p l)"
      and s: "settle x (finished (join_commit pk x f n p l (sw sy))) sy = Some sy'"
      by (auto split: option.splits stage.splits)
    have "stage_ok (sw sy) x (Joining f n p l)" using inv st by (simp only: sys_inv_def)
    with s show ?thesis
      by (intro confined_settle [OF s]) (auto intro: confined_commit [OF W(1)] simp: second_part_no_Goexit)
  next
    case (EGraceful pick z)
    with run x have s: "settle x (finished (client_CloseGracefully pick x (sw sy))) sy = Some sy'"
      by (auto split: if_splits)
    have "confined x (sw sy) w'" if "client_CloseGracefully pick x (sw sy) = Ok w'" for w'
    proof -
      from that obtain k k' where k: "cl (sw sy) x = Some k" "CloseGracefully pick k = Ok k'"
        "w' = upd_cl x (\<lambda>_. k') (sw sy)"
        by (auto simp: client_CloseGracefully_def split: option.splits go.splits)
      then have "cchan k' = cchan k" by (auto simp: CloseGracefully_def Close_def split: if_splits)
      with k show ?thesis
        by (intro confined_self) (simp_all add: room_of_upd_cl room_of_def)
    qed
    with s show ?thesis by (intro confined_settle [OF s]) (simp_all add: second_part_no_Goexit)
  next
    case (EHangup z)
    with run x show ?thesis
      by (intro confined_own [where f = Close]) (auto simp: set_stage_def Close_def split: if_splits)
  next
    case (ELeave pk z)
    with run x have st: "stages sy x = Some Leaving"
      and l: "(\<exists>w'. leave_channel pk x (sw sy) = Ok w' \<and> sw sy' = w') \<or> sw sy' = sw sy"
      by (auto simp: set_stage_def split: if_splits go.splits)
    from connected_reader(2) [OF inv st] obtain k where "cl (sw sy) x = Some k" by auto
    with l show ?thesis using confined_leave [OF W(1)] by auto
  next
    case (EDelete z)
    with run x have "cl (sw sy') = cl (sw sy)"
      by (auto simp: set_stage_def delete_client_def split: if_splits)
    then show ?thesis by (intro confined_self) (simp_all add: room_of_def)
  next
    case (EPing pick z)
    with run x show ?thesis
      by (intro confined_own [where f = "ping pick"])
        (auto simp: ping_def sends_only_fields(2) [OF sends_only_Send] split: if_splits option.splits)
  next
    case (ETeardown z)
    with run x show ?thesis
      by (intro confined_own [where f = teardown]) (auto simp: teardown_def split: if_splits option.splits)
  next
    case (EWriter net we z)
    with run x show ?thesis
      by (intro confined_own [where f = "writer_step net we"])
        (auto simp: writer_step_chan split: if_splits option.splits)
  qed (use x in auto)
qed

text \<open>Accepting and stopping move nobody.\<close>

lemma perform_rooms:
  assumes inv: "sys_inv sy" and p: "perform mx e sy = Some sy'" and x: "actor e = None"
  shows "room_of (sw sy') = room_of (sw sy)"
proof -
  from p have run: "perform_running mx e sy = Some sy'" by (simp add: perform_def split: if_splits)
  show ?thesis
  proof (cases e)
    case (EAccept addr s)
    with run obtain y w' where a: "accept addr s (stopped sy s) (sw sy) = (y, w')" "sw sy' = w'"
      by (auto simp: set_stage_def split: prod.splits)
    have "cl (sw sy) y = None"
      using accept_simps(1) [OF a(1)] inv world_invD(1) [of "sw sy" y]
      by (cases "cl (sw sy) y") (auto simp: sys_inv_def client_ok_def)
    then show ?thesis
      using a(2) accept_simps(7) [OF a(1)] by (intro ext) (simp add: room_of_def SetID_def new_client_def)
  next
    case (EStop s)
    with run have "cl (sw sy') = (\<lambda>x. map_option (\<lambda>k. if srv k = s then Close k else k) (cl (sw sy) x))"
      by (auto simp: close_all_def)
    then show ?thesis by (intro ext) (auto simp: room_of_def Close_def bind_map_option o_def intro: bind_option_cong)
  qed (use x in auto)
qed

lemma sys_step_room_step:
  assumes inv: "sys_inv sy" and step: "sys_step mx sy sy'"
  shows "room_step (room_of (sw sy)) (room_of (sw sy'))"
proof -
  from perform_complete [OF step] obtain e where p: "perform mx e sy = Some sy'" ..
  show ?thesis
  proof (cases "actor e")
    case None
    then show ?thesis using perform_rooms [OF inv p] by (simp add: room_stay)
  next
    case (Some x)
    then show ?thesis by (intro confined_step perform_confined [OF inv p])
  qed
qed

interpretation rooms: simulation "initial m d" "sys_step mx" sys_inv "\<lambda>sy. room_of (sw sy)" room_step for m d mx
  by unfold_locales (rule sys_step_room_step)

end
