(* ===== verification/Sequential.thy ===== *)
theory Sequential
  imports System
begin

text \<open>
  The server with every message handled without interruption: what a single lock around
  \<open>MessageReceived\<close> and \<open>RemoveClient\<close> would give. Here every live channel is the
  one its name leads to and no join meets a channel that has quit, so both defects of the
  interleaved system come from the gap between \<open>FindChannel\<close> and \<open>Add\<close> or
  \<open>AddChannel\<close>.
\<close>

section \<open>One message\<close>

lemma receive_begin_registered:
  assumes "registered w" "clean m" "receive_begin env x m w = Ok (w', c)"
  shows "registered w'"
proof -
  have e: "registered (sendError pk x t w)" "registered (fst (sendJSON pk x d w))" for pk t d
    using assms(1) registered_only_sends [OF only_sends_reply(1)] registered_only_sends [OF only_sends_reply(2)]
    by simp_all
  have b: "registered w'" if "cmd_begin env x d w = Ok (w', c)" for d
    using that e assms(1)
    by (auto simp: cmd_begin_def join_begin_def generate_begin_def protocol_version_handler_def Let_def
        split: if_splits option.splits sum.splits prod.splits)
  have r: "registered (SendAll pk r m' e w)" "registered (SendOthers pk r m' e w)"
    if "JsonAddOrigin m i = (m', er)" for pk r e i m' er
    using registered_only_sends [OF only_sends_relay(1) [OF assms(2), of w pk r i e]]
      registered_only_sends [OF only_sends_relay(2) [OF assms(2), of w pk r i e]] assms(1) that by simp_all
  from assms(1,3) b r show ?thesis
    by (auto simp: receive_begin_def split: option.splits if_splits prod.splits sum.splits)
qed

lemma FindChannel_live:
  assumes "settled w" "FindChannel n w = Some r"
  obtains c ms where "ch w r = Some c" "ClientsAll c = Some ms"
  using assms by (fastforce simp: settled_def FindChannel_def dest!: map_of_SomeD)

lemma join_commit_registered:
  assumes inv: "world_inv w" "settled w" and out: "outside x w" and reg: "registered w"
    and args: "join_args (JoinFound f n p l)" and f: "f = FindChannel n w"
  shows "join_commit pk x f n p l w = Ok w' \<Longrightarrow> registered w'"
    and "join_commit pk x f n p l w \<noteq> Panic NilMapWrite"
proof -
  from outside_world_inv [OF out] obtain k where k: "cl w x = Some k" "cchan k = None" "x \<in> set (clients w)"
    by blast
  from args have a: "p \<noteq> [] \<Longrightarrow> l" "n \<noteq> []" by (auto simp: join_args_def)
  show "join_commit pk x f n p l w = Ok w' \<Longrightarrow> registered w'"
    using reg f AddChannel_inv(5) [OF inv(1) k a] registered_Add
    by (auto simp: join_commit_def split: option.splits)
  show "join_commit pk x f n p l w \<noteq> Panic NilMapWrite"
  proof (cases f)
    case None
    then show ?thesis using AddChannel_Ok [where pk = pk, OF inv(1) k a] by (fastforce simp: join_commit_def)
  next
    case (Some r)
    with f FindChannel_live [OF inv(2)] obtain c ms where "ch w r = Some c" "ClientsAll c = Some ms" by metis
    then show ?thesis using Some by (simp add: join_commit_def Add_unfold [OF _ k(1)] Let_def)
  qed
qed

lemma MessageReceived_registered:
  assumes inv: "world_inv w" "settled w" and reg: "registered w" and con: "connected x w" and m: "clean m"
  shows "MessageReceived env x m w = Ok w' \<Longrightarrow> registered w'"
    and "MessageReceived env x m w \<noteq> Panic NilMapWrite"
proof -
  note B = receive_begin_ok [OF inv con m, where env = env]
  have fin: "(cmd_finish env x (w1, c) = Ok w' \<longrightarrow> registered w') \<and> cmd_finish env x (w1, c) \<noteq> Panic NilMapWrite"
    if b: "receive_begin env x m w = Ok (w1, c)" for w1 c w'
  proof -
    from B(1) [OF b] have k: "kept x w w1" "join_args c" "c \<noteq> Finished \<Longrightarrow> c \<noteq> ThenClose \<Longrightarrow> outside x w1" by auto
    then have inv1: "world_inv w1" "settled w1" by (simp_all add: kept_def)
    have reg1: "registered w1" by (rule receive_begin_registered [OF reg m b])
    show ?thesis
    proof (cases c)
      case Finished
      with reg1 show ?thesis by (auto simp: cmd_finish_def)
    next
      case ThenClose
      then show ?thesis using reg1
        by (auto simp: cmd_finish_def client_CloseGracefully_def CloseGracefully_def
            split: option.splits go.splits if_splits)
    next
      case (JoinFound f n p l)
      note J = join_commit_registered [where pk = "ce_picks env", OF inv1 k(3) reg1 k(2) [unfolded JoinFound]
          receive_begin_found [OF b JoinFound]]
      from JoinFound J show ?thesis by (auto simp: cmd_finish_def)
    qed
  qed
  then show "MessageReceived env x m w = Ok w' \<Longrightarrow> registered w'"
    by (auto simp: MessageReceived_parts split: go.splits)
  show "MessageReceived env x m w \<noteq> Panic NilMapWrite"
    using fin B(3) [of NilMapWrite] by (auto simp: MessageReceived_parts split: go.split)
qed

section \<open>The sequential server\<close>

text \<open>The events of the other goroutines of a connection.\<close>

fun background :: "client_event \<Rightarrow> bool" where
  "background (CSend pick b) = (b = ping_msg)"
| "background CTeardown = True"
| "background (CWriter net e) = True"
| "background _ = False"

inductive seq_step :: "world \<Rightarrow> world \<Rightarrow> bool" where
  seq_accept: "accept addr s pd w = (x, w') \<Longrightarrow> seq_step w w'"
| seq_message: "connected x w \<Longrightarrow> clean m \<Longrightarrow> MessageReceived env x m w = Ok w' \<Longrightarrow> seq_step w w'"
| seq_cleanup: "connected x w \<Longrightarrow> cleanup pk x w = Ok w' \<Longrightarrow> seq_step w w'"
| seq_background:
    "cl w x = Some k \<Longrightarrow> background e \<Longrightarrow> client_step e k = Ok k' \<Longrightarrow> seq_step w (upd_cl x (\<lambda>_. k') w)"

definition seq_inv :: "world \<Rightarrow> bool" where
  "seq_inv w \<longleftrightarrow> world_inv w \<and> settled w \<and> registered w"

lemma cleanup_inv:
  assumes inv: "seq_inv w" and con: "connected x w" and ok: "cleanup pk x w = Ok w'"
  shows "seq_inv w'"
proof -
  let ?w = "upd_cl x Close w"
  have W: "world_inv w" "settled w" "registered w" using inv by (simp_all add: seq_inv_def)
  have "kept x w ?w" by (rule kept_only_sends [OF only_sends_Close W(1,2)])
  then have W1: "world_inv ?w" "settled ?w" by (simp_all add: kept_def)
  from con obtain k where k: "cl ?w x = Some k" by (auto simp: connected_def)
  from ok obtain w1 where l: "leave_channel pk x ?w = Ok w1" "w' = delete_client x w1"
    by (auto simp: cleanup_def RemoveClient_def go_bind_Ok_iff)
  note L = leave_channel_inv [OF W1(1) k l(1)]
  from L(5) obtain k' where k': "cl w1 x = Some k'" "cchan k' = None" by blast
  have f: "ch w' = ch w1" "channels w' = channels w1" unfolding l(2) by (simp_all add: delete_client_def)
  from world_inv_delete_client [OF L(1) k'] L(2,3) W W1 f show ?thesis
    by (simp add: seq_inv_def l(2) settled_def registered_def)
qed

lemma seq_inv_step: assumes inv: "seq_inv w" and step: "seq_step w w'" shows "seq_inv w'"
  using step
proof cases
  case (seq_accept addr s pd x)
  with inv world_inv_accept [OF _ seq_accept] show ?thesis by (simp add: seq_inv_def)
next
  case (seq_message x m env)
  then have "kept x w w'" "registered w'"
    using inv MessageReceived_kept(1) [of w x m env w'] MessageReceived_registered(1) [of w x m env w']
    by (simp_all add: seq_inv_def)
  then show ?thesis by (simp add: seq_inv_def kept_def)
next
  case (seq_cleanup x pk)
  with cleanup_inv [OF inv] show ?thesis by blast
next
  case (seq_background x k e k')
  have W: "world_inv w" "settled w" "registered w" using inv by (simp_all add: seq_inv_def)
  have "EndMessage \<notin> set ping_msg" using clean_constants(2) by (simp add: clean_def)
  with seq_background(3) have "e = CSend pick b \<Longrightarrow> EndMessage \<notin> set b" for pick b by auto
  from client_ok_step [OF world_invD(1) [OF W(1) seq_background(2)] seq_background(4) this]
  have k': "client_ok w x k'" "cid k' = cid k" "cchan k' = cchan k" "auth k' = auth k" by auto
  from world_inv_upd [OF W(1) seq_background(2), of "\<lambda>_. k'"] k' W(2,3) seq_background(1) show ?thesis
    by (simp add: seq_inv_def)
qed

lemma seq_inv_initial: "seq_inv (empty_world m d)"
  by (simp add: seq_inv_def empty_world_def world_inv_def settled_def registered_def)

interpretation seq: invariant_system "empty_world m d" seq_step seq_inv for m d
  by unfold_locales (auto intro: seq_inv_initial seq_inv_step)

end
