(* ===== verification/System_Properties.thy ===== *)
theory System_Properties
  imports Rooms Sequential
begin

text \<open>
  What holds in every state the server can reach, whatever the clients send and however the
  goroutines interleave; what can take the process down; and the runs in which it does.
\<close>

lemma reach_inv: "reach (initial m d) (sys_step mx) sy \<Longrightarrow> sys_inv sy"
  by (rule sys.inv_reach)

lemma reach_world:
  assumes "reach (initial m d) (sys_step mx) sy"
  shows "world_inv (sw sy)" "settled (sw sy)" "ids_inv (sw sy)"
  using reach_inv [OF assms] by (simp_all add: sys_inv_def)

section \<open>Membership\<close>

text \<open>
  C1 A client's pointer to its channel and the channel's member map agree in both directions in
  every reachable state, a member is filed under its own number, a member is a connected client,
  and no client or number occurs twice in a channel.
\<close>

theorem membership_agrees:
  assumes "reach (initial m d) (sys_step mx) sy"
  shows "((i, x) \<in> set (members r (sw sy)) \<longleftrightarrow> (\<exists>k. cl (sw sy) x = Some k \<and> cid k = i \<and> cchan k = Some r)) \<and>
    ((i, x) \<in> set (members r (sw sy)) \<longrightarrow> FindClient x (sw sy)) \<and>
    distinct (map fst (members r (sw sy))) \<and> distinct (map snd (members r (sw sy)))"
proof (intro conjI)
  note W = reach_world(1) [OF assms]
  show iff: "(i, x) \<in> set (members r (sw sy)) \<longleftrightarrow>
      (\<exists>k. cl (sw sy) x = Some k \<and> cid k = i \<and> cchan k = Some r)"
    using world_inv_member [OF W] world_invD(1) [OF W] by (fastforce simp: client_ok_def)
  then show "(i, x) \<in> set (members r (sw sy)) \<longrightarrow> FindClient x (sw sy)"
    using world_invD(1) [OF W] by (auto simp: client_ok_def FindClient_def)
  show "distinct (map snd (members r (sw sy)))" by (rule world_inv_distinct_addr [OF W])
  show "distinct (map fst (members r (sw sy)))"
    using world_invD(2) [OF W, of r] by (cases "ch (sw sy) r") (auto simp: channel_ok_def members_def)
qed

lemma membership_agrees_witness:
  "(2, 1) \<in> set (members 0 (sw (after two_join))) \<and> FindClient 1 (sw (after two_join))"
proof (rule two_join_at)
  assume "members 0 (sw (after two_join)) = [(2, 1), (1, 0)]"
  with membership_agrees [OF after_two_join, of 2 1 0] show ?thesis by simp
qed

text \<open>
  C2 In every reachable state each name in the table leads to a channel of that name that has
  not quit and has a member, no name occurs twice, and no channel at all is live and empty.
\<close>

theorem named_channels_live:
  assumes "reach (initial m d) (sys_step mx) sy"
  shows "(\<forall>(n, r) \<in> set (channels (sw sy)). \<exists>c ms. ch (sw sy) r = Some c \<and> ch_name c = n \<and>
            ClientsAll c = Some ms \<and> ms \<noteq> []) \<and>
         distinct (map fst (channels (sw sy))) \<and>
         (\<forall>r c. ch (sw sy) r = Some c \<longrightarrow> ClientsAll c \<noteq> Some [])"
proof (intro conjI ballI)
  note W = reach_world [OF assms]
  show "distinct (map fst (channels (sw sy)))" by (rule world_invD(3) [OF W(1)])
  show e: "\<forall>r c. ch (sw sy) r = Some c \<longrightarrow> ClientsAll c \<noteq> Some []" using W(2) by (simp add: settled_def)
  fix nr assume nr: "nr \<in> set (channels (sw sy))"
  obtain n r where p: "nr = (n, r)" by (cases nr)
  from world_invD(4) [OF W(1)] nr p obtain c where c: "ch (sw sy) r = Some c" "ch_name c = n" by blast
  with W(2) nr p obtain ms where "ClientsAll c = Some ms" by (fastforce simp: settled_def)
  with c e p show "case nr of (n, r) \<Rightarrow> \<exists>c ms. ch (sw sy) r = Some c \<and> ch_name c = n \<and>
      ClientsAll c = Some ms \<and> ms \<noteq> []" by auto
qed

lemma named_channels_live_witness:
  "\<exists>c ms. ch (sw (after two_join)) 0 = Some c \<and> ch_name c = ''a'' \<and> ClientsAll c = Some ms \<and> ms \<noteq> []"
proof (rule two_join_at)
  assume "channels (sw (after two_join)) = [(''a'', 0)]"
  with named_channels_live [OF after_two_join] show ?thesis by simp
qed

text \<open>
  C3 Whoever is in an unlocked channel is authorised, and nobody in a locked channel without a
  password is, in every reachable state.
\<close>

theorem authorisation_by_channel:
  assumes "reach (initial m d) (sys_step mx) sy"
    and "cl (sw sy) x = Some k" "cchan k = Some r" "ch (sw sy) r = Some c"
  shows "(\<not> ch_locked c \<longrightarrow> auth k) \<and> (ch_locked c \<and> ch_password c = [] \<longrightarrow> \<not> auth k)"
proof -
  note W = reach_world(1) [OF assms(1)]
  from world_invD(1) [OF W assms(2)] assms(3) have "(cid k, x) \<in> set (members r (sw sy))"
    by (simp add: client_ok_def)
  from world_inv_member [OF W this] assms(2,4) show ?thesis by (auto simp: auth_ok_def)
qed

lemma authorisation_by_channel_witness:
  "\<exists>k. cl (sw (after two_join)) 1 = Some k \<and> auth k"
proof (rule two_join_at)
  fix k c assume a: "cl (sw (after two_join)) 1 = Some k" "cchan k = Some 0" "ch (sw (after two_join)) 0 = Some c"
    "\<not> ch_locked c"
  with authorisation_by_channel [OF after_two_join a(1-3)] show ?thesis by blast
qed

section \<open>Queues and numbers\<close>



text \<open>
  As long as at most \<open>2 ^ 32\<close> connections have been accepted, no two clients have the same
  number, and the first \<open>2 ^ 31 - 1\<close> are numbered 1, 2, 3 and so on.
\<close>

theorem client_numbers:
  assumes "reach (initial m d) (sys_step mx) sy" and "next_cl (sw sy) \<le> 2 ^ 32"
    and "cl (sw sy) x = Some k" "cl (sw sy) y = Some j"
  shows "(cid k = cid j \<longleftrightarrow> x = y) \<and> (x < 2 ^ 31 - 1 \<longrightarrow> cid k = int x + 1)"
proof -
  note W = reach_world [OF assms(1)]
  have "cid k = nth_id x" "cid j = nth_id y" using W(3) assms(3,4) by (auto simp: ids_inv_def)
  moreover have "x < next_cl (sw sy)" "y < next_cl (sw sy)"
    using world_invD(1) [OF W(1)] assms(3,4) by (auto simp: client_ok_def)
  then have "x < 2 ^ 32" "y < 2 ^ 32" using assms(2) by linarith+
  ultimately show ?thesis using nth_id_inj [of x y] nth_id_small [of x] assms(3,4) by auto
qed

lemma client_numbers_witness:
  "\<exists>k j. cl (sw (after two_join)) 0 = Some k \<and> cl (sw (after two_join)) 1 = Some j \<and> cid k = 1 \<and> cid k \<noteq> cid j"
proof (rule two_join_at)
  fix k j assume a: "cl (sw (after two_join)) 0 = Some k" "cl (sw (after two_join)) 1 = Some j"
    "next_cl (sw (after two_join)) = 2"
  then have "next_cl (sw (after two_join)) \<le> 2 ^ 32" by simp
  from client_numbers [OF after_two_join this a(1,2)] a show ?thesis by auto
qed

section \<open>Rooms\<close>

text \<open>
  C7 The server implements the abstract one of rooms: from every reachable state each step
  leaves every client in its room, or moves one client from no room into a room, or out of its
  room; and nobody is in a room at first. In particular nobody gets from one room into another
  in one step, and nobody is moved by what another client sends.
\<close>

theorem server_implements_rooms:
  assumes "reach (initial m d) (sys_step mx) sy" and "sys_step mx sy sy'"
  shows "room_step (room_of (sw sy)) (room_of (sw sy')) \<and> room_of (sw (initial m d)) = (\<lambda>x. None)"
  using rooms.abs_step [OF reach_inv [OF assms(1)] assms(2)]
  by (auto simp: room_of_def initial_def empty_world_def fun_eq_iff)

lemma server_implements_rooms_witness:
  "\<exists>sy'. sys_step 0 (after two_join) sy' \<and> room_step (room_of (sw (after two_join))) (room_of (sw sy'))"
proof (rule relay_at)
  fix sy' assume "perform 0 (EReceive sample_env 0 relay_line) (after two_join) = Some sy'"
  then have s: "sys_step 0 (after two_join) sy'" by (rule perform_sound)
  with server_implements_rooms [OF after_two_join s] show ?thesis by blast
qed

text \<open>
  C4 What a client does touches only the clients it shares a room with: if a step of one client
  (a message, joining, leaving, anything but the stop of the server) changes another client's
  state at all, then both are in one room, before or after the step.
\<close>

theorem rooms_isolated:
  assumes "reach (initial m d) (sys_step mx) sy" and "perform mx e sy = Some sy'"
    and "actor e = Some x" "y \<noteq> x" and "cl (sw sy') y \<noteq> cl (sw sy) y"
  shows "\<exists>r. room_of (sw sy) y = Some r \<and> room_of (sw sy') y = Some r \<and>
    (room_of (sw sy) x = Some r \<or> room_of (sw sy') x = Some r)"
proof -
  from perform_confined [OF reach_inv [OF assms(1)] assms(2,3)] assms(4,5)
  have "room_of (sw sy') y = room_of (sw sy) y" and
    "\<exists>r. room_of (sw sy) y = Some r \<and> (room_of (sw sy) x = Some r \<or> room_of (sw sy') x = Some r)"
    by (auto simp: confined_def)
  then show ?thesis by auto
qed

lemma rooms_isolated_witness:
  "\<exists>sy r. perform 0 (EReceive sample_env 0 relay_line) (after two_join) = Some sy \<and>
     room_of (sw (after two_join)) 1 = Some r \<and> cl (sw sy) 1 \<noteq> cl (sw (after two_join)) 1"
proof (rule relay_at)
  fix sy assume p: "perform 0 (EReceive sample_env 0 relay_line) (after two_join) = Some sy"
    and c: "cl (sw sy) 1 \<noteq> cl (sw (after two_join)) 1"
  have "actor (EReceive sample_env 0 relay_line) = Some 0" "(1::nat) \<noteq> 0" by simp_all
  from rooms_isolated [OF after_two_join p this c] p c show ?thesis by blast
qed

section \<open>What takes the process down\<close>



text \<open>
  C11 Both panics happen: there are runs of the server from its start, with two clients and four
  lines of input, that end in the write to a nil map, and with one client and two lines in the
  send on a closed channel.
\<close>

theorem crashes_reachable:
  "(\<exists>sy. reach (initial [] False) (sys_step 0) sy \<and> crash sy = Some NilMapWrite) \<and>
   (\<exists>sy. reach (initial [] False) (sys_step 0) sy \<and> crash sy = Some SendOnClosedChannel)"
proof
  have "map_option crash (run_events 0 join_meets_quit (initial [] False)) = Some (Some NilMapWrite)" by code_simp
  then show "\<exists>sy. reach (initial [] False) (sys_step 0) sy \<and> crash sy = Some NilMapWrite"
    using run_events_reach [OF reach_init] by fastforce
  have "map_option crash (run_events 0 key_after_close (initial [] False)) = Some (Some SendOnClosedChannel)" by code_simp
  then show "\<exists>sy. reach (initial [] False) (sys_step 0) sy \<and> crash sy = Some SendOnClosedChannel"
    using run_events_reach [OF reach_init] by fastforce
qed

text \<open>
  C12 Two clients can be in two live channels of the same name at once, where neither hears the
  other; and when the one the name leads to quits, the other is left without a name.
\<close>

theorem one_name_two_channels:
  "\<exists>sy c c'. reach (initial [] False) (sys_step 0) sy \<and>
     ch (sw sy) 0 = Some c \<and> ch (sw sy) 1 = Some c' \<and> ch_name c = ch_name c' \<and>
     ClientsAll c = Some [(1, 0)] \<and> ClientsAll c' = Some [(2, 1)] \<and> FindChannel (ch_name c) (sw sy) = Some 1 \<and>
     (\<exists>sy' d. reach sy (sys_step 0) sy' \<and> ch (sw sy') 0 = Some d \<and> ClientsAll d = Some [(1, 0)] \<and>
        FindChannel (ch_name d) (sw sy') = None)"
proof -
  let ?v = "\<lambda>sy. (channels (sw sy), map_option (\<lambda>c. (ch_name c, ClientsAll c)) (ch (sw sy) 0),
      map_option (\<lambda>c. (ch_name c, ClientsAll c)) (ch (sw sy) 1))"
  have "map_option ?v (run_events 0 two_open (initial [] False)) =
      Some ([(''a'', 1)], Some (''a'', Some [(1, 0)]), Some (''a'', Some [(2, 1)]))" by code_simp
  then obtain sy where sy: "run_events 0 two_open (initial [] False) = Some sy"
    "?v sy = ([(''a'', 1)], Some (''a'', Some [(1, 0)]), Some (''a'', Some [(2, 1)]))" by auto
  have "map_option ?v (Option.bind (run_events 0 two_open (initial [] False)) (run_events 0 [EHangup 1, ELeave any_pick 1])) =
      Some ([], Some (''a'', Some [(1, 0)]), Some (''a'', None))" by code_simp
  with sy(1) obtain sy' where sy': "run_events 0 [EHangup 1, ELeave any_pick 1] sy = Some sy'"
    "?v sy' = ([], Some (''a'', Some [(1, 0)]), Some (''a'', None))" by auto
  from run_events_reach [OF reach_init sy(1)] have "reach (initial [] False) (sys_step 0) sy" .
  moreover from run_events_reach [OF reach_init sy'(1)] have "reach sy (sys_step 0) sy'" .
  ultimately show ?thesis using sy(2) sy'(2) by (fastforce simp: FindChannel_def)
qed

text \<open>
  C13 Both defects come from the gap between looking a channel up and entering it: in every state
  the server reaches when each message is handled without interruption, every live channel is
  the one its name leads to, and no message of a connected client makes the join panic.
\<close>

theorem uninterrupted_messages_safe:
  assumes "reach (empty_world m d) seq_step w"
  shows "(\<forall>r c. ch w r = Some c \<and> ClientsAll c \<noteq> None \<longrightarrow> FindChannel (ch_name c) w = Some r) \<and>
    (\<forall>env x msg. connected x w \<and> clean msg \<longrightarrow> MessageReceived env x msg w \<noteq> Panic NilMapWrite)"
proof -
  have inv: "world_inv w" "settled w" "registered w"
    using seq.inv_reach [OF assms] by (simp_all add: seq_inv_def)
  have "FindChannel (ch_name c) w = Some r" if "ch w r = Some c" "ClientsAll c \<noteq> None" for r c
    using inv(3) that map_of_Some_iff_distinct [OF world_invD(3) [OF inv(1)]]
    by (simp add: registered_def FindChannel_def)
  with MessageReceived_registered(2) [OF inv] show ?thesis by blast
qed

lemma uninterrupted_messages_safe_witness:
  "\<exists>w. reach (empty_world [] False) seq_step w \<and> connected 0 w \<and>
     MessageReceived sample_env 0 (butlast (command_line ''join'' ''a'')) w \<noteq> Panic NilMapWrite"
proof -
  obtain x w where a: "accept [] 0 False (empty_world [] False) = (x, w)" by fastforce
  have r: "reach (empty_world [] False) seq_step w"
    by (rule reach_step [where s = "empty_world [] False"]) (rule reach_init, rule seq_accept [OF a])
  have "x = 0" using accept_simps(1) [OF a] by (simp add: empty_world_def)
  moreover have "connected x w"
    using accept_simps [OF a] by (simp add: connected_def)
  moreover have "clean (butlast (command_line ''join'' ''a''))" by code_simp
  ultimately show ?thesis using uninterrupted_messages_safe [OF r] r by blast
qed

text \<open>
  The step relation and the executable runs agree: a state is reachable exactly if some list
  of events leads to it from the start.
\<close>

theorem runs_are_reachability:
  "reach (initial m d) (sys_step mx) sy \<longleftrightarrow> (\<exists>es. run_events mx es (initial m d) = Some sy)"
proof
  assume "reach (initial m d) (sys_step mx) sy"
  then show "\<exists>es. run_events mx es (initial m d) = Some sy"
  proof induction
    case reach_init
    show ?case by (rule exI [of _ "[]"]) simp
  next
    case (reach_step s t)
    from perform_complete [OF reach_step(2)] reach_step(3) run_events_snoc show ?case by metis
  qed
next
  assume "\<exists>es. run_events mx es (initial m d) = Some sy"
  then show "reach (initial m d) (sys_step mx) sy" using run_events_reach [OF reach_init] by blast
qed

end
