(* ===== verification/Channel_Properties.thy ===== *)
theory Channel_Properties
  imports Rooms
begin

text \<open>
  What joining, leaving and sending mean for everybody, in any state the server can reach: who
  is sent which message, who is authorised, what a refused command does.
\<close>

lemma reach_world_inv: "reach (initial m d) (sys_step mx) sy \<Longrightarrow> world_inv (sw sy)"
  using sys.inv_reach by (auto simp: sys_inv_def)

section \<open>Relaying\<close>

text \<open>
  C22 A JSON object from a member of a room is sent, with the sender's number put in as origin,
  to every other member of the room and to nobody else; a member alone in its room gets the
  notice that nobody is connected instead. Nothing else changes.
\<close>

theorem json_goes_to_the_room:
  assumes "reach (initial m d) (sys_step mx) sy" and "FindClient x (sw sy)"
    and "cl (sw sy) x = Some k" "cchan k = Some r" and "JsonAddOrigin msg (cid k) = (msg', None)"
  shows "\<exists>w'. MessageReceived env x msg (sw sy) = Ok w' \<and> w' = (sw sy)\<lparr>cl := cl w'\<rparr> \<and>
    (\<forall>y. cl w' y =
       (if \<forall>z. room_of (sw sy) z = Some r \<longrightarrow> z = x
        then (if y = x then Some (Send (ce_picks env x not_connected_msg) not_connected_msg k) else cl (sw sy) y)
        else if y \<noteq> x \<and> room_of (sw sy) y = Some r
          then map_option (Send (ce_picks env y msg') msg') (cl (sw sy) y)
        else cl (sw sy) y))"
proof -
  let ?w' = "SendOthers (ce_picks env) r msg' (Some x) (sw sy)"
  have x: "room_of (sw sy) x = Some r" using assms(3,4) by (simp add: room_of_def)
  have "MessageReceived env x msg (sw sy) = Ok ?w'"
    using assms(2-5) by (simp add: MessageReceived_def)
  moreover have "?w' = (sw sy)\<lparr>cl := cl ?w'\<rparr>"
    by (simp add: SendOthers_def client_Send_def upd_cl_def send_each_world)
  ultimately show ?thesis
    using SendOthers_effect [OF reach_world_inv [OF assms(1)] x] assms(3) by auto
qed

lemma json_goes_to_the_room_witness:
  "\<exists>w'. MessageReceived sample_env 0 (butlast relay_line) (sw (after two_join)) = Ok w' \<and>
     cl w' 0 = cl (sw (after two_join)) 0"
proof (rule two_join_at)
  fix k j assume k: "cl (sw (after two_join)) 0 = Some k" "cid k = 1" "cchan k = Some 0"
    and j: "cl (sw (after two_join)) 1 = Some j" "cchan j = Some 0"
    and m: "members 0 (sw (after two_join)) = [(2, 1), (1, 0)]"
  have "snd (JsonAddOrigin (butlast relay_line) 1) = None" by code_simp
  then have o: "JsonAddOrigin (butlast relay_line) (cid k) = (fst (JsonAddOrigin (butlast relay_line) 1), None)"
    by (metis k(2) prod.collapse)
  have "(1, 0) \<in> set (members 0 (sw (after two_join)))" using m by simp
  then have "FindClient 0 (sw (after two_join))"
    using world_invD(1) [OF reach_world_inv [OF after_two_join] k(1)] k(3)
    by (simp add: client_ok_def FindClient_def)
  moreover have "room_of (sw (after two_join)) 1 = Some 0" using j by (simp add: room_of_def)
  ultimately show ?thesis
    using json_goes_to_the_room [OF after_two_join _ k(1,3) o, of sample_env] by (metis zero_neq_one)
qed

text \<open>
  Bytes that are not a JSON object are relayed unchanged to every other member of the room and
  to nobody else; unlike the reference server's rule for JSON, a lonely sender hears nothing.
\<close>

theorem raw_goes_to_the_room:
  assumes "reach (initial m d) (sys_step mx) sy" and "FindClient x (sw sy)"
    and "cl (sw sy) x = Some k" "cchan k = Some r" and "snd (JsonAddOrigin msg (cid k)) \<noteq> None"
  shows "\<exists>w'. MessageReceived env x msg (sw sy) = Ok w' \<and> w' = (sw sy)\<lparr>cl := cl w'\<rparr> \<and>
    (\<forall>y. cl w' y =
       (if y \<noteq> x \<and> room_of (sw sy) y = Some r
        then map_option (Send (ce_picks env y msg) msg) (cl (sw sy) y) else cl (sw sy) y))"
proof -
  let ?w' = "SendAll (ce_picks env) r msg (Some x) (sw sy)"
  from assms(5) JsonAddOrigin_error_data [of msg "cid k"] obtain e where
    "JsonAddOrigin msg (cid k) = (msg, Some e)" by (cases "JsonAddOrigin msg (cid k)") auto
  then have "MessageReceived env x msg (sw sy) = Ok ?w'"
    using assms(2-4) by (simp add: MessageReceived_def)
  moreover have "?w' = (sw sy)\<lparr>cl := cl ?w'\<rparr>"
    by (simp add: SendAll_def sendAllLocked_def send_each_world)
  ultimately show ?thesis
    using SendAll_effect [OF reach_world_inv [OF assms(1)]] by blast
qed

lemma raw_goes_to_the_room_witness:
  "\<exists>w'. MessageReceived sample_env 0 ''raw'' (sw (after two_join)) = Ok w' \<and>
     cl w' 1 = map_option (Send True ''raw'') (cl (sw (after two_join)) 1)"
proof (rule two_join_at)
  fix k j assume k: "cl (sw (after two_join)) 0 = Some k" "cid k = 1" "cchan k = Some 0"
    and j: "cl (sw (after two_join)) 1 = Some j" "cchan j = Some 0"
    and m: "members 0 (sw (after two_join)) = [(2, 1), (1, 0)]"
  have o: "snd (JsonAddOrigin ''raw'' (cid k)) \<noteq> None" unfolding k(2) by code_simp
  have f: "FindClient 0 (sw (after two_join))"
    using world_invD(1) [OF reach_world_inv [OF after_two_join] k(1)] k(3)
    by (simp add: client_ok_def FindClient_def)
  have "room_of (sw (after two_join)) 1 = Some 0" using j by (simp add: room_of_def)
  then show ?thesis
    using raw_goes_to_the_room [OF after_two_join f k(1,3) o, of sample_env]
    by (auto simp: sample_env_def any_pick_def)
qed

section \<open>Joining and leaving\<close>

text \<open>
  C23 Joining a live channel: every member is told of the newcomer and nobody else hears of it;
  the newcomer gets the list of the others first and then the message of the day, is authorised
  exactly as the channel's lock and the password say, and is filed in the channel.
\<close>

theorem join_existing_channel:
  assumes "reach (initial m d) (sys_step mx) sy" and "cl (sw sy) x = Some k" "cchan k = None"
    and "ch (sw sy) r = Some c" "ClientsAll c = Some ms" "map_of ms (cid k) = None"
  shows "\<exists>w'. Add pk r x password (sw sy) = Ok w' \<and>
    (\<forall>y. cl w' y =
       (if y = x then Some (fold (send_data pk x)
            (join_replies (ch_name c) (cid k) ms (Lmotd c (connectionType k) (ch_name c) password) (sw sy))
            (SetChannel r (SetAuthorized (if ch_locked c then password = ch_password c \<and> ch_password c \<noteq> [] else True) k)))
        else if room_of (sw sy) y = Some r
          then map_option (send_data pk y (client_joined_msg (ch_name c) (cid k) (connectionType k))) (cl (sw sy) y)
        else cl (sw sy) y)) \<and>
    ch w' r = Some (c\<lparr>ClientsAll := Some ((cid k, x) # ms)\<rparr>) \<and> (\<forall>q. q \<noteq> r \<longrightarrow> ch w' q = ch (sw sy) q) \<and>
    channels w' = channels (sw sy)"
  by (rule Add_effect [OF reach_world_inv [OF assms(1)] assms(2-6), where pk = pk and password = password])
    (simp add: grants_def)

text \<open>The third client of a run, which has not joined yet.\<close>

lemma third_client:
  obtains sy k k0 k1 c where "reach (initial [] False) (sys_step 0) sy"
    "cl (sw sy) 2 = Some k" "cchan k = None" "cid k = 3" "ch (sw sy) 0 = Some c" "ch_name c = ''a''"
    "ClientsAll c = Some [(2, 1), (1, 0)]" "cl (sw sy) 0 = Some k0" "cchan k0 = Some 0" "cl (sw sy) 1 = Some k1"
    "cchan k1 = Some 0" "FindClient 2 (sw sy)"
proof (rule two_join_at)
  fix k0 k1 c assume r: "crash (after two_join) = None" "next_cl (sw (after two_join)) = 2"
    "cl (sw (after two_join)) 0 = Some k0" "cchan k0 = Some 0" "cl (sw (after two_join)) 1 = Some k1"
    "cchan k1 = Some 0" "ch (sw (after two_join)) 0 = Some c" "ch_name c = ''a''"
    "members 0 (sw (after two_join)) = [(2, 1), (1, 0)]"
  obtain x w' where a: "accept [] 0 (stopped (after two_join) 0) (sw (after two_join)) = (x, w')" by fastforce
  note A = accept_simps [OF a]
  let ?sy = "set_stage x Reading w' (after two_join)"
  have s: "reach (initial [] False) (sys_step 0) ?sy"
    by (rule reach_step [OF after_two_join accept_step [OF r(1) a]])
  have "ClientsAll c = Some [(2, 1), (1, 0)]" using r(7,9) by (cases "ClientsAll c") (simp_all add: members_def)
  moreover from s have "ids_inv (sw ?sy)" using sys.inv_reach by (auto simp: sys_inv_def)
  then have "cid k = nth_id 2" if "cl (sw ?sy) 2 = Some k" for k using that by (simp add: ids_inv_def)
  ultimately show thesis
    using that [OF s, of _ c k0 k1] r A nth_id_small [of 2]
    by (simp add: set_stage_def SetID_def new_client_def FindClient_def)
qed

lemma join_existing_channel_witness:
  "\<exists>sy (k :: client) w'. reach (initial [] False) (sys_step 0) sy \<and> Add any_pick 0 2 [] (sw sy) = Ok w' \<and>
     cl w' 0 = map_option (send_data any_pick 0 (client_joined_msg ''a'' 3 (connectionType k))) (cl (sw sy) 0) \<and>
     members 0 w' = [(3, 2), (2, 1), (1, 0)]"
proof (rule third_client)
  fix sy k k0 k1 c assume a: "reach (initial [] False) (sys_step 0) sy"
    "cl (sw sy) 2 = Some k" "cchan k = None" "cid k = 3" "ch (sw sy) 0 = Some c" "ch_name c = ''a''"
    "ClientsAll c = Some [(2, 1), (1, 0)]" "cl (sw sy) 0 = Some k0" "cchan k0 = Some 0"
  have n: "map_of [(2, 1), (1, 0)] (cid k) = None" using a(4) by simp
  have "room_of (sw sy) 0 = Some 0" using a by (simp add: room_of_def)
  moreover from join_existing_channel [OF a(1-3,5,7) n, of any_pick "[]"] obtain w' where
    "Add any_pick 0 2 [] (sw sy) = Ok w'" "ch w' 0 = Some (c\<lparr>ClientsAll := Some ((cid k, 2) # [(2, 1), (1, 0)])\<rparr>)"
    "\<And>y. y \<noteq> 2 \<Longrightarrow> room_of (sw sy) y = Some 0 \<Longrightarrow>
       cl w' y = map_option (send_data any_pick y (client_joined_msg (ch_name c) (cid k) (connectionType k))) (cl (sw sy) y)"
    by auto
  ultimately show ?thesis
    using a by (intro exI [of _ sy] exI [of _ k] exI [of _ w']) (auto simp: members_def)
qed

text \<open>
  C24 Joining a name nobody has opens a channel with the newcomer as its only member, under its
  name, whatever the channel was before: it gets the empty list and nobody else hears anything.
\<close>

theorem join_opens_channel:
  assumes "reach (initial m d) (sys_step mx) sy" and "cl (sw sy) x = Some k" "cchan k = None"
    and "name \<noteq> []" "password \<noteq> [] \<longrightarrow> locked"
  shows "\<exists>w' r. AddChannel pk name password locked x (sw sy) = Ok w' \<and> ch (sw sy) r = None \<and>
    FindChannel name w' = Some r \<and> members r w' = [(cid k, x)] \<and> room_of w' x = Some r \<and>
    (\<forall>y. y \<noteq> x \<longrightarrow> cl w' y = cl (sw sy) y) \<and>
    (\<forall>n. n \<noteq> name \<longrightarrow> FindChannel n w' = FindChannel n (sw sy))"
proof -
  have p: "password \<noteq> [] \<Longrightarrow> locked" using assms(5) by simp
  note inv = reach_world_inv [OF assms(1)]
  obtain w' where w': "AddChannel pk name password locked x (sw sy) = Ok w'"
    "\<And>y. cl w' y =
      (if y = x then Some (fold (send_data pk x)
           (join_replies name (cid k) [] (Lmotd (fresh_channel name password locked) (connectionType k) name password) (sw sy))
           (SetChannel (next_ch (sw sy)) (SetAuthorized (grants (fresh_channel name password locked) password) k)))
       else cl (sw sy) y)"
    "channels w' = AList.update name (next_ch (sw sy)) (channels (sw sy))"
    "ch w' = (ch (sw sy))(next_ch (sw sy) \<mapsto> (fresh_channel name password locked)\<lparr>ClientsAll := Some [(cid k, x)]\<rparr>)"
    using AddChannel_effect [OF inv assms(2,3) p assms(4), where pk = pk] by blast
  have "cchan (fold (send_data pk x) ds j) = cchan j" for ds j
    by (induction ds arbitrary: j) (simp_all add: send_data_def sends_only_fields(2) [OF sends_only_Send])
  then have "room_of w' x = Some (next_ch (sw sy))" using w'(2) by (simp add: room_of_def SetChannel_def)
  moreover have "FindChannel n w' = (if n = name then Some (next_ch (sw sy)) else FindChannel n (sw sy))" for n
    using w'(3) by (simp add: FindChannel_def update_conv)
  ultimately show ?thesis
    using w' fresh_address [OF inv, of "next_ch (sw sy)"] by (auto simp: members_def)
qed

lemma last_member_iff:
  assumes inv: "world_inv w" and k: "cl w x = Some k" "cchan k = Some r"
  shows "(\<forall>z. room_of w z = Some r \<longrightarrow> z = x) \<longleftrightarrow> AList.delete (cid k) (members r w) = []"
proof -
  have own: "(cid k, x) \<in> set (members r w)"
    using world_invD(1) [OF inv k(1)] k(2) by (simp add: client_ok_def)
  from members_ch [OF own] obtain c where c: "ch w r = Some c" by blast
  have inj: "inj_on fst (set (members r w))" "inj_on snd (set (members r w))"
    using world_invD(2) [OF inv c] world_inv_distinct_addr [OF inv]
    by (simp_all add: channel_ok_def distinct_map)
  have u: "fst p = cid k \<longleftrightarrow> snd p = x" if "p \<in> set (members r w)" for p
    using inj_onD [OF inj(1) _ that own] inj_onD [OF inj(2) _ that own] by (metis fst_conv snd_conv)
  have "(AList.delete (cid k) (members r w) = []) \<longleftrightarrow> (\<forall>p \<in> set (members r w). fst p = cid k)"
    by (auto simp: AList.delete_eq filter_empty_conv case_prod_unfold)
  also have "\<dots> \<longleftrightarrow> (\<forall>p \<in> set (members r w). snd p = x)" by (rule ball_cong [OF refl u])
  also have "\<dots> \<longleftrightarrow> (\<forall>z. room_of w z = Some r \<longrightarrow> z = x)"
    unfolding members_room [OF inv, symmetric] by force
  finally show ?thesis by simp
qed

lemma join_opens_channel_witness:
  "\<exists>sy w' r. reach (initial [] False) (sys_step 0) sy \<and>
     AddChannel any_pick ''b'' ''pw'' True 2 (sw sy) = Ok w' \<and> members r w' = [(3, 2)] \<and>
     FindChannel ''b'' w' = Some r"
proof (rule third_client)
  fix sy k assume a: "reach (initial [] False) (sys_step 0) sy" "cl (sw sy) 2 = Some k" "cchan k = None" "cid k = 3"
  have "''b'' \<noteq> []" "''pw'' \<noteq> [] \<longrightarrow> True" by simp_all
  from join_opens_channel [OF a(1-3) this, of any_pick] a show ?thesis by auto
qed

text \<open>
  C25 Leaving: the others in the room are told and nobody else hears of it; the client is in no
  room; the channel forgets it, or, if it was the last, quits and gives up its name.
\<close>

theorem leaving_tells_the_room:
  assumes "reach (initial m d) (sys_step mx) sy" and "cl (sw sy) x = Some k" "cchan k = Some r"
  shows "\<exists>w' c. leave_channel pk x (sw sy) = Ok w' \<and> ch (sw sy) r = Some c \<and>
    (\<forall>y. cl w' y =
       (if y = x then Some (ClearChannel k)
        else if room_of (sw sy) y = Some r
          then map_option (send_data pk y (client_left_msg (cid k) (connectionType k))) (cl (sw sy) y)
        else cl (sw sy) y)) \<and>
    (if \<forall>z. room_of (sw sy) z = Some r \<longrightarrow> z = x
     then ch w' r = Some (c\<lparr>ClientsAll := None\<rparr>) \<and> FindChannel (ch_name c) w' = None
     else members r w' = AList.delete (cid k) (members r (sw sy)) \<and> channels w' = channels (sw sy))"
proof -
  note inv = reach_world_inv [OF assms(1)]
  from member_live [OF inv assms(2,3)] obtain c where c: "ch (sw sy) r = Some c" by blast
  from Remove_no_panic [OF c assms(2)] obtain w' where R: "Remove pk r x (sw sy) = Ok w'" by blast
  note T = Remove_tables(6) [OF c assms(2) R]
  have x: "room_of (sw sy) x = Some r" using assms(2,3) by (simp add: room_of_def)
  have del: "members r (sw sy) = (case ClientsAll c of None \<Rightarrow> [] | Some ms \<Rightarrow> ms)"
    using c by (simp add: members_def)
  note alone = last_member_iff [OF inv assms(2,3)]
  have "leave_channel pk x (sw sy) = Ok w'" using R assms(2,3) by (simp add: leave_channel_def)
  moreover have "if AList.delete (cid k) (members r (sw sy)) = []
     then ch w' r = Some (c\<lparr>ClientsAll := None\<rparr>) \<and> FindChannel (ch_name c) w' = None
     else members r w' = AList.delete (cid k) (members r (sw sy)) \<and> channels w' = channels (sw sy)"
    using T del by (auto simp: members_def FindChannel_def map_of_eq_None_iff set_AList_delete split: option.splits)
  ultimately show ?thesis
    unfolding alone using c Remove_effect [OF inv assms(2,3) c R] by blast
qed

lemma leaving_tells_the_room_witness:
  "\<exists>w'. leave_channel any_pick 0 (sw (after two_join)) = Ok w' \<and> members 0 w' = [(2, 1)]"
proof (rule two_join_at)
  fix k j assume k: "cl (sw (after two_join)) 0 = Some k" "cid k = 1" "cchan k = Some 0"
    and j: "cl (sw (after two_join)) 1 = Some j" "cchan j = Some 0"
    and m: "members 0 (sw (after two_join)) = [(2, 1), (1, 0)]"
  have "room_of (sw (after two_join)) 1 = Some 0" using j by (simp add: room_of_def)
  then have "\<not> (\<forall>z. room_of (sw (after two_join)) z = Some 0 \<longrightarrow> z = 0)" by (metis zero_neq_one)
  with leaving_tells_the_room [OF after_two_join k(1,3), of any_pick] k m show ?thesis by auto
qed

section \<open>Replies\<close>

lemma sort_map_key: "sort (map f xs) = map f (sort_key f xs)"
  by (rule properties_for_sort) simp_all

text \<open>
  Go visits the member map in any order, and no client can tell: a broadcast leaves the same
  state in whatever order the members are visited, and the list a newcomer gets is the sorted
  list of the others' numbers with their data in the same order.
\<close>

theorem iteration_order_invisible:
  assumes "distinct (map fst ms)" "distinct (map snd ms)" and "mset ms = mset ms'"
  shows "send_each pk msg (targets e ms) w = send_each pk msg (targets e ms') w \<and>
    channel_joined_msg name i ms w = channel_joined_msg name i ms' w \<and>
    sorted (UserIds (channel_joined_msg name i ms w)) \<and>
    set (UserIds (channel_joined_msg name i ms w)) = fst ` set ms - {i} \<and>
    map cd_ID (Clients (channel_joined_msg name i ms w)) = UserIds (channel_joined_msg name i ms w)"
proof (intro conjI)
  have "distinct (map snd ms')" using assms(2,3) by (metis mset_map mset_eq_imp_distinct_iff)
  then show "send_each pk msg (targets e ms) w = send_each pk msg (targets e ms') w"
    using assms(2) mset_eq_setD [OF assms(3)] by (intro send_each_perm) (simp_all add: targets_def)
  show "channel_joined_msg name i ms w = channel_joined_msg name i ms' w"
    by (rule channel_joined_msg_perm [OF assms(3,1)])
  show "sorted (UserIds (channel_joined_msg name i ms w))"
    "set (UserIds (channel_joined_msg name i ms w)) = fst ` set ms - {i}"
    by (auto simp: channel_joined_msg_cases Let_def)
  let ?o = "filter (\<lambda>p. fst p \<noteq> i) ms"
  note sort_map_key [of cd_ID "map (member_data w) ?o"]
  then show "map cd_ID (Clients (channel_joined_msg name i ms w)) = UserIds (channel_joined_msg name i ms w)"
    by (simp add: channel_joined_msg_cases Let_def member_data_def o_def)
qed

lemma iteration_order_invisible_witness:
  "channel_joined_msg ''a'' 1 [(3, 7), (1, 5), (2, 6)] (empty_world [] False) =
     channel_joined_msg ''a'' 1 [(1, 5), (2, 6), (3, 7)] (empty_world [] False) \<and>
   set (UserIds (channel_joined_msg ''a'' 1 [(3, 7), (1, 5), (2, 6)] (empty_world [] False))) = {2, 3}"
proof -
  have "distinct (map fst [(3::int, 7::nat), (1, 5), (2, 6)])" "distinct (map snd [(3::int, 7::nat), (1, 5), (2, 6)])"
    "mset [(3::int, 7::nat), (1, 5), (2, 6)] = mset [(1, 5), (2, 6), (3, 7)]" by simp_all
  note I = iteration_order_invisible [OF this, where pk = any_pick and msg = "[]" and e = None
      and w = "empty_world [] False" and name = "''a''" and i = 1]
  have s: "fst ` set [(3::int, 7::nat), (1, 5), (2, 6)] - {1} = {2, 3}" by auto
  show ?thesis using I unfolding s by blast
qed

text \<open>
  The notice of a locked channel tells the truth: a controlling client is told it is
  authorised exactly if the join authorised it, a controlled one that the password was accepted
  exactly then; an unlocked channel has no notice, and there everybody is authorised.
\<close>

theorem lock_notice_truthful:
  "(\<not> ch_locked c \<longrightarrow> Lmotd c t n pw = [] \<and> grants c pw) \<and>
   (ch_locked c \<longrightarrow>
      (let head = ''This is a locked channel. Name: '' @ n @ newline;
           nobody = ''No one will be able to control your computer''
       in Lmotd c connTypeMaster n pw = head @
            (if grants c pw then ''You are authorized to control any computer connected to this channel.''
             else ''You won'' @ [CHR 0x27] @ ''t be able to control any computers connected to this channel.'') \<and>
          Lmotd c connTypeSlave n pw = head @ nobody @
            (if ch_password c = [] then ''.''
             else if grants c pw then '' unless they authenticate (password accepted)''
             else '' unless they authenticate.'') \<and>
          (t \<noteq> connTypeMaster \<and> t \<noteq> connTypeSlave \<longrightarrow> Lmotd c t n pw = head)))"
proof -
  have "connTypeMaster \<noteq> connTypeSlave" by (simp add: connTypeMaster_def connTypeSlave_def)
  then show ?thesis by (auto simp: Lmotd_def grants_def Let_def)
qed

lemma lock_notice_truthful_witness:
  "grants \<lparr>ch_name = ''n'', ch_password = ''p'', ch_locked = True, ClientsAll = None\<rparr> ''p'' \<and>
   Lmotd \<lparr>ch_name = ''n'', ch_password = ''p'', ch_locked = True, ClientsAll = None\<rparr> connTypeMaster ''n'' ''p'' =
     ''This is a locked channel. Name: n'' @ newline @
     ''You are authorized to control any computer connected to this channel.''"
  using lock_notice_truthful [of "\<lparr>ch_name = ''n'', ch_password = ''p'', ch_locked = True, ClientsAll = None\<rparr>" _ "''n''" "''p''"]
  by (simp add: grants_def Let_def)

text \<open>
  C26 A client that is in no channel: what does not parse as JSON, has no type or an unknown one
  changes nothing; a join without a usable channel name is answered with an error and closes the
  client; no other client is touched, and none of these ends the goroutine or the process.
\<close>

theorem refused_messages:
  assumes "reach (initial m d) (sys_step mx) sy" and "FindClient x (sw sy)"
    and "cl (sw sy) x = Some k" "cchan k = None"
  shows "(\<forall>e. Decode msg = Inl e \<longrightarrow> MessageReceived env x msg (sw sy) = Ok (sw sy)) \<and>
    (\<forall>db. Decode msg = Inr db \<and> Type db \<notin> {''join'', ''protocol_version'', ''generate_key''} \<longrightarrow>
       MessageReceived env x msg (sw sy) = Ok (sw sy)) \<and>
    (\<forall>db. Decode msg = Inr db \<and> Type db = ''join'' \<and> (Channel db = [] \<or> Channel db = lock_prefix) \<longrightarrow>
       MessageReceived env x msg (sw sy) =
         Ok (upd_cl x Close (sendError (ce_picks env) x ''invalid_parameters'' (sw sy)))) \<and>
    (\<forall>db. Decode msg = Inr db \<and> Type db = ''protocol_version'' \<and> Version db \<le> 0 \<longrightarrow>
       MessageReceived env x msg (sw sy) = Ok (sw sy))"
proof -
  have M: "MessageReceived env x msg (sw sy) =
      (case Decode msg of Inl e \<Rightarrow> Ok (sw sy) | Inr db \<Rightarrow> cmd_exec env x db (sw sy))"
    using assms(2-4) by (simp add: MessageReceived_def)
  have "fst (getChannelParams (Channel db)) = []" if "Channel db = [] \<or> Channel db = lock_prefix" for db
    using that getChannelParams_empty_iff by simp
  then have j: "join_begin (ce_picks env) x db (sw sy) =
      (upd_cl x Close (sendError (ce_picks env) x ''invalid_parameters'' (sw sy)), Finished)"
    if "Channel db = [] \<or> Channel db = lock_prefix" for db
    using that assms(3,4) by (force simp: join_begin_def Let_def split: prod.splits)
  show ?thesis
    unfolding M cmd_exec_parts run_parts_def
    by (auto simp: cmd_begin_def cmd_finish_def j protocol_version_handler_def split: sum.splits)
qed

lemma refused_messages_witness:
  "\<exists>sy. reach (initial [] False) (sys_step 0) sy \<and> MessageReceived sample_env 2 ''nonsense'' (sw sy) = Ok (sw sy)"
proof (rule third_client)
  fix sy k assume a: "reach (initial [] False) (sys_step 0) sy" "FindClient 2 (sw sy)" "cl (sw sy) 2 = Some k" "cchan k = None"
  have "(case Decode ''nonsense'' of Inl e \<Rightarrow> True | Inr db \<Rightarrow> False)" by code_simp
  then obtain e where "Decode ''nonsense'' = Inl e" by (auto split: sum.splits)
  with refused_messages [OF a, of "''nonsense''" sample_env] a(1) show ?thesis by blast
qed

text \<open>
  A request for a key is answered with the key drawn and then a graceful close, in this order,
  if the queue has room for both; the key itself comes from the generator.
\<close>

theorem key_request_answered:
  assumes "FindClient x w" "cl w x = Some k" "cchan k = None"
    and "\<not> ctx_done k" "\<not> sd_closed k" "length (sd k) < 99"
    and "Decode msg = Inr db" "Type db = ''generate_key''"
    and "gen_key (ce_rng env) (ce_worlds env) (ce_pos env) = Some (Inr key)"
  shows "\<exists>w'. MessageReceived env x msg w = Ok w' \<and>
    cl w' = (cl w)(x \<mapsto> k\<lparr>sd := sd k @ [mustEncode (zero_data\<lparr>Type := ''generate_key'', Key := key\<rparr>), []]\<rparr>) \<and>
    w' = w\<lparr>cl := cl w'\<rparr>"
proof -
  let ?e = "mustEncode (zero_data\<lparr>Type := ''generate_key'', Key := key\<rparr>)"
  have e: "Encode (zero_data\<lparr>Type := ''generate_key'', Key := key\<rparr>) = Some ?e" "?e \<noteq> []"
    using clean_mustEncode by (simp_all add: mustEncode_def Encode_def clean_def)
  from Send_delivers [OF e(2) assms(4,5)] assms(6) have
    s: "Send p ?e k = k\<lparr>sd := sd k @ [?e]\<rparr>" for p by (simp add: sd_capacity_def)
  have "CloseGracefully p (k\<lparr>sd := sd k @ [?e]\<rparr>) = Ok (k\<lparr>sd := sd k @ [?e, []]\<rparr>)" for p
    using assms(4-6) by (simp add: CloseGracefully_def sd_ready_def sd_capacity_def)
  then show ?thesis
    using assms e s
    by (auto simp: MessageReceived_def cmd_exec_parts run_parts_def cmd_begin_def generate_begin_def
        sendJSON_def client_Send_def cmd_finish_def client_CloseGracefully_def upd_cl_def heap_upd_def)
qed

lemma key_request_answered_witness:
  "\<exists>w'. MessageReceived sample_env 0 (butlast (command_line ''generate_key'' ''''))
     (snd (accept [] 0 False (empty_world [] False))) = Ok w'"
proof -
  let ?w = "snd (accept [] 0 False (empty_world [] False))" and ?m = "butlast (command_line ''generate_key'' '''')"
  obtain x w where a: "accept [] 0 False (empty_world [] False) = (x, w)" by fastforce
  note A = accept_simps [OF a]
  have x: "x = 0" using A(1) by (simp add: empty_world_def)
  have w: "?w = w" by (simp add: a)
  have f: "FindClient 0 ?w" using A(6) x by (simp add: w FindClient_def)
  obtain k where k: "cl ?w 0 = Some k" "cchan k = None" "\<not> ctx_done k" "\<not> sd_closed k" "length (sd k) < 99"
    using A(7) [of 0] x by (simp add: w SetID_def new_client_def)
  have "(case Decode ?m of Inl e \<Rightarrow> False | Inr db \<Rightarrow> Type db = ''generate_key'')" by code_simp
  then obtain db where db: "Decode ?m = Inr db" "Type db = ''generate_key''" by (auto split: sum.splits)
  have "\<not> channelKeyTaken key (empty_world [] False)" for key
    by (simp add: channelKeyTaken_def empty_world_def)
  moreover have "\<exists>key. randomDigits sample_rng 0 9 = Inr key" by (simp add: randomDigits_nine sample_rng_def)
  ultimately have "\<exists>key. gen_key (ce_rng sample_env) (ce_worlds sample_env) (ce_pos sample_env) = Some (Inr key)"
    by (subst gen_key.simps) (auto simp: sample_env_def)
  then obtain key where key: "gen_key (ce_rng sample_env) (ce_worlds sample_env) (ce_pos sample_env) = Some (Inr key)" ..
  from key_request_answered [OF f k db key] show ?thesis by blast
qed

end
