(* ===== verification/Connection_Properties.thy ===== *)
theory Connection_Properties
  imports Serve
begin

text \<open>
  The properties of one connection: what its peer gets to read of the messages the queue
  accepted, when the rest is delivered, and how a slow peer is cut off. Messages of a client
  are sent by other clients and by the ping at any time; the events of a run are arbitrary.
\<close>

section \<open>A sample run\<close>

text \<open>Two sends, and a connection that takes only two bytes of the first write.\<close>

definition sample_client :: client where
  "sample_client = new_client EndMessage [] 0 False"

definition stingy :: network where "stingy w p = 2"
definition generous :: network where "generous w p = length p"

definition sample_run :: "network \<Rightarrow> client_event list" where
  "sample_run net = [CSend True ''abc'', CSend False ''d'', CWriter net WTake, CWriter net WTake]"

lemma sample_run_ok:
  "\<exists>c. client_run (sample_run net) sample_client = Ok c"
  by (simp add: sample_run_def)

section \<open>What the peer reads\<close>

text \<open>The accepted messages are among those sent.\<close>

lemma accepted_sent: "b \<in> set (accepted es c) \<Longrightarrow> b \<noteq> [] \<and> (\<exists>pick. CSend pick b \<in> set es)"
proof (induction es arbitrary: c)
  case Nil
  then show ?case by simp
next
  case (Cons e es)
  then consider "b \<in> set (accepts e c)" | c' where "client_step e c = Ok c'" "b \<in> set (accepted es c')"
    by (cases "client_step e c") auto
  then show ?case
  proof cases
    case 1
    then show ?thesis by (auto simp: accepts_def split: client_event.splits if_splits)
  next
    case 2
    with Cons.IH show ?thesis by auto
  qed
qed

text \<open>Reading the lines of a part of a stream gives a part of the messages.\<close>

lemma read_prefix:
  assumes "list_all (\<lambda>b. b \<noteq> [] \<and> t \<notin> set b) bs" "frames t bs = p @ r"
  shows "\<exists>n. fst (read_all (read_line t) p) = take n bs"
  using assms
proof (induction bs arbitrary: p)
  case Nil
  then have "p = []" by simp
  then show ?case by (simp add: read_all_def)
next
  case (Cons b bs)
  then have b: "b \<noteq> []" "t \<notin> set b" and eq: "(b @ [t]) @ frames t bs = p @ r"
    by (simp_all add: frame_def)
  show ?case
  proof (cases "length p < length (b @ [t])")
    case True
    then have "take (length p) ((b @ [t]) @ frames t bs) = take (length p) b" by simp
    then have "p = take (length p) b" unfolding eq by simp
    then have "set p \<subseteq> set b" by (metis set_take_subset)
    with b(2) have "read_line t p = None" by (auto simp: read_line_def ReadBytes_None_iff)
    then have "fst (read_all (read_line t) p) = []" by (cases "length p") (simp_all add: read_all_def)
    then show ?thesis by (intro exI [of _ 0]) simp
  next
    case False
    with eq obtain p' where p': "p = (b @ [t]) @ p'" "frames t bs = p' @ r"
      by (auto simp: append_eq_append_conv2 Cons_eq_append_conv)
    from line.rd_emit [OF b(2), of p'] have "read_line t p = Some (b, p')" by (simp add: p')
    moreover from Cons.IH [OF _ p'(2)] Cons.prems(1) obtain n where
      "fst (read_all (read_line t) p') = take n bs" by auto
    ultimately have "fst (read_all (read_line t) p) = take (Suc n) (b # bs)"
      by (cases "read_all (read_line t) p'") (simp add: line.read_all_step)
    then show ?thesis ..
  qed
qed

text \<open>
  Whatever happens to a connection (sends by anybody, closes, timer, write errors after any
  number of bytes), the complete lines its peer receives are the first so many of the messages
  its queue accepted: nothing is reordered, duplicated, left out in the middle or made up.
\<close>

theorem peer_reads_accepted:
  assumes "client_run es (new_client t addr s pd) = Ok c"
    and "\<forall>pick b. CSend pick b \<in> set es \<longrightarrow> t \<notin> set b"
  shows "\<exists>n. fst (read_all (read_line t) (wire (wr c))) = take n (accepted es (new_client t addr s pd))"
proof -
  let ?c0 = "new_client t addr s pd"
  have "messageTerminator ?c0 = t" by (simp add: new_client_def)
  with tracks_run [OF tracks_new assms(1)] obtain r where
    "frames t (accepted es ?c0) = wire (wr c) @ r" by (auto simp: tracks_def)
  moreover have "list_all (\<lambda>b. b \<noteq> [] \<and> t \<notin> set b) (accepted es ?c0)"
    using accepted_sent assms(2) by (fastforce simp: list_all_iff)
  ultimately show ?thesis by (intro read_prefix)
qed

lemma peer_reads_accepted_witness:
  "\<exists>c n. client_run (sample_run stingy) sample_client = Ok c \<and>
     fst (read_all (read_line EndMessage) (wire (wr c))) = take n [''abc'', ''d'']"
proof -
  from sample_run_ok obtain c where c: "client_run (sample_run stingy) sample_client = Ok c" by blast
  have "EndMessage \<notin> set b" if "CSend pick b \<in> set (sample_run stingy)" for pick b
    using that by (auto simp: sample_run_def EndMessage_def)
  moreover have "accepted (sample_run stingy) sample_client = [''abc'', ''d'']" by code_simp
  ultimately show ?thesis
    using peer_reads_accepted [OF c [unfolded sample_client_def]] c by (auto simp: sample_client_def)
qed

text \<open>
  While the writer runs without a write error, an empty queue means that everything accepted
  has been handed to the connection: the batching timer only delays messages while others
  follow, delivery does not depend on it.
\<close>

theorem idle_means_delivered:
  assumes "client_run es (new_client t addr s pd) = Ok c"
    and "w_running (wr c)" "sd c = []"
  shows "wire (wr c) = frames t (accepted es (new_client t addr s pd))"
proof -
  let ?c0 = "new_client t addr s pd"
  have t: "messageTerminator ?c0 = t" by (simp add: new_client_def)
  have "client_inv ?c0 \<and> idle_flushed ?c0"
    using client_inv_new by (simp add: idle_flushed_def new_client_def new_writer_def)
  from client_run_inv [OF this assms(1)] assms(2,3) have "bw_buf (wr c) = []" "\<not> bw_err (wr c)"
    by (auto simp: idle_flushed_def)
  with tracks_run [OF tracks_new assms(1)] t assms(3) show ?thesis
    by (simp add: tracks_def stream_def)
qed

lemma idle_means_delivered_witness:
  "\<exists>c. client_run (sample_run generous) sample_client = Ok c \<and> wire (wr c) = ''abc'' @ EndMessage # ''d'' @ [EndMessage]"
proof -
  have v: "(case client_run (sample_run generous) sample_client of Ok c \<Rightarrow> w_running (wr c) \<and> sd c = [] | _ \<Rightarrow> False)"
    by code_simp
  from sample_run_ok obtain c where c: "client_run (sample_run generous) sample_client = Ok c" by blast
  with v have "w_running (wr c)" "sd c = []" by simp_all
  from idle_means_delivered [OF c [unfolded sample_client_def] this] c
  have "wire (wr c) = frames EndMessage (accepted (sample_run generous) sample_client)" by (simp add: sample_client_def)
  also have "\<dots> = ''abc'' @ EndMessage # ''d'' @ [EndMessage]" by code_simp
  finally show ?thesis using c by blast
qed

section \<open>Closing\<close>



text \<open>
  A peer that has stopped reading: with the queue full, each further message is dropped and
  counted and the queue stays as it is; the client is closed exactly by the drop that makes 500.
\<close>

theorem slow_client_is_kicked:
  assumes "list_all (\<lambda>b. b \<noteq> []) bs" and "\<not> ctx_done c" "\<not> sd_closed c"
    and "length (sd c) = 100" "unat (dropped c) + length bs \<le> 500"
  shows "unat (dropped (Send_all pk bs c)) = unat (dropped c) + length bs \<and>
    sd (Send_all pk bs c) = sd c \<and>
    (ctx_done (Send_all pk bs c) \<longleftrightarrow> bs \<noteq> [] \<and> unat (dropped c) + length bs = 500)"
  using assms by (intro Send_all_full) (simp_all add: sd_capacity_def)

lemma slow_client_is_kicked_witness:
  "ctx_done (Send_all (\<lambda>_. True) [''a'', ''b''] (sample_client\<lparr>sd := replicate 100 ''x'', dropped := 498\<rparr>))"
proof -
  let ?c = "sample_client\<lparr>sd := replicate 100 ''x'', dropped := 498\<rparr>"
  have "list_all (\<lambda>b. b \<noteq> []) [''a'', ''b'']" "\<not> ctx_done ?c" "\<not> sd_closed ?c" "length (sd ?c) = 100"
    "unat (dropped ?c) + length [''a'', ''b''] \<le> 500"
    by (simp_all add: sample_client_def new_client_def)
  from slow_client_is_kicked [OF this, of "\<lambda>_. True"] show ?thesis by simp
qed

end
