(* ===== verification/Protocol_Properties.thy ===== *)
theory Protocol_Properties
  imports Scenarios
begin

text \<open>
  The properties of the wire protocol: the JSON field inserted on the relay path, the encoding
  of messages, the framing of the byte stream and the channel key. Each is followed by an
  application to concrete bytes where it has a hypothesis.
\<close>

section \<open>The inserted origin\<close>

text \<open>
  C28 The relayed bytes parse to the sender's JSON object with the member \<open>origin\<close> put in
  front, and fail to parse exactly when the sender's bytes do: the byte-level insertion is right
  for every object, empty or not, with any white space, nesting and strings. It is refused
  exactly for data whose first byte after white space is not an opening brace, and then the data
  comes back unchanged.
\<close>

theorem relay_insertion:
  "case JsonAddOrigin data i of
     (res, None) \<Rightarrow> parse_json res = map_option (add_origin i) (parse_json data) \<and> res \<noteq> [] \<and>
       (\<exists>t. next_tok data = Some (CHR ''{'', t))
   | (res, Some e) \<Rightarrow> res = data \<and> \<not> (\<exists>t. next_tok data = Some (CHR ''{'', t))"
proof -
  have "data = [] \<Longrightarrow> snd (JsonAddOrigin data i) \<noteq> None" by (simp add: JsonAddOrigin_def)
  then show ?thesis
    using parse_json_JsonAddOrigin [of data i] JsonAddOrigin_error_iff [of data i]
      JsonAddOrigin_error_data [of data i] JsonAddOrigin_nonempty [of data i]
    by (cases "data = []"; cases "JsonAddOrigin data i"; cases "snd (JsonAddOrigin data i)") auto
qed


section \<open>Messages\<close>

text \<open>
  C30 Decoding what the server encodes gives the message back, for every message whose strings
  are valid UTF-8 and whose numbers are 64-bit: the omitted fields are exactly the zero ones.
\<close>

theorem decode_encode:
  assumes "data_ok d" and "Encode d = Some s"
  shows "Decode s = Inr d"
  using assms by (rule Decode_Encode_ok)

lemma decode_encode_witness:
  "Decode (the (Encode (zero_data\<lparr>Type := ''motd'', Motd := ''hi'', UserIds := [3, 4]\<rparr>))) =
     Inr (zero_data\<lparr>Type := ''motd'', Motd := ''hi'', UserIds := [3, 4]\<rparr>)"
proof (rule decode_encode)
  show "data_ok (zero_data\<lparr>Type := ''motd'', Motd := ''hi'', UserIds := [3, 4]\<rparr>)"
    using valid_utf8_ascii [of "''motd''"] valid_utf8_ascii [of "''hi''"] valid_utf8_ascii [of "[]"]
    by (simp add: data_ok_def zero_data_def int64_def)
  show "Encode (zero_data\<lparr>Type := ''motd'', Motd := ''hi'', UserIds := [3, 4]\<rparr>) =
      Some (the (Encode (zero_data\<lparr>Type := ''motd'', Motd := ''hi'', UserIds := [3, 4]\<rparr>)))"
    by (simp add: Encode_def)
qed

text \<open>
  Every message the server composes, whatever strings clients put into it, is encoded
  without the message terminator and is not empty, so one message is one frame.
\<close>

theorem composed_messages_frame:
  "EndMessage \<notin> set (mustEncode d) \<and> mustEncode d \<noteq> []"
  using clean_mustEncode [of d] by (simp add: clean_def)

text \<open>
  C31 The reader loop cuts a stream of terminated messages, followed by any unterminated rest,
  into exactly these messages and rejects none, if they are non-empty, free of terminators and
  within the configured limit.
\<close>

theorem reader_inverts_framing:
  assumes "list_all clean bs" "list_all (fits mx) bs" "EndMessage \<notin> set lo"
  shows "messages_of mx (frames EndMessage bs @ lo) = (bs, False)"
  using assms by (rule messages_of_frames)

lemma reader_inverts_framing_witness:
  "messages_of 3 (frames EndMessage [''abc'', ''d''] @ ''ef'') = ([''abc'', ''d''], False)"
  by (rule reader_inverts_framing) (code_simp, code_simp, code_simp)

text \<open>
  A frame longer than a positive limit ends the reading: no later message of the stream is
  handed on.
\<close>

theorem reader_stops_at_limit:
  assumes "list_all clean bs" "list_all (fits mx) bs" "clean b" "\<not> fits mx b"
  shows "messages_of mx (frames EndMessage bs @ b @ EndMessage # rest) = (bs, True)"
proof -
  have "read_all (ReadBytes EndMessage) (b @ EndMessage # rest) =
      (let (ms, lo) = read_all (ReadBytes EndMessage) rest in ((b @ [EndMessage]) # ms, lo))"
    using assms(3) by (intro rawline.read_all_step ReadBytes_append) (simp add: clean_def)
  moreover have "handle_frame mx (b @ [EndMessage]) = TooMuchData"
    using assms(3,4) by (auto simp: handle_frame_def fits_def clean_def)
  ultimately have "messages_of mx (b @ EndMessage # rest) = ([], True)"
    by (simp add: messages_of_def split: prod.split)
  with messages_of_prefix [OF assms(1,2)] show ?thesis by simp
qed

lemma reader_stops_at_limit_witness:
  "messages_of 3 (frames EndMessage [''abc''] @ ''abcd'' @ EndMessage # frames EndMessage [''e'']) = ([''abc''], True)"
  by (rule reader_stops_at_limit) (code_simp, code_simp, code_simp, code_simp)

section \<open>Channel keys\<close>

text \<open>
  A key written as lock mark, name, password mark and password is taken apart into that
  name and password with the locked flag set, for every name in which the password mark does
  not start early and every password.
\<close>

theorem locked_key_parses:
  assumes "n \<noteq> []" and "Index (n @ butlast password_mark) password_mark = -1"
  shows "getChannelParams (lock_prefix @ n @ password_mark @ p) = (n, p, True)"
proof -
  have "Index (n @ password_mark @ p) password_mark = int (length n)"
    by (rule Index_append [OF assms(2)]) (simp add: password_mark_def)
  moreover have "strip_lock (lock_prefix @ n @ password_mark @ p) = n @ password_mark @ p"
    by (simp add: strip_lock_def HasPrefix_def)
  ultimately show ?thesis using assms(1) by (simp add: getChannelParams_strip)
qed

lemma locked_key_parses_witness:
  "getChannelParams (lock_prefix @ ''room_'' @ password_mark @ ''a__password__b'') = (''room_'', ''a__password__b'', True)"
  by (rule locked_key_parses) (simp, code_simp)

end
