(* ===== verification/Logging.thy ===== *)
theory Logging
  imports Prelude
begin

text \<open>
  Log levels, after \<open>server/logger.go\<close>. The program's levels grow with verbosity, those of
  \<open>slog\<close> with severity; a message is printed if it passes the comparison in \<open>Log\<close> and
  then the threshold of the handler.
\<close>

definition LogSilent :: int where "LogSilent = -1"
definition LogInfo :: int where "LogInfo = 0"
definition LogConnection :: int where "LogConnection = 1"
definition LogChannel :: int where "LogChannel = 2"
definition LogDebug :: int where "LogDebug = 3"
definition LogProtocol :: int where "LogProtocol = 4"

definition defaultLogLevel :: int where "defaultLogLevel = LogChannel"

lemmas level_defs = LogSilent_def LogInfo_def LogConnection_def LogChannel_def LogDebug_def
  LogProtocol_def defaultLogLevel_def

text \<open>\<open>slog.LevelInfo\<close> is 0, \<open>slog.LevelError\<close> is 8.\<close>

definition LevelInfo :: int where "LevelInfo = 0"
definition LevelError :: int where "LevelError = 8"

definition logLevelMap :: "int list" where
  "logLevelMap = [LevelError + 2, LevelInfo, 2, 4, 8, 10]"

definition toSlogLevel :: "int \<Rightarrow> int" where
  "toSlogLevel level =
     (if level < LogSilent \<or> LogProtocol < level then LevelError + 2
      else logLevelMap ! nat (level + 1))"

text \<open>\<open>slog\<close> drops a record whose level is below the handler's.\<close>

definition handler_enabled :: "int \<Rightarrow> int \<Rightarrow> bool" where
  "handler_enabled threshold l \<longleftrightarrow> threshold \<le> l"

definition log_threshold :: "int \<Rightarrow> int" where
  "log_threshold loglevel = toSlogLevel loglevel"

definition Log_emits :: "int \<Rightarrow> int \<Rightarrow> bool" where
  "Log_emits loglevel level \<longleftrightarrow>
     \<not> log_threshold loglevel < level \<and> handler_enabled (log_threshold loglevel) (toSlogLevel level)"

definition LogError_emits :: "int \<Rightarrow> bool" where
  "LogError_emits loglevel \<longleftrightarrow> handler_enabled (log_threshold loglevel) LevelError"

text \<open>The rule the comments and the help text state.\<close>

definition Log_documented :: "int \<Rightarrow> int \<Rightarrow> bool" where
  "Log_documented loglevel level \<longleftrightarrow> level \<le> loglevel"

lemma toSlogLevel_table:
  "toSlogLevel (-1) = 10" "toSlogLevel 0 = 0" "toSlogLevel 1 = 2" "toSlogLevel 2 = 4"
  "toSlogLevel 3 = 8" "toSlogLevel 4 = 10" "l < -1 \<or> 4 < l \<Longrightarrow> toSlogLevel l = 10"
  by (auto simp: toSlogLevel_def level_defs logLevelMap_def LevelInfo_def LevelError_def)

lemma level_cases:
  assumes "-1 \<le> (l::int)" "l \<le> 4"
  obtains "l = -1" | "l = 0" | "l = 1" | "l = 2" | "l = 3" | "l = 4"
  using assms by linarith

text \<open>Seen from the message: verbose messages pass at every setting but the quiet ones.\<close>

lemma Log_emits_table:
  assumes "-1 \<le> loglevel" "loglevel \<le> 4" "0 \<le> level" "level \<le> 4"
  shows "Log_emits loglevel level \<longleftrightarrow>
    (loglevel = 0 \<and> level = 0) \<or> (loglevel = 1 \<and> level \<in> {1, 2}) \<or> (loglevel = 2 \<and> level \<in> {2, 3, 4}) \<or>
    (loglevel = 3 \<and> level \<in> {3, 4}) \<or> (loglevel \<in> {-1, 4} \<and> level = 4)"
proof -
  have "-1 \<le> level" using assms(3) by simp
  show ?thesis
    by (rule level_cases [OF assms(1,2)]; rule level_cases [OF \<open>-1 \<le> level\<close> assms(4)])
       (use assms(3) in \<open>simp_all add: Log_emits_def log_threshold_def handler_enabled_def toSlogLevel_table\<close>)
qed

end
