(* ===== verification/Config.thy ===== *)
theory Config
  imports Complex_Main Utf8 Logging
begin

text \<open>
  Configuration, after \<open>server/conf.go\<close> and \<open>server/configure.go\<close>: the reader of
  the \<open>option=value\<close> file, the merge with the command line, the validation, the message
  of the day, the choice of certificates and the addresses to listen on. Parsing of floats,
  the file system and the command line parser are arguments.
\<close>

section \<open>Floating point numbers\<close>

text \<open>A \<open>float64\<close> as the code compares it: every comparison with NaN is false.\<close>

datatype go_float = NaN | NegInf | Fin rat | PosInf

instantiation go_float :: ord
begin

fun less_go_float :: "go_float \<Rightarrow> go_float \<Rightarrow> bool" where
  "less_go_float NegInf (Fin y) = True"
| "less_go_float NegInf PosInf = True"
| "less_go_float (Fin x) (Fin y) = (x < y)"
| "less_go_float (Fin x) PosInf = True"
| "less_go_float _ _ = False"

definition less_eq_go_float :: "go_float \<Rightarrow> go_float \<Rightarrow> bool" where
  "less_eq_go_float x y = (x < y \<or> (x = y \<and> x \<noteq> NaN))"

instance ..

end

section \<open>Trimming white space\<close>

text \<open>
  \<open>strings.TrimSpace\<close> removes Unicode white space. A leading or trailing rune is one of
  these exactly if the string starts or ends with its encoding.
\<close>

definition space_runes :: "nat list" where
  "space_runes =
     [0x09, 0x0A, 0x0B, 0x0C, 0x0D, 0x20, 0x85, 0xA0, 0x1680, 0x2000, 0x2001, 0x2002, 0x2003, 0x2004,
      0x2005, 0x2006, 0x2007, 0x2008, 0x2009, 0x200A, 0x2028, 0x2029, 0x202F, 0x205F, 0x3000]"

definition space_encodings :: "bytes list" where
  "space_encodings = map encode_rune space_runes"

lemma space_encodings_ne: "e \<in> set space_encodings \<Longrightarrow> e \<noteq> []"
  by (auto simp: space_encodings_def encode_rune_def Let_def split: if_splits)

lemma find_space:
  assumes "List.find P space_encodings = Some e" shows "P e" "0 < length e"
proof -
  from assms have "P e" "e \<in> set space_encodings" by (auto simp: find_Some_iff)
  with space_encodings_ne show "P e" "0 < length e" by auto
qed

function TrimLeftSpace :: "bytes \<Rightarrow> bytes" where
  "TrimLeftSpace s =
     (case List.find (\<lambda>e. HasPrefix s e) space_encodings of
        None \<Rightarrow> s | Some e \<Rightarrow> TrimLeftSpace (drop (length e) s))"
  by pat_completeness auto
termination
proof (relation "measure length", goal_cases)
  case (2 s e)
  with find_space [of "HasPrefix s" e] show ?case by (auto elim: HasPrefixE)
qed simp

declare TrimLeftSpace.simps [simp del]

definition HasSuffix :: "bytes \<Rightarrow> bytes \<Rightarrow> bool" where
  "HasSuffix s e \<longleftrightarrow> length e \<le> length s \<and> drop (length s - length e) s = e"

function TrimRightSpace :: "bytes \<Rightarrow> bytes" where
  "TrimRightSpace s =
     (case List.find (\<lambda>e. HasSuffix s e) space_encodings of
        None \<Rightarrow> s | Some e \<Rightarrow> TrimRightSpace (take (length s - length e) s))"
  by pat_completeness auto
termination
proof (relation "measure length", goal_cases)
  case (2 s e)
  with find_space [of "HasSuffix s" e] have "0 < length e" "length e \<le> length s"
    by (auto simp: HasSuffix_def)
  then have "length s - length e < length s" by linarith
  then show ?case by simp
qed simp

declare TrimRightSpace.simps [simp del]

definition TrimSpace :: "bytes \<Rightarrow> bytes" where
  "TrimSpace s = TrimRightSpace (TrimLeftSpace s)"

definition TrimSuffix :: "bytes \<Rightarrow> bytes \<Rightarrow> bytes" where
  "TrimSuffix s e = (if HasSuffix s e then take (length s - length e) s else s)"

section \<open>The configuration file\<close>

fun split_on :: "char \<Rightarrow> bytes \<Rightarrow> bytes list" where
  "split_on c [] = [[]]"
| "split_on c (x # s) =
     (if x = c then [] # split_on c s
      else case split_on c s of [] \<Rightarrow> [[x]] | p # ps \<Rightarrow> (x # p) # ps)"

text \<open>\<open>strings.Cut\<close> at the first separator.\<close>

definition cut_at :: "char \<Rightarrow> bytes \<Rightarrow> (bytes \<times> bytes) option" where
  "cut_at c s =
     (case dropWhile (\<lambda>x. x \<noteq> c) s of [] \<Rightarrow> None | _ # v \<Rightarrow> Some (takeWhile (\<lambda>x. x \<noteq> c) s, v))"

type_synonym options = "(bytes \<times> bytes) list"

definition conf_line :: "bytes \<Rightarrow> options \<Rightarrow> options" where
  "conf_line line0 opts =
     (let line = TrimSuffix line0 [CHR 0x0D]; trimmed = TrimSpace line
      in if trimmed = [] \<or> HasPrefix trimmed ''#'' then opts
         else case cut_at (CHR ''='') line of
           None \<Rightarrow> opts
         | Some (k, v) \<Rightarrow> AList.update (TrimSpace k) v opts)"

text \<open>\<open>None\<close> is a file that cannot be read.\<close>

definition conf_read_python :: "bytes option \<Rightarrow> options option" where
  "conf_read_python content =
     map_option (\<lambda>data. fold conf_line (split_on (CHR 0x0A) data) []) content"

section \<open>Settings\<close>

record settings =
  cf_cert :: bytes
  cf_key :: bytes
  cf_domain :: bytes
  cf_acmeEmail :: bytes
  cf_acmeCA :: bytes
  cf_pidfile :: bytes
  cf_logfile :: bytes
  cf_loglevel :: int
  cf_motd :: bytes
  cf_motdAlwaysDisplay :: bool
  cf_timeoutSecs :: go_float
  cf_pingTime :: int
  cf_maxMsgLen :: int
  cf_iface :: bytes
  cf_iface6 :: bytes
  cf_port :: int
  cf_port6 :: int

text \<open>The defaults of \<open>server/defaults.go\<close>; the file paths depend on the system.\<close>

definition defaults :: "bytes \<Rightarrow> bytes \<Rightarrow> bytes \<Rightarrow> bytes \<Rightarrow> settings" where
  "defaults certfile keyfile logfile pidfile =
     \<lparr>cf_cert = certfile, cf_key = keyfile, cf_domain = [], cf_acmeEmail = [], cf_acmeCA = [],
      cf_pidfile = pidfile, cf_logfile = logfile, cf_loglevel = defaultLogLevel, cf_motd = [],
      cf_motdAlwaysDisplay = False, cf_timeoutSecs = Fin 5, cf_pingTime = 300, cf_maxMsgLen = 0,
      cf_iface = [], cf_iface6 = [], cf_port = 6837, cf_port6 = 6837\<rparr>"

definition linux_defaults :: settings where
  "linux_defaults =
     defaults ''/usr/share/NVDARemoteServer/server.pem'' []
       ''/var/log/NVDARemoteServer/NVDARemoteServer.log'' ''/run/NVDARemoteServer/NVDARemoteServer.pid''"

type_synonym setter = "bytes \<Rightarrow> settings \<Rightarrow> settings"

definition apply_opt :: "options \<Rightarrow> bytes set \<Rightarrow> bytes \<Rightarrow> setter \<Rightarrow> settings \<Rightarrow> settings" where
  "apply_opt opts cliSet name f s =
     (case map_of opts name of
        None \<Rightarrow> s | Some v \<Rightarrow> if name \<in> cliSet then s else f v s)"

definition applyStringOpt :: "options \<Rightarrow> bytes set \<Rightarrow> bytes \<Rightarrow> setter \<Rightarrow> settings \<Rightarrow> settings" where
  "applyStringOpt = apply_opt"

definition applyIntOpt ::
  "options \<Rightarrow> bytes set \<Rightarrow> bytes \<Rightarrow> (int \<Rightarrow> settings \<Rightarrow> settings) \<Rightarrow> settings \<Rightarrow> settings" where
  "applyIntOpt opts cliSet name f =
     apply_opt opts cliSet name (\<lambda>v s. case Atoi v of None \<Rightarrow> s | Some n \<Rightarrow> f n s)"

definition applyStrings :: "options \<Rightarrow> bytes set \<Rightarrow> settings \<Rightarrow> settings" where
  "applyStrings opts cliSet s0 =
     (let s = applyStringOpt opts cliSet ''interface'' (\<lambda>v s. s\<lparr>cf_iface := v\<rparr>) s0;
          s = applyStringOpt opts cliSet ''interface6'' (\<lambda>v s. s\<lparr>cf_iface6 := v\<rparr>) s;
          s = applyStringOpt opts cliSet ''logfile'' (\<lambda>v s. s\<lparr>cf_logfile := v\<rparr>) s;
          s = applyStringOpt opts cliSet ''pidfile'' (\<lambda>v s. s\<lparr>cf_pidfile := v\<rparr>) s;
          s = applyStringOpt opts cliSet ''keyfile'' (\<lambda>v s. s\<lparr>cf_key := v\<rparr>) s;
          s = applyStringOpt opts cliSet ''certfile'' (\<lambda>v s. s\<lparr>cf_cert := v\<rparr>) s;
          s = applyStringOpt opts cliSet ''domain'' (\<lambda>v s. s\<lparr>cf_domain := v\<rparr>) s;
          s = applyStringOpt opts cliSet ''acme_email'' (\<lambda>v s. s\<lparr>cf_acmeEmail := v\<rparr>) s;
          s = applyStringOpt opts cliSet ''acme_ca'' (\<lambda>v s. s\<lparr>cf_acmeCA := v\<rparr>) s;
          s = applyStringOpt opts cliSet ''motd'' (\<lambda>v s. s\<lparr>cf_motd := v\<rparr>) s
      in applyIntOpt opts cliSet ''motd_force_display'' (\<lambda>n s. s\<lparr>cf_motdAlwaysDisplay := (n \<noteq> 0)\<rparr>) s)"

definition applyNumbers :: "options \<Rightarrow> bytes set \<Rightarrow> settings \<Rightarrow> settings" where
  "applyNumbers opts cliSet s0 =
     (let s = applyIntOpt opts cliSet ''port'' (\<lambda>n s. s\<lparr>cf_port := n\<rparr>) s0;
          s = applyIntOpt opts cliSet ''port6'' (\<lambda>n s. s\<lparr>cf_port6 := n\<rparr>) s;
          s = applyIntOpt opts cliSet ''loglevel'' (\<lambda>n s. s\<lparr>cf_loglevel := n\<rparr>) s;
          s = applyIntOpt opts cliSet ''allowedMessageLength'' (\<lambda>n s. s\<lparr>cf_maxMsgLen := n\<rparr>) s
      in applyIntOpt opts cliSet ''ping_time'' (\<lambda>n s. s\<lparr>cf_pingTime := n\<rparr>) s)"

text \<open>\<open>pf\<close> is \<open>strconv.ParseFloat\<close> with 64 bits; \<open>None\<close> is its error.\<close>

definition applyFloats ::
  "(bytes \<Rightarrow> go_float option) \<Rightarrow> options \<Rightarrow> bytes set \<Rightarrow> settings \<Rightarrow> settings" where
  "applyFloats pf opts cliSet s =
     apply_opt opts cliSet ''timeout''
       (\<lambda>v s. case pf v of None \<Rightarrow> s | Some f \<Rightarrow> s\<lparr>cf_timeoutSecs := f\<rparr>) s"

definition conf_apply ::
  "(bytes \<Rightarrow> go_float option) \<Rightarrow> options \<Rightarrow> bytes set \<Rightarrow> settings \<Rightarrow> settings" where
  "conf_apply pf opts cliSet s = applyFloats pf opts cliSet (applyNumbers opts cliSet (applyStrings opts cliSet s))"

text \<open>\<open>conf_file\<close> is the path, \<open>content\<close> what reading it gives.\<close>

definition applyConfigFile ::
  "(bytes \<Rightarrow> go_float option) \<Rightarrow> bytes \<Rightarrow> bytes option \<Rightarrow> bytes set \<Rightarrow> settings \<Rightarrow> settings" where
  "applyConfigFile pf conf_file content cliSet s =
     (if conf_file \<noteq> [] then
        (case conf_read_python content of None \<Rightarrow> s | Some opts \<Rightarrow> conf_apply pf opts cliSet s)
      else s)"

section \<open>Validation\<close>

definition validateSettings :: "settings \<Rightarrow> settings" where
  "validateSettings s0 =
     (let s = (if cf_timeoutSecs s0 < Fin 1 then s0\<lparr>cf_timeoutSecs := Fin 5\<rparr> else s0);
          s = (if cf_pingTime s < 30 then s\<lparr>cf_pingTime := 300\<rparr> else s);
          s = (if cf_port s < 1 \<or> 65535 < cf_port s then s\<lparr>cf_port := 6837\<rparr> else s);
          s = (if cf_port6 s < 1 \<or> 65535 < cf_port6 s then s\<lparr>cf_port6 := cf_port s\<rparr> else s);
          s = (if cf_loglevel s < LogSilent then s\<lparr>cf_loglevel := LogSilent\<rparr> else s)
      in if LogProtocol < cf_loglevel s then s\<lparr>cf_loglevel := LogProtocol\<rparr> else s)"

definition protocollogmotd :: bytes where
  "protocollogmotd =
     ''WARNING!'' @ [CHR 0x0A] @
     ''All server information is being logged, including the protocol being used. This server is running in an insecure mode for production.''"

definition handleMotd :: "settings \<Rightarrow> settings" where
  "handleMotd s0 =
     (let s = (if cf_loglevel s0 = LogProtocol
               then s0\<lparr>cf_motd := (if cf_motd s0 = [] then protocollogmotd
                                   else protocollogmotd @ [CHR 0x0A] @ cf_motd s0),
                      cf_motdAlwaysDisplay := True\<rparr>
               else s0)
      in if cf_motd s = [] \<and> cf_motdAlwaysDisplay s = False then s\<lparr>cf_motdAlwaysDisplay := False\<rparr> else s)"

section \<open>Certificates\<close>

text \<open>\<open>os.Stat\<close>: the file is missing, the call fails otherwise, or it describes the file.\<close>

datatype stat_result = NotExist | StatError | IsDir | IsFile

definition fileExists :: "(bytes \<Rightarrow> stat_result) \<Rightarrow> bytes \<Rightarrow> bool go" where
  "fileExists fs file =
     (case fs file of
        NotExist \<Rightarrow> Ok False
      | StatError \<Rightarrow> Panic NilDereference
      | IsDir \<Rightarrow> Ok False
      | IsFile \<Rightarrow> Ok True)"

datatype tls_choice = CertMagic "bytes list" | SelfSigned | ExplicitCert bytes bytes

text \<open>\<open>d\<close> holds the defaults the configured paths are compared with.\<close>

definition missing_file :: "(bytes \<Rightarrow> stat_result) \<Rightarrow> bytes \<Rightarrow> bytes \<Rightarrow> bool go" where
  "missing_file fs file dflt =
     (if file = dflt then Ok False else go_bind (fileExists fs file) (\<lambda>e. Ok (\<not> e)))"

definition buildTLSConfig :: "(bytes \<Rightarrow> stat_result) \<Rightarrow> settings \<Rightarrow> settings \<Rightarrow> go_panic + tls_choice" where
  "buildTLSConfig fs d s =
     (case (missing_file fs (cf_cert s) (cf_cert d)) of
        Ok gc \<Rightarrow>
          (case missing_file fs (cf_key s) (cf_key d) of
             Ok gk \<Rightarrow>
               (let generate = gc \<or> gk \<or> cf_cert s = cf_cert d \<or> cf_key s = cf_key d
                in if cf_domain s \<noteq> [] then Inr (CertMagic (map TrimSpace (split_on (CHR '','') (cf_domain s))))
                   else if generate then Inr SelfSigned
                   else Inr (ExplicitCert (cf_cert s) (cf_key s)))
           | _ \<Rightarrow> Inl NilDereference)
      | _ \<Rightarrow> Inl NilDereference)"

section \<open>Addresses\<close>

definition JoinHostPort :: "bytes \<Rightarrow> bytes \<Rightarrow> bytes" where
  "JoinHostPort host port =
     (if list_ex (\<lambda>c. c = CHR '':'') host then CHR ''['' # host @ '']:'' @ port else host @ CHR '':'' # port)"

definition build_addresses :: "settings \<Rightarrow> bytes list" where
  "build_addresses s =
     (let v4 = JoinHostPort (cf_iface s) (Itoa (cf_port s)); v6 = JoinHostPort (cf_iface6 s) (Itoa (cf_port6 s))
      in if v4 = v6 then [v4] else [v4, v6])"

section \<open>What the merge, the validation and the addresses guarantee\<close>

text \<open>
  The fields an option of the file may set. A setting given on the command line keeps its value.
\<close>

definition field_of :: "bytes \<Rightarrow> settings \<Rightarrow> bytes + int + bool + go_float" where
  "field_of name s =
     (if name = ''interface'' then Inl (cf_iface s)
      else if name = ''interface6'' then Inl (cf_iface6 s)
      else if name = ''logfile'' then Inl (cf_logfile s)
      else if name = ''pidfile'' then Inl (cf_pidfile s)
      else if name = ''keyfile'' then Inl (cf_key s)
      else if name = ''certfile'' then Inl (cf_cert s)
      else if name = ''domain'' then Inl (cf_domain s)
      else if name = ''acme_email'' then Inl (cf_acmeEmail s)
      else if name = ''acme_ca'' then Inl (cf_acmeCA s)
      else if name = ''motd'' then Inl (cf_motd s)
      else if name = ''motd_force_display'' then Inr (Inr (Inl (cf_motdAlwaysDisplay s)))
      else if name = ''port'' then Inr (Inl (cf_port s))
      else if name = ''port6'' then Inr (Inl (cf_port6 s))
      else if name = ''loglevel'' then Inr (Inl (cf_loglevel s))
      else if name = ''allowedMessageLength'' then Inr (Inl (cf_maxMsgLen s))
      else if name = ''ping_time'' then Inr (Inl (cf_pingTime s))
      else if name = ''timeout'' then Inr (Inr (Inr (cf_timeoutSecs s)))
      else Inl [])"

text \<open>The options in the order they are applied, each with what it sets.\<close>

definition int_setter :: "(int \<Rightarrow> settings \<Rightarrow> settings) \<Rightarrow> setter" where
  "int_setter f = (\<lambda>v s. case Atoi v of None \<Rightarrow> s | Some n \<Rightarrow> f n s)"

definition option_table :: "(bytes \<Rightarrow> go_float option) \<Rightarrow> (bytes \<times> setter) list" where
  "option_table pf =
     [(''interface'', \<lambda>v s. s\<lparr>cf_iface := v\<rparr>), (''interface6'', \<lambda>v s. s\<lparr>cf_iface6 := v\<rparr>),
      (''logfile'', \<lambda>v s. s\<lparr>cf_logfile := v\<rparr>), (''pidfile'', \<lambda>v s. s\<lparr>cf_pidfile := v\<rparr>),
      (''keyfile'', \<lambda>v s. s\<lparr>cf_key := v\<rparr>), (''certfile'', \<lambda>v s. s\<lparr>cf_cert := v\<rparr>),
      (''domain'', \<lambda>v s. s\<lparr>cf_domain := v\<rparr>), (''acme_email'', \<lambda>v s. s\<lparr>cf_acmeEmail := v\<rparr>),
      (''acme_ca'', \<lambda>v s. s\<lparr>cf_acmeCA := v\<rparr>), (''motd'', \<lambda>v s. s\<lparr>cf_motd := v\<rparr>),
      (''motd_force_display'', int_setter (\<lambda>n s. s\<lparr>cf_motdAlwaysDisplay := (n \<noteq> 0)\<rparr>)),
      (''port'', int_setter (\<lambda>n s. s\<lparr>cf_port := n\<rparr>)), (''port6'', int_setter (\<lambda>n s. s\<lparr>cf_port6 := n\<rparr>)),
      (''loglevel'', int_setter (\<lambda>n s. s\<lparr>cf_loglevel := n\<rparr>)),
      (''allowedMessageLength'', int_setter (\<lambda>n s. s\<lparr>cf_maxMsgLen := n\<rparr>)),
      (''ping_time'', int_setter (\<lambda>n s. s\<lparr>cf_pingTime := n\<rparr>)),
      (''timeout'', \<lambda>v s. case pf v of None \<Rightarrow> s | Some f \<Rightarrow> s\<lparr>cf_timeoutSecs := f\<rparr>)]"

lemma conf_apply_table:
  "conf_apply pf opts cliSet s = fold (\<lambda>(name, f). apply_opt opts cliSet name f) (option_table pf) s"
  by (simp add: conf_apply_def applyFloats_def applyNumbers_def applyStrings_def applyIntOpt_def
      applyStringOpt_def int_setter_def option_table_def Let_def)

text \<open>An option changes its own field only.\<close>

lemma option_table_field:
  assumes "(name, f) \<in> set (option_table pf)" "n \<noteq> name"
  shows "field_of n (f v s) = field_of n s"
proof -
  have "list_all (\<lambda>(name, f). n \<noteq> name \<longrightarrow> field_of n (f v s) = field_of n s) (option_table pf)"
    unfolding option_table_def int_setter_def list.pred_inject prod.case
    by (intro conjI; simp add: field_of_def split del: if_split split: option.split cong: if_cong)
  with assms show ?thesis by (force simp: list_all_iff)
qed

lemma conf_apply_untouched:
  assumes "n \<in> cliSet \<or> map_of opts n = None"
  shows "field_of n (conf_apply pf opts cliSet s) = field_of n s"
proof -
  have one: "field_of n (apply_opt opts cliSet name f s) = field_of n s"
    if "(name, f) \<in> set (option_table pf)" for name f s
    using option_table_field [OF that, of n] assms
    by (cases "n = name") (auto simp: apply_opt_def split: option.split)
  have "field_of n (fold (\<lambda>(name, f). apply_opt opts cliSet name f) t s) = field_of n s"
    if "set t \<subseteq> set (option_table pf)" for t s
    using that by (induction t arbitrary: s) (auto simp: one)
  then show ?thesis by (simp add: conf_apply_table)
qed

lemma validateSettings_ranges:
  "1 \<le> cf_port (validateSettings s)" "cf_port (validateSettings s) \<le> 65535"
  "1 \<le> cf_port6 (validateSettings s)" "cf_port6 (validateSettings s) \<le> 65535"
  "30 \<le> cf_pingTime (validateSettings s)"
  "LogSilent \<le> cf_loglevel (validateSettings s)" "cf_loglevel (validateSettings s) \<le> LogProtocol"
  "\<not> cf_timeoutSecs (validateSettings s) < Fin 1"
  by (auto simp: validateSettings_def Let_def LogSilent_def LogProtocol_def)

lemma validateSettings_fixed:
  assumes "\<not> cf_timeoutSecs s < Fin 1" "30 \<le> cf_pingTime s" "1 \<le> cf_port s" "cf_port s \<le> 65535"
    "1 \<le> cf_port6 s" "cf_port6 s \<le> 65535" "LogSilent \<le> cf_loglevel s" "cf_loglevel s \<le> LogProtocol"
  shows "validateSettings s = s"
  using assms by (simp add: validateSettings_def Let_def)

lemma validateSettings_idem: "validateSettings (validateSettings s) = validateSettings s"
  by (rule validateSettings_fixed) (rule validateSettings_ranges)+

lemma handleMotd_eq:
  "handleMotd s =
     (if cf_loglevel s = LogProtocol
      then s\<lparr>cf_motd := protocollogmotd @ (if cf_motd s = [] then [] else CHR 0x0A # cf_motd s),
             cf_motdAlwaysDisplay := True\<rparr>
      else s)"
proof -
  have "s\<lparr>cf_motdAlwaysDisplay := False\<rparr> = s" if "\<not> cf_motdAlwaysDisplay s"
    using that by (cases s) simp
  then show ?thesis by (auto simp: handleMotd_def Let_def)
qed

section \<open>Reading back a written file\<close>

definition plain_name :: "bytes \<Rightarrow> bool" where
  "plain_name k \<longleftrightarrow>
     k \<noteq> [] \<and> list_all (\<lambda>c. 33 \<le> ord c \<and> ord c \<le> 126 \<and> c \<noteq> CHR ''='') k \<and> hd k \<noteq> CHR ''#''"

definition plain_value :: "bytes \<Rightarrow> bool" where
  "plain_value v \<longleftrightarrow> CHR 0x0A \<notin> set v \<and> (v = [] \<or> last v \<noteq> CHR 0x0D)"

definition print_conf :: "options \<Rightarrow> bytes" where
  "print_conf opts = concat (map (\<lambda>(k, v). k @ CHR ''='' # v @ [CHR 0x0A]) opts)"

text \<open>No white space rune starts with a printable ASCII byte.\<close>

lemma space_encoding_hd: "e \<in> set space_encodings \<Longrightarrow> \<not> (33 \<le> ord (hd e) \<and> ord (hd e) \<le> 126)"
proof -
  have "list_all (\<lambda>e. \<not> (33 \<le> ord (hd e) \<and> ord (hd e) \<le> 126)) space_encodings"
    by (simp add: space_encodings_def space_runes_def encode_rune_def Let_def is_scalar_def)
  then show "e \<in> set space_encodings \<Longrightarrow> ?thesis" by (auto simp: list_all_iff)
qed

lemma space_encoding_last: "e \<in> set space_encodings \<Longrightarrow> \<not> (33 \<le> ord (last e) \<and> ord (last e) \<le> 126)"
proof -
  have "list_all (\<lambda>e. \<not> (33 \<le> ord (last e) \<and> ord (last e) \<le> 126)) space_encodings"
    by (simp add: space_encodings_def space_runes_def encode_rune_def Let_def is_scalar_def)
  then show "e \<in> set space_encodings \<Longrightarrow> ?thesis" by (auto simp: list_all_iff)
qed

lemma TrimLeftSpace_solid:
  assumes "33 \<le> ord c" "ord c \<le> 126" shows "TrimLeftSpace (c # s) = c # s"
proof -
  have "\<not> HasPrefix (c # s) e" if "e \<in> set space_encodings" for e
    using space_encoding_hd [OF that] space_encodings_ne [OF that] assms
    by (cases e) (auto elim: HasPrefixE)
  then have "List.find (HasPrefix (c # s)) space_encodings = None" by (auto simp: find_None_iff)
  then show ?thesis by (subst TrimLeftSpace.simps) simp
qed

lemma TrimRightSpace_hd:
  "33 \<le> ord c \<Longrightarrow> ord c \<le> 126 \<Longrightarrow> \<exists>t. TrimRightSpace (c # s) = c # t"
proof (induction "length s" arbitrary: s rule: less_induct)
  case less
  show ?case
  proof (cases "List.find (HasSuffix (c # s)) space_encodings")
    case None
    then show ?thesis by (subst TrimRightSpace.simps) simp
  next
    case (Some e)
    then have e: "e \<in> set space_encodings" "HasSuffix (c # s) e" by (auto simp: find_Some_iff)
    have "length e \<noteq> length (c # s)"
    proof
      assume "length e = length (c # s)"
      with e(2) have "e = c # s" by (simp add: HasSuffix_def)
      with space_encoding_hd [OF e(1)] less.prems show False by simp
    qed
    with e(2) space_encodings_ne [OF e(1)] have len: "0 < length e" "length e \<le> length s"
      by (auto simp: HasSuffix_def)
    then have "take (length (c # s) - length e) (c # s) = c # take (length s - length e) s"
      by (simp add: Suc_diff_le)
    moreover have "length s - length e < length s" using len by linarith
    then have "length (take (length s - length e) s) < length s" by simp
    ultimately show ?thesis
      using less.hyps [of "take (length s - length e) s"] less.prems Some
      by (subst TrimRightSpace.simps) simp
  qed
qed

lemma TrimRightSpace_solid:
  assumes "33 \<le> ord (last s)" "ord (last s) \<le> 126" "s \<noteq> []" shows "TrimRightSpace s = s"
proof -
  have "\<not> HasSuffix s e" if "e \<in> set space_encodings" for e
  proof
    assume h: "HasSuffix s e"
    have "last e = last s"
      using h space_encodings_ne [OF that] assms(3) by (metis HasSuffix_def last_drop length_drop
          length_greater_0_conv zero_less_diff)
    with space_encoding_last [OF that] assms show False by simp
  qed
  then have "List.find (HasSuffix s) space_encodings = None" by (auto simp: find_None_iff)
  then show ?thesis by (subst TrimRightSpace.simps) simp
qed

lemma conf_line_plain:
  assumes "plain_name k" "plain_value v"
  shows "conf_line (k @ CHR ''='' # v) opts = AList.update k v opts"
proof -
  from assms(1) obtain c k' where k: "k = c # k'" by (cases k) (auto simp: plain_name_def)
  with assms(1) have c: "33 \<le> ord c" "ord c \<le> 126" "c \<noteq> CHR ''#''" by (auto simp: plain_name_def)
  let ?l = "k @ CHR ''='' # v"
  have "\<not> HasSuffix ?l [CHR 0x0D]"
  proof
    assume "HasSuffix ?l [CHR 0x0D]"
    then have "last ?l = CHR 0x0D" by (metis HasSuffix_def last_ConsL last_drop length_drop
        list.distinct(1) length_greater_0_conv zero_less_diff)
    with assms(2) show False by (auto simp: plain_value_def split: if_splits)
  qed
  then have l: "TrimSuffix ?l [CHR 0x0D] = ?l" by (simp add: TrimSuffix_def)
  have "\<exists>t. TrimSpace ?l = c # t"
    using TrimRightSpace_hd [OF c(1,2)] TrimLeftSpace_solid [OF c(1,2)] by (simp add: TrimSpace_def k)
  then have t: "TrimSpace ?l \<noteq> []" "\<not> HasPrefix (TrimSpace ?l) ''#''"
    using c(3) by (auto elim: HasPrefixE)
  have eq: "\<forall>x \<in> set k. x \<noteq> CHR ''=''" using assms(1) by (auto simp: plain_name_def list_all_iff)
  then have cut: "cut_at (CHR ''='') ?l = Some (k, v)"
    by (simp add: cut_at_def)
  have "last k \<in> set k" using k by simp
  with assms(1) have "33 \<le> ord (last k)" "ord (last k) \<le> 126" by (auto simp: plain_name_def list_all_iff)
  with TrimRightSpace_solid [of k] TrimLeftSpace_solid [OF c(1,2)] have "TrimSpace k = k"
    by (simp add: TrimSpace_def k)
  then show ?thesis unfolding conf_line_def Let_def l cut using t by simp
qed

lemma split_on_line: "c \<notin> set l \<Longrightarrow> split_on c (l @ c # s) = l # split_on c s"
  by (induction l) auto

lemma conf_line_empty: "conf_line [] opts = opts"
proof -
  have "TrimSuffix [] [CHR 0x0D] = []" by (simp add: TrimSuffix_def HasSuffix_def)
  moreover have "TrimLeftSpace [] = []" "TrimRightSpace [] = []"
  proof -
    have no: "\<not> HasPrefix [] e" "\<not> HasSuffix [] e" if "e \<in> set space_encodings" for e
      using space_encodings_ne [OF that] by (auto simp: HasPrefix_def HasSuffix_def)
    then have f: "List.find (HasPrefix []) space_encodings = None" "List.find (HasSuffix []) space_encodings = None"
      by (auto simp: find_None_iff)
    show "TrimLeftSpace [] = []" by (subst TrimLeftSpace.simps) (simp add: f)
    show "TrimRightSpace [] = []" by (subst TrimRightSpace.simps) (simp add: f)
  qed
  ultimately show ?thesis by (simp add: conf_line_def TrimSpace_def)
qed

lemma conf_read_print:
  assumes "list_all (\<lambda>(k, v). plain_name k \<and> plain_value v) opts"
  shows "conf_read_python (Some (print_conf opts)) = Some (fold (\<lambda>(k, v). AList.update k v) opts [])"
proof -
  have "fold conf_line (split_on (CHR 0x0A) (print_conf opts)) acc = fold (\<lambda>(k, v). AList.update k v) opts acc"
    for acc using assms
  proof (induction opts arbitrary: acc)
    case Nil
    then show ?case by (simp add: print_conf_def conf_line_empty)
  next
    case (Cons kv opts)
    obtain k v where kv: "kv = (k, v)" by (cases kv)
    with Cons.prems have p: "plain_name k" "plain_value v" by auto
    have "CHR 0x0A \<notin> set k"
    proof
      assume "CHR 0x0A \<in> set k"
      with p(1) have "33 \<le> ord (CHR 0x0A)" unfolding plain_name_def list_all_iff by blast
      then show False by simp
    qed
    moreover have "CHR 0x0A \<notin> set v" using p(2) by (simp add: plain_value_def)
    ultimately have "CHR 0x0A \<notin> set (k @ CHR ''='' # v)" by simp
    from split_on_line [OF this, of "print_conf opts"] have
      "split_on (CHR 0x0A) (print_conf (kv # opts)) = (k @ CHR ''='' # v) # split_on (CHR 0x0A) (print_conf opts)"
      by (simp add: print_conf_def kv)
    with Cons p show ?case by (simp add: kv conf_line_plain)
  qed
  then show ?thesis by (simp add: conf_read_python_def)
qed

end
