(* ===== verification/Flags.thy ===== *)
theory Flags
  imports Config
begin

text \<open>
  The command line: the flags \<open>registerFlags\<close> of \<open>server/configure.go\<close> defines, and how
  package \<open>flag\<close> parses the arguments with them. Parsing of floats is an argument.
\<close>

section \<open>Numbers and booleans\<close>

text \<open>
  \<open>strconv.ParseInt(s, 0, 64)\<close>: the base follows from the prefix, and underscores may
  separate digits, one at a time, after a digit or the prefix.
\<close>

definition is_letter :: "char \<Rightarrow> char \<Rightarrow> bool" where
  "is_letter l c \<longleftrightarrow> c = l \<or> ord c + 32 = ord l"

definition digit_of :: "char \<Rightarrow> nat option" where
  "digit_of c =
     (if 48 \<le> ord c \<and> ord c \<le> 57 then Some (ord c - 48)
      else if 97 \<le> ord c \<and> ord c \<le> 122 then Some (ord c - 87)
      else if 65 \<le> ord c \<and> ord c \<le> 90 then Some (ord c - 55) else None)"

definition base_prefix :: "bytes \<Rightarrow> nat \<times> bytes" where
  "base_prefix s =
     (if hd s = CHR ''0'' then
        (if 3 \<le> length s \<and> is_letter CHR ''b'' (s ! 1) then (2, drop 2 s)
         else if 3 \<le> length s \<and> is_letter CHR ''o'' (s ! 1) then (8, drop 2 s)
         else if 3 \<le> length s \<and> is_letter CHR ''x'' (s ! 1) then (16, drop 2 s)
         else (8, tl s))
      else (10, s))"

fun parse_digits :: "nat \<Rightarrow> nat \<Rightarrow> bytes \<Rightarrow> nat option" where
  "parse_digits b n [] = Some n"
| "parse_digits b n (c # s) =
     (if c = CHR ''_'' then parse_digits b n s
      else case digit_of c of
        None \<Rightarrow> None
      | Some d \<Rightarrow> if b \<le> d then None else parse_digits b (n * b + d) s)"

fun underscores_ok :: "bool \<Rightarrow> char \<Rightarrow> bytes \<Rightarrow> bool" where
  "underscores_ok hex i [] = (i \<noteq> CHR ''_'')"
| "underscores_ok hex i (c # s) =
     (if is_digit c \<or> (hex \<and> (97 \<le> ord c \<and> ord c \<le> 102 \<or> 65 \<le> ord c \<and> ord c \<le> 70))
      then underscores_ok hex CHR ''0'' s
      else if c = CHR ''_'' then i = CHR ''0'' \<and> underscores_ok hex CHR ''_'' s
      else i \<noteq> CHR ''_'' \<and> underscores_ok hex CHR ''!'' s)"

definition underscoreOK :: "bytes \<Rightarrow> bool" where
  "underscoreOK s =
     (if 2 \<le> length s \<and> hd s = CHR ''0'' \<and>
         (is_letter CHR ''b'' (s ! 1) \<or> is_letter CHR ''o'' (s ! 1) \<or> is_letter CHR ''x'' (s ! 1))
      then underscores_ok (is_letter CHR ''x'' (s ! 1)) CHR ''0'' (drop 2 s)
      else underscores_ok False CHR ''^'' s)"

definition ParseInt :: "bytes \<Rightarrow> int option" where
  "ParseInt s =
     (let neg = (s \<noteq> [] \<and> hd s = CHR ''-'');
          u = (if s \<noteq> [] \<and> (hd s = CHR ''-'' \<or> hd s = CHR ''+'') then tl s else s)
      in if u = [] then None
         else case base_prefix u of
           (b, ds) \<Rightarrow>
             (case parse_digits b 0 ds of
                None \<Rightarrow> None
              | Some n \<Rightarrow>
                  if CHR ''_'' \<in> set ds \<and> \<not> underscoreOK u then None
                  else let i = (if neg then - int n else int n)
                    in if - (2 ^ 63) \<le> i \<and> i < 2 ^ 63 then Some i else None))"

definition ParseBool :: "bytes \<Rightarrow> bool option" where
  "ParseBool s =
     (if s \<in> set [''1'', ''t'', ''T'', ''true'', ''TRUE'', ''True''] then Some True
      else if s \<in> set [''0'', ''f'', ''F'', ''false'', ''FALSE'', ''False''] then Some False
      else None)"

section \<open>The flags\<close>

record cli =
  confFile :: bytes
  includeTracebacks :: bool
  vars :: settings
  actual :: "bytes list"

datatype flag_value =
    StringVar "bytes \<Rightarrow> cli \<Rightarrow> cli"
  | BoolVar "bool \<Rightarrow> cli \<Rightarrow> cli"
  | IntVar "int \<Rightarrow> cli \<Rightarrow> cli"
  | Float64Var "go_float \<Rightarrow> cli \<Rightarrow> cli"

definition on_vars :: "('a \<Rightarrow> settings \<Rightarrow> settings) \<Rightarrow> 'a \<Rightarrow> cli \<Rightarrow> cli" where
  "on_vars f v c = c\<lparr>vars := f v (vars c)\<rparr>"

definition registerFlags :: "(bytes \<times> flag_value) list" where
  "registerFlags =
     [(''configfile'', StringVar (\<lambda>v c. c\<lparr>confFile := v\<rparr>)),
      (''certfile'', StringVar (on_vars (\<lambda>v s. s\<lparr>cf_cert := v\<rparr>))),
      (''keyfile'', StringVar (on_vars (\<lambda>v s. s\<lparr>cf_key := v\<rparr>))),
      (''domain'', StringVar (on_vars (\<lambda>v s. s\<lparr>cf_domain := v\<rparr>))),
      (''acme_email'', StringVar (on_vars (\<lambda>v s. s\<lparr>cf_acmeEmail := v\<rparr>))),
      (''acme_ca'', StringVar (on_vars (\<lambda>v s. s\<lparr>cf_acmeCA := v\<rparr>))),
      (''pidfile'', StringVar (on_vars (\<lambda>v s. s\<lparr>cf_pidfile := v\<rparr>))),
      (''loglevel'', IntVar (on_vars (\<lambda>v s. s\<lparr>cf_loglevel := v\<rparr>))),
      (''logfile'', StringVar (on_vars (\<lambda>v s. s\<lparr>cf_logfile := v\<rparr>))),
      (''motd'', StringVar (on_vars (\<lambda>v s. s\<lparr>cf_motd := v\<rparr>))),
      (''motd_force_display'', BoolVar (on_vars (\<lambda>v s. s\<lparr>cf_motdAlwaysDisplay := v\<rparr>))),
      (''includeTracebacks'', BoolVar (\<lambda>v c. c\<lparr>includeTracebacks := v\<rparr>)),
      (''timeout'', Float64Var (on_vars (\<lambda>v s. s\<lparr>cf_timeoutSecs := v\<rparr>))),
      (''ping_time'', IntVar (on_vars (\<lambda>v s. s\<lparr>cf_pingTime := v\<rparr>))),
      (''allowedMessageLength'', IntVar (on_vars (\<lambda>v s. s\<lparr>cf_maxMsgLen := v\<rparr>))),
      (''interface'', StringVar (on_vars (\<lambda>v s. s\<lparr>cf_iface := v\<rparr>))),
      (''interface6'', StringVar (on_vars (\<lambda>v s. s\<lparr>cf_iface6 := v\<rparr>))),
      (''port'', IntVar (on_vars (\<lambda>v s. s\<lparr>cf_port := v\<rparr>))),
      (''port6'', IntVar (on_vars (\<lambda>v s. s\<lparr>cf_port6 := v\<rparr>)))]"

text \<open>Every variable starts at its default.\<close>

definition cli_defaults :: "bytes \<Rightarrow> settings \<Rightarrow> cli" where
  "cli_defaults conf s = \<lparr>confFile = conf, includeTracebacks = False, vars = s, actual = []\<rparr>"

fun IsBoolFlag :: "flag_value \<Rightarrow> bool" where
  "IsBoolFlag (BoolVar f) = True"
| "IsBoolFlag _ = False"

fun flag_Set :: "(bytes \<Rightarrow> go_float option) \<Rightarrow> flag_value \<Rightarrow> bytes \<Rightarrow> cli \<Rightarrow> cli option" where
  "flag_Set pf (StringVar f) v c = Some (f v c)"
| "flag_Set pf (BoolVar f) v c = map_option (\<lambda>b. f b c) (ParseBool v)"
| "flag_Set pf (IntVar f) v c = map_option (\<lambda>i. f i c) (ParseInt v)"
| "flag_Set pf (Float64Var f) v c = map_option (\<lambda>x. f x c) (pf v)"

section \<open>Parsing the arguments\<close>

text \<open>
  The loop of \<open>FlagSet.Parse\<close> with \<open>ExitOnError\<close>: it ends at the first argument that
  is no flag or after two dashes; a request for help exits with 0, an error with 2.
\<close>

datatype parsed = Parsed cli "bytes list" | Exits nat

definition flag_set_name :: "bytes \<Rightarrow> (bytes \<times> bytes option)" where
  "flag_set_name name = (case cut_at CHR ''='' name of None \<Rightarrow> (name, None) | Some (n, v) \<Rightarrow> (n, Some v))"

definition mark_set :: "bytes \<Rightarrow> cli \<Rightarrow> cli" where
  "mark_set n c = c\<lparr>actual := n # actual c\<rparr>"

fun Parse :: "(bytes \<Rightarrow> go_float option) \<Rightarrow> bytes list \<Rightarrow> cli \<Rightarrow> parsed" where
  "Parse pf [] c = Parsed c []"
| "Parse pf (s # args) c =
     (if length s < 2 \<or> hd s \<noteq> CHR ''-'' then Parsed c (s # args)
      else if s = ''--'' then Parsed c args
      else let name0 = (if s ! 1 = CHR ''-'' then drop 2 s else drop 1 s)
        in if name0 = [] \<or> hd name0 = CHR ''-'' \<or> hd name0 = CHR ''='' then Exits 2
           else case flag_set_name name0 of
             (name, value) \<Rightarrow>
               (case map_of registerFlags name of
                  None \<Rightarrow> if name = ''help'' \<or> name = ''h'' then Exits 0 else Exits 2
                | Some fl \<Rightarrow>
                    if IsBoolFlag fl then
                      (case flag_Set pf fl (case value of None \<Rightarrow> ''true'' | Some v \<Rightarrow> v) c of
                         None \<Rightarrow> Exits 2 | Some c' \<Rightarrow> Parse pf args (mark_set name c'))
                    else
                      (case value of
                         Some v \<Rightarrow>
                           (case flag_Set pf fl v c of
                              None \<Rightarrow> Exits 2 | Some c' \<Rightarrow> Parse pf args (mark_set name c'))
                       | None \<Rightarrow>
                           (case args of
                              [] \<Rightarrow> Exits 2
                            | v # args' \<Rightarrow>
                                (case flag_Set pf fl v c of
                                   None \<Rightarrow> Exits 2 | Some c' \<Rightarrow> Parse pf args' (mark_set name c'))))))"

declare Parse.simps(2) [simp del]

section \<open>Writing a command line\<close>

text \<open>The ways to write one flag, with one dash or two.\<close>

datatype setting_arg =
    Joined bool bytes bytes
  | Spaced bool bytes bytes
  | Bare bool bytes

definition dashes :: "bool \<Rightarrow> bytes" where
  "dashes two = (if two then ''--'' else ''-'')"

fun render :: "setting_arg \<Rightarrow> bytes list" where
  "render (Joined two n v) = [dashes two @ n @ CHR ''='' # v]"
| "render (Spaced two n v) = [dashes two @ n, v]"
| "render (Bare two n) = [dashes two @ n]"

fun arg_name :: "setting_arg \<Rightarrow> bytes" where
  "arg_name (Joined two n v) = n"
| "arg_name (Spaced two n v) = n"
| "arg_name (Bare two n) = n"

fun arg_value :: "setting_arg \<Rightarrow> bytes" where
  "arg_value (Joined two n v) = v"
| "arg_value (Spaced two n v) = v"
| "arg_value (Bare two n) = ''true''"

definition flag_of :: "bytes \<Rightarrow> flag_value option" where
  "flag_of n = map_of registerFlags n"

text \<open>A flag without a value is boolean, and a boolean flag has its value in the same argument.\<close>

fun well_formed :: "setting_arg \<Rightarrow> bool" where
  "well_formed (Joined two n v) = (flag_of n \<noteq> None)"
| "well_formed (Spaced two n v) = (case flag_of n of None \<Rightarrow> False | Some fl \<Rightarrow> \<not> IsBoolFlag fl)"
| "well_formed (Bare two n) = (case flag_of n of None \<Rightarrow> False | Some fl \<Rightarrow> IsBoolFlag fl)"

definition set_arg :: "(bytes \<Rightarrow> go_float option) \<Rightarrow> setting_arg \<Rightarrow> cli \<Rightarrow> cli option" where
  "set_arg pf a c =
     (case flag_of (arg_name a) of
        None \<Rightarrow> None
      | Some fl \<Rightarrow> map_option (mark_set (arg_name a)) (flag_Set pf fl (arg_value a) c))"

fun set_args :: "(bytes \<Rightarrow> go_float option) \<Rightarrow> setting_arg list \<Rightarrow> cli \<Rightarrow> cli option" where
  "set_args pf [] c = Some c"
| "set_args pf (a # as) c = Option.bind (set_arg pf a c) (set_args pf as)"

lemma flag_names_plain:
  assumes "flag_of n = Some fl"
  shows "n \<noteq> []" "hd n \<noteq> CHR ''-''" "CHR ''='' \<notin> set n"
proof -
  have "list_all (\<lambda>(n, fl). n \<noteq> [] \<and> hd n \<noteq> CHR ''-'' \<and> CHR ''='' \<notin> set n) registerFlags"
    by (simp add: registerFlags_def)
  moreover from assms have "(n, fl) \<in> set registerFlags" by (auto simp: flag_of_def dest: map_of_SomeD)
  ultimately show "n \<noteq> []" "hd n \<noteq> CHR ''-''" "CHR ''='' \<notin> set n" by (auto simp: list_all_iff)
qed

lemma cut_at_absent: "c \<notin> set s \<Longrightarrow> cut_at c s = None"
proof -
  assume "c \<notin> set s"
  then have d: "dropWhile (\<lambda>x. x \<noteq> c) s = []" by auto
  show ?thesis by (simp only: cut_at_def d list.case)
qed

lemma cut_at_first: "c \<notin> set s \<Longrightarrow> cut_at c (s @ c # t) = Some (s, t)"
proof -
  assume "c \<notin> set s"
  then have "\<forall>x \<in> set s. x \<noteq> c" by blast
  then show ?thesis by (simp add: cut_at_def)
qed

text \<open>One flag, however it is written, is taken off the arguments and set.\<close>

lemma Parse_flag:
  assumes n: "flag_of n = Some fl" and s: "s = dashes two @ n @ rest"
    and v: "flag_set_name (n @ rest) = (n, value)"
  shows "Parse pf (s # args) c =
    (if IsBoolFlag fl then
       (case flag_Set pf fl (case value of None \<Rightarrow> ''true'' | Some v \<Rightarrow> v) c of
          None \<Rightarrow> Exits 2 | Some c' \<Rightarrow> Parse pf args (mark_set n c'))
     else
       (case value of
          Some v \<Rightarrow> (case flag_Set pf fl v c of None \<Rightarrow> Exits 2 | Some c' \<Rightarrow> Parse pf args (mark_set n c'))
        | None \<Rightarrow>
            (case args of
               [] \<Rightarrow> Exits 2
             | v # args' \<Rightarrow> (case flag_Set pf fl v c of None \<Rightarrow> Exits 2 | Some c' \<Rightarrow> Parse pf args' (mark_set n c')))))"
proof -
  note p = flag_names_plain [OF n]
  obtain c0 n' where n': "n = c0 # n'" "c0 \<noteq> CHR ''-''" "c0 \<noteq> CHR ''=''" using p by (cases n) auto
  have len: "\<not> (length s < 2 \<or> hd s \<noteq> CHR ''-'')" "s \<noteq> ''--''" using n' by (auto simp: s dashes_def)
  have "(if s ! 1 = CHR ''-'' then drop 2 s else drop 1 s) = n @ rest"
    using n' by (auto simp: s dashes_def numeral_2_eq_2)
  moreover have "\<not> (n @ rest = [] \<or> hd (n @ rest) = CHR ''-'' \<or> hd (n @ rest) = CHR ''='')" using n' by simp
  ultimately show ?thesis
    using len n v p(1) by (simp add: Parse.simps(2) flag_of_def Let_def)
qed

lemma Parse_render_one:
  assumes "well_formed a"
  shows "Parse pf (render a @ args) c =
    (case set_arg pf a c of None \<Rightarrow> Exits 2 | Some c' \<Rightarrow> Parse pf args c')"
proof (cases a)
  case (Joined two n v)
  with assms obtain fl where fl: "flag_of n = Some fl" by auto
  have "flag_set_name (n @ CHR ''='' # v) = (n, Some v)"
    using cut_at_first [OF flag_names_plain(3) [OF fl]] by (simp add: flag_set_name_def)
  with Joined Parse_flag [OF fl refl this, of pf two args c] fl show ?thesis
    by (auto simp: set_arg_def split: option.splits)
next
  case (Spaced two n v)
  with assms obtain fl where fl: "flag_of n = Some fl" "\<not> IsBoolFlag fl" by (auto split: option.splits)
  have "flag_set_name (n @ []) = (n, None)"
    using cut_at_absent [OF flag_names_plain(3) [OF fl(1)]] by (simp add: flag_set_name_def)
  with Spaced Parse_flag [OF fl(1) refl this, of pf two "v # args" c] fl show ?thesis
    by (auto simp: set_arg_def split: option.splits)
next
  case (Bare two n)
  with assms obtain fl where fl: "flag_of n = Some fl" "IsBoolFlag fl" by (auto split: option.splits)
  have "flag_set_name (n @ []) = (n, None)"
    using cut_at_absent [OF flag_names_plain(3) [OF fl(1)]] by (simp add: flag_set_name_def)
  with Bare Parse_flag [OF fl(1) refl this, of pf two args c] fl show ?thesis
    by (auto simp: set_arg_def split: option.splits)
qed

lemma Parse_render:
  assumes "list_all well_formed as"
  shows "Parse pf (concat (map render as) @ rest) c =
    (case set_args pf as c of None \<Rightarrow> Exits 2 | Some c' \<Rightarrow> Parse pf rest c')"
  using assms
proof (induction as arbitrary: c)
  case Nil
  then show ?case by simp
next
  case (Cons a as)
  then show ?case by (simp add: Parse_render_one split: option.split)
qed

end
