(* ===== verification/Daemon.thy ===== *)
theory Daemon
  imports Config
begin

text \<open>
  The command line front end: the daemon commands of \<open>daemon_unix.go\<close>, the start-up and
  the end of \<open>main\<close> in \<open>nvdaRemoteServer.go\<close>, the PID file of \<open>server/pid.go\<close>,
  the paths of \<open>server/file.go\<close> and \<open>server/shutdown.go\<close>. What the program does to
  the system is a list of actions; what it learns from it (the PID file, whether a process is
  alive at each poll) is an argument.
\<close>

section \<open>Daemon commands\<close>

fun findPidFile :: "bytes \<Rightarrow> bytes list \<Rightarrow> bytes" where
  "findPidFile dflt [] = dflt"
| "findPidFile dflt (a # rest) =
     (if a = ''-pidfile'' \<and> rest \<noteq> [] then hd rest
      else if HasPrefix a ''-pidfile='' then drop (length ''-pidfile='') a
      else findPidFile dflt rest)"

definition readPid :: "bytes option \<Rightarrow> int option" where
  "readPid content = Option.bind content (\<lambda>d. Atoi (TrimSpace d))"

text \<open>\<open>alive\<close> answers the signal 0 of \<open>syscall.Kill\<close>.\<close>

definition pidAlive :: "bool \<Rightarrow> int \<Rightarrow> bool" where
  "pidAlive alive pid = (if pid \<le> 0 then False else alive)"

definition daemonStatus :: "bytes option \<Rightarrow> bool \<Rightarrow> int \<times> bool" where
  "daemonStatus content alive =
     (case readPid content of None \<Rightarrow> (0, False) | Some pid \<Rightarrow> (pid, pidAlive alive pid))"

definition maxAttempts :: nat where "maxAttempts = 50"

fun poll_loop :: "nat \<Rightarrow> nat \<Rightarrow> (nat \<Rightarrow> bool) \<Rightarrow> int \<Rightarrow> bool" where
  "poll_loop 0 i alive pid = False"
| "poll_loop (Suc n) i alive pid =
     (if \<not> pidAlive (alive i) pid then True else poll_loop n (Suc i) alive pid)"

definition waitForProcess :: "(nat \<Rightarrow> bool) \<Rightarrow> int \<Rightarrow> bool" where
  "waitForProcess alive pid = poll_loop maxAttempts 0 alive pid"

datatype signal = SIGTERM | SIGKILL

datatype action =
    Kill int signal
  | RemoveFile bytes
  | StartChild "bytes list"
  | WritePid bytes
  | WriteFile bytes bytes
  | Exit nat

fun child_args :: "bytes list \<Rightarrow> bytes list \<times> bool" where
  "child_args [] = ([], False)"
| "child_args (a # rest) =
     (case child_args rest of (as, has) \<Rightarrow> (a # as, a = ''-pidfile'' \<or> HasPrefix a ''-pidfile='' \<or> has))"

text \<open>\<open>ok\<close>: the executable is found and the child starts.\<close>

definition daemonStart :: "bool \<Rightarrow> bytes list \<Rightarrow> bytes \<Rightarrow> action list" where
  "daemonStart ok rest pidfile =
     (let (childArgs, hasPidFile) = child_args rest;
          args = (if \<not> hasPidFile then childArgs @ [''-pidfile'', pidfile] else childArgs)
      in if \<not> ok then [Exit 1] else [StartChild args, WritePid pidfile])"

datatype daemon_command = Status | Stop | KillCmd | Restart | Start

definition daemonCmd ::
  "bytes \<Rightarrow> bytes option \<Rightarrow> bool \<Rightarrow> (nat \<Rightarrow> bool) \<Rightarrow> bool \<Rightarrow> daemon_command \<Rightarrow> bytes list \<Rightarrow> action list" where
  "daemonCmd dflt content alive0 alive ok cmd rest =
     (let pidfile = findPidFile dflt rest; (pid, running) = daemonStatus content alive0
      in case cmd of
           Status \<Rightarrow> []
         | Stop \<Rightarrow>
             if \<not> running then []
             else Kill pid SIGTERM # (if waitForProcess alive pid then [RemoveFile pidfile] else [Exit 1])
         | KillCmd \<Rightarrow>
             if \<not> running then []
             else Kill pid SIGKILL # (if waitForProcess alive pid then [RemoveFile pidfile] else [Exit 1])
         | Restart \<Rightarrow>
             (if running then
                Kill pid SIGTERM # (if \<not> waitForProcess alive pid then [Kill pid SIGKILL] else []) @ [RemoveFile pidfile]
              else []) @ daemonStart ok rest pidfile
         | Start \<Rightarrow> if running then [Exit 1] else daemonStart ok rest pidfile)"

text \<open>The poll gives up exactly when the process is alive at all fifty polls.\<close>

lemma poll_loop_iff: "poll_loop n i alive pid \<longleftrightarrow> (\<exists>k < n. \<not> pidAlive (alive (i + k)) pid)"
proof (induction n arbitrary: i)
  case 0
  then show ?case by simp
next
  case (Suc n)
  have "(\<exists>k < Suc n. \<not> pidAlive (alive (i + k)) pid) \<longleftrightarrow>
      \<not> pidAlive (alive i) pid \<or> (\<exists>k < n. \<not> pidAlive (alive (Suc i + k)) pid)"
    by (auto simp: less_Suc_eq_0_disj)
  with Suc show ?case by simp
qed

lemma child_args_fst: "fst (child_args rest) = rest"
  by (induction rest) (auto split: prod.split)

lemma child_args_without: "\<not> snd (child_args rest) \<Longrightarrow> findPidFile dflt (rest @ ts) = findPidFile dflt ts"
  by (induction rest) (auto split: prod.splits)

text \<open>The child looks for its PID file where the parent will look.\<close>

lemma daemonStart_pidfile:
  assumes "StartChild args \<in> set (daemonStart ok rest (findPidFile dflt rest))"
  shows "findPidFile dflt args = findPidFile dflt rest"
proof -
  obtain as has where ca: "child_args rest = (as, has)" by (cases "child_args rest")
  with child_args_fst [of rest] have "as = rest" by simp
  with ca assms child_args_without [of rest dflt] show ?thesis
    by (auto simp: daemonStart_def split: if_splits)
qed

text \<open>Only a process whose number was read and found alive is ever signalled.\<close>

lemma daemonCmd_kills:
  assumes "Kill pid sig \<in> set (daemonCmd dflt content alive0 alive ok cmd rest)"
  shows "0 < pid \<and> alive0 \<and> readPid content = Some pid"
proof -
  have no: "Kill pid sig \<notin> set (daemonStart ok rest p)" for p
    by (auto simp: daemonStart_def split: prod.split)
  from assms have "daemonStatus content alive0 = (pid, True)"
    by (cases cmd) (auto simp: daemonCmd_def Let_def no split: if_splits prod.splits)
  then show ?thesis
    by (auto simp: daemonStatus_def pidAlive_def split: option.splits if_splits)
qed

section \<open>Paths\<close>

text \<open>\<open>strings.ReplaceAll\<close> of a doubled separator: pairs are taken from the left.\<close>

fun halve_doubled :: "char \<Rightarrow> bytes \<Rightarrow> bytes" where
  "halve_doubled sep (a # b # s) =
     (if a = sep \<and> b = sep then sep # halve_doubled sep s else a # halve_doubled sep (b # s))"
| "halve_doubled sep s = s"

definition pathSeparator :: char where "pathSeparator = CHR ''/''"

definition cleanPath :: "bytes \<Rightarrow> bytes" where
  "cleanPath p = halve_doubled pathSeparator p"

text \<open>\<open>absolute\<close> and \<open>resolve\<close> are \<open>filepath.Abs\<close> and \<open>filepath.EvalSymlinks\<close>.\<close>

definition fullPath :: "(bytes \<Rightarrow> bytes option) \<Rightarrow> (bytes \<Rightarrow> bytes option) \<Rightarrow> bytes \<Rightarrow> bytes" where
  "fullPath absolute resolve oldPath =
     (case absolute oldPath of
        None \<Rightarrow> cleanPath oldPath
      | Some absPath \<Rightarrow>
          (case resolve absPath of None \<Rightarrow> cleanPath absPath | Some evalPath \<Rightarrow> cleanPath evalPath))"

section \<open>The PID file of the server\<close>

text \<open>
  \<open>os.WriteFile\<close> truncates the file and writes into it: it fails before it opens the file, or
  some first bytes arrive; it reports an error if these are not all.
\<close>

datatype write_outcome = NotOpened | Wrote nat

definition file_rewrite ::
  "(bytes \<Rightarrow> bytes) \<Rightarrow> (bytes \<Rightarrow> write_outcome) \<Rightarrow> bytes \<Rightarrow> bytes \<Rightarrow> bool \<times> action list" where
  "file_rewrite resolved writes file data =
     (let f = resolved file
      in case writes f of
           NotOpened \<Rightarrow> (False, [])
         | Wrote n \<Rightarrow> (length data \<le> n, [WriteFile f (take n data)]))"

text \<open>The remembered path, and what happens to files.\<close>

definition PidfileSet ::
  "(bytes \<Rightarrow> bytes) \<Rightarrow> (bytes \<Rightarrow> write_outcome) \<Rightarrow> bytes \<Rightarrow> bytes \<Rightarrow> bytes \<times> action list" where
  "PidfileSet resolved writes pidStr pidfile =
     (if pidfile = [] then (pidfile, [])
      else case file_rewrite resolved writes pidfile pidStr of (ok, as) \<Rightarrow> (if ok then pidfile else [], as))"

definition PidfileClear :: "bytes \<Rightarrow> bytes \<times> action list" where
  "PidfileClear pidfile = (if pidfile = [] then (pidfile, []) else ([], [RemoveFile pidfile]))"

definition Shutdown :: "bytes \<Rightarrow> bytes \<times> action list" where
  "Shutdown pidfile = PidfileClear pidfile"

text \<open>The deferred call, with the value \<open>recover\<close> returns, if any.\<close>

definition CatchPanic :: "go_panic option \<Rightarrow> bytes \<Rightarrow> action list" where
  "CatchPanic recovered pidfile =
     (case recovered of None \<Rightarrow> [] | Some r \<Rightarrow> snd (Shutdown pidfile) @ [Exit 2])"

text \<open>
  How \<open>wait\<close> ends: it returns, it panics, or another goroutine panics. \<open>CatchPanic\<close> is
  deferred in \<open>main\<close> only, and \<open>recover\<close> sees the panics of its own goroutine: for any
  other the runtime ends the process with status 2, and nothing deferred in \<open>main\<close> is run.
\<close>

datatype ending = Returns | PanicsInMain go_panic | PanicsElsewhere go_panic

fun main_end :: "ending \<Rightarrow> bytes \<Rightarrow> action list" where
  "main_end Returns pidfile = (case Shutdown pidfile of (p, as) \<Rightarrow> as @ CatchPanic None p)"
| "main_end (PanicsInMain r) pidfile = CatchPanic (Some r) pidfile"
| "main_end (PanicsElsewhere r) pidfile = [Exit 2]"

lemma PidfileClear_once:
  "snd (PidfileClear (fst (PidfileClear p))) = []"
  by (simp add: PidfileClear_def)

section \<open>Starting up\<close>

text \<open>\<open>Start\<close>: each server listens or is dropped from the list.\<close>

definition start_servers :: "('s \<Rightarrow> bool) \<Rightarrow> 's list \<Rightarrow> nat \<times> 's option list" where
  "start_servers listens servers =
     (let num = length (filter listens servers)
      in (num, if num = 0 then [] else map (\<lambda>s. if listens s then Some s else None) servers))"

text \<open>\<open>wait\<close> waits for the servers that are left.\<close>

definition waited :: "'s option list \<Rightarrow> 's list" where
  "waited servers = List.map_filter id servers"

text \<open>
  \<open>main\<close> after the dispatch of \<open>args\<close>: configuration, start, PID file, the wait and its end.
\<close>

definition serve_main ::
  "('e + 's list) \<Rightarrow> ('s \<Rightarrow> bool) \<Rightarrow> ending \<Rightarrow> (bytes \<Rightarrow> bytes) \<Rightarrow> (bytes \<Rightarrow> write_outcome) \<Rightarrow> bytes \<Rightarrow> bytes \<Rightarrow>
     's list \<times> action list" where
  "serve_main configured listens how resolved writes pidStr pidfile =
     (case configured of
        Inl e \<Rightarrow> ([], [Exit 1])
      | Inr servers \<Rightarrow>
          (case start_servers listens servers of
             (num, left) \<Rightarrow>
               if num = 0 then ([], [Exit 1])
               else
                 (case PidfileSet resolved writes pidStr pidfile of
                    (p, as) \<Rightarrow> (waited left, as @ main_end how p))))"

definition parse_command :: "bytes \<Rightarrow> daemon_command option" where
  "parse_command a =
     (if a = ''start'' then Some Start else if a = ''stop'' then Some Stop
      else if a = ''restart'' then Some Restart else if a = ''kill'' then Some KillCmd
      else if a = ''status'' then Some Status else None)"

lemma waited_started: "waited (snd (start_servers listens servers)) = filter listens servers"
proof -
  have "List.map_filter id (map (\<lambda>s. if listens s then Some s else None) servers) = filter listens servers"
    by (induction servers) (auto simp: map_filter_simps)
  then show ?thesis
    by (auto simp: waited_def start_servers_def Let_def map_filter_simps filter_empty_conv)
qed

end
