(* ===== verification/Certificates.thy ===== *)
theory Certificates
  imports Config
begin

text \<open>
  Certificates and the configuration of TLS, after \<open>server/genCert.go\<close>, the three builders
  behind \<open>buildTLSConfig\<close> in \<open>server/configure.go\<close>, and the \<open>Server\<close> values of
  \<open>server/connection.go\<close>. The packages \<open>crypto\<close>, \<open>encoding/pem\<close> and \<open>certmagic\<close>
  are arguments; keys and certificates are opaque byte strings.
\<close>

section \<open>What the packages offer\<close>

datatype key_usage = CertSign | CRLSign | DigitalSignature

datatype ext_key_usage = ClientAuth | ServerAuth

record x509_certificate =
  SerialNumber :: int
  Country :: "bytes list"
  Organization :: "bytes list"
  CommonName :: bytes
  DNSNames :: "bytes list"
  IPAddresses :: "bytes list"
  NotBefore :: int
  NotAfter :: int
  KeyUsage :: "key_usage list"
  ExtKeyUsage :: "ext_key_usage list"
  BasicConstraintsValid :: bool
  IsCA :: bool

record acme =
  Email :: bytes
  Agreed :: bool
  CA :: bytes

record tls_config =
  TLSCertificates :: "bytes list"
  MinVersion :: int

text \<open>
  Times are in nanoseconds; \<open>Now i\<close> is the reading of the clock at its \<open>i\<close>th call.
  \<open>None\<close> is an error.
\<close>

record crypto =
  rand_Int :: "int \<Rightarrow> int option"
  Now :: "nat \<Rightarrow> int"
  AddYears :: "int \<Rightarrow> int \<Rightarrow> int"
  GenerateKey :: "bytes option"
  PublicKey :: "bytes \<Rightarrow> bytes"
  CreateCertificate :: "x509_certificate \<Rightarrow> x509_certificate \<Rightarrow> bytes \<Rightarrow> bytes \<Rightarrow> bytes option"
  pem_Encode :: "bytes \<Rightarrow> bytes \<Rightarrow> bytes option"
  MarshalPKCS8PrivateKey :: "bytes \<Rightarrow> bytes option"
  X509KeyPair :: "bytes \<Rightarrow> bytes \<Rightarrow> bytes option"
  LoadX509KeyPair :: "bytes \<Rightarrow> bytes \<Rightarrow> bytes option"
  DefaultACME :: acme
  ManageSync :: "acme \<Rightarrow> bytes list \<Rightarrow> tls_config option"

datatype tls_error =
    KeyError
  | CreateError
  | CertPemError
  | MarshalError
  | KeyPemError
  | KeyPairError
  | LoadError
  | AcmeError

fun or_error :: "'e \<Rightarrow> 'a option \<Rightarrow> ('a \<Rightarrow> 'e + 'b) \<Rightarrow> 'e + 'b" where
  "or_error e None f = Inl e"
| "or_error e (Some x) f = f x"

lemma or_error_Inr [simp]: "or_error e x f = Inr c \<longleftrightarrow> (\<exists>y. x = Some y \<and> f y = Inr c)"
  by (cases x) simp_all

section \<open>The certificate of its own\<close>

definition serial_number :: "crypto \<Rightarrow> int" where
  "serial_number cr = (case rand_Int cr (2 ^ 128) of None \<Rightarrow> Now cr 0 | Some n \<Rightarrow> n)"

definition ca_template :: "crypto \<Rightarrow> x509_certificate" where
  "ca_template cr =
     \<lparr>SerialNumber = serial_number cr, Country = [''US''], Organization = [''NVDARemote Server''],
      CommonName = ''Root CA'', DNSNames = [''localhost''], IPAddresses = [''127.0.0.1''],
      NotBefore = Now cr 1 - 10 * 10 ^ 9, NotAfter = AddYears cr 10 (Now cr 2),
      KeyUsage = [CertSign, CRLSign, DigitalSignature], ExtKeyUsage = [ClientAuth, ServerAuth],
      BasicConstraintsValid = True, IsCA = True\<rparr>"

definition gen_cert :: "crypto \<Rightarrow> tls_error + tls_config" where
  "gen_cert cr =
     (let ca = ca_template cr in
      or_error KeyError (GenerateKey cr) (\<lambda>priv.
      or_error CreateError (CreateCertificate cr ca ca (PublicKey cr priv) priv) (\<lambda>caBytes.
      or_error CertPemError (pem_Encode cr ''CERTIFICATE'' caBytes) (\<lambda>certPEM.
      or_error MarshalError (MarshalPKCS8PrivateKey cr priv) (\<lambda>tmpk.
      or_error KeyPemError (pem_Encode cr ''PRIVATE KEY'' tmpk) (\<lambda>certPrivKeyPEM.
      or_error KeyPairError (X509KeyPair cr certPEM certPrivKeyPEM) (\<lambda>serverCert.
      Inr \<lparr>TLSCertificates = [serverCert], MinVersion = 0\<rparr>)))))))"

section \<open>The three builders\<close>

definition VersionTLS12 :: int where "VersionTLS12 = 0x0303"

definition buildSelfSignedConfig :: "crypto \<Rightarrow> tls_error + tls_config" where
  "buildSelfSignedConfig cr =
     (case gen_cert cr of Inl e \<Rightarrow> Inl e | Inr config \<Rightarrow> Inr (config\<lparr>MinVersion := VersionTLS12\<rparr>))"

definition buildExplicitCertConfig :: "crypto \<Rightarrow> bytes \<Rightarrow> bytes \<Rightarrow> tls_error + tls_config" where
  "buildExplicitCertConfig cr cert key =
     or_error LoadError (LoadX509KeyPair cr cert key) (\<lambda>certPair.
       Inr \<lparr>TLSCertificates = [certPair], MinVersion = VersionTLS12\<rparr>)"

definition buildCertMagicConfig :: "crypto \<Rightarrow> bytes \<Rightarrow> bytes \<Rightarrow> bytes list \<Rightarrow> tls_error + tls_config" where
  "buildCertMagicConfig cr email ca domains =
     (let a = DefaultACME cr;
          a = (if email \<noteq> [] then a\<lparr>Email := email\<rparr> else a);
          a = a\<lparr>Agreed := True\<rparr>;
          a = (if ca \<noteq> [] then a\<lparr>CA := ca\<rparr> else a)
      in or_error AcmeError (ManageSync cr a domains) (\<lambda>config. Inr (config\<lparr>MinVersion := VersionTLS12\<rparr>)))"

text \<open>The last lines of \<open>buildTLSConfig\<close>, for the choice made before.\<close>

definition build_choice :: "crypto \<Rightarrow> settings \<Rightarrow> tls_choice \<Rightarrow> tls_error + tls_config" where
  "build_choice cr s t =
     (case t of
        CertMagic domains \<Rightarrow> buildCertMagicConfig cr (cf_acmeEmail s) (cf_acmeCA s) domains
      | SelfSigned \<Rightarrow> buildSelfSignedConfig cr
      | ExplicitCert cert key \<Rightarrow> buildExplicitCertConfig cr cert key)"

lemma build_choice_version: "build_choice cr s t = Inr c \<Longrightarrow> MinVersion c = VersionTLS12"
  by (cases t)
    (auto simp: build_choice_def buildSelfSignedConfig_def buildExplicitCertConfig_def buildCertMagicConfig_def Let_def
      split: sum.splits)

text \<open>A self-signed configuration presents one certificate: the template, signed by its own key.\<close>

lemma gen_cert_Inr:
  assumes "gen_cert cr = Inr c"
  obtains priv der cert_pem pkcs key_pem pair where
    "GenerateKey cr = Some priv" "CreateCertificate cr (ca_template cr) (ca_template cr) (PublicKey cr priv) priv = Some der"
    "pem_Encode cr ''CERTIFICATE'' der = Some cert_pem" "MarshalPKCS8PrivateKey cr priv = Some pkcs"
    "pem_Encode cr ''PRIVATE KEY'' pkcs = Some key_pem" "X509KeyPair cr cert_pem key_pem = Some pair"
    "TLSCertificates c = [pair]"
  using assms unfolding gen_cert_def Let_def by auto

text \<open>What makes it a certificate a server can present from now on.\<close>

definition self_signed :: "crypto \<Rightarrow> tls_config \<Rightarrow> bool" where
  "self_signed cr c \<longleftrightarrow>
     (\<exists>ca priv der cert_pem pkcs key_pem pair.
        CreateCertificate cr ca ca (PublicKey cr priv) priv = Some der \<and>
        pem_Encode cr ''CERTIFICATE'' der = Some cert_pem \<and>
        MarshalPKCS8PrivateKey cr priv = Some pkcs \<and> pem_Encode cr ''PRIVATE KEY'' pkcs = Some key_pem \<and>
        X509KeyPair cr cert_pem key_pem = Some pair \<and> TLSCertificates c = [pair] \<and>
        ServerAuth \<in> set (ExtKeyUsage ca) \<and> IsCA ca \<and> CertSign \<in> set (KeyUsage ca) \<and>
        NotBefore ca < Now cr 1 \<and> (Now cr 2 < AddYears cr 10 (Now cr 2) \<longrightarrow> Now cr 2 < NotAfter ca))"

lemma self_signed_built:
  assumes "buildSelfSignedConfig cr = Inr c" shows "self_signed cr c"
proof -
  from assms obtain c0 where g: "gen_cert cr = Inr c0" and c: "c = c0\<lparr>MinVersion := VersionTLS12\<rparr>"
    by (auto simp: buildSelfSignedConfig_def split: sum.splits)
  have t: "ServerAuth \<in> set (ExtKeyUsage (ca_template cr))" "IsCA (ca_template cr)"
    "CertSign \<in> set (KeyUsage (ca_template cr))" "NotBefore (ca_template cr) < Now cr 1"
    "NotAfter (ca_template cr) = AddYears cr 10 (Now cr 2)"
    by (simp_all add: ca_template_def)
  from g show ?thesis
  proof (rule gen_cert_Inr)
    fix priv der cert_pem pkcs key_pem pair
    assume "CreateCertificate cr (ca_template cr) (ca_template cr) (PublicKey cr priv) priv = Some der"
      "pem_Encode cr ''CERTIFICATE'' der = Some cert_pem" "MarshalPKCS8PrivateKey cr priv = Some pkcs"
      "pem_Encode cr ''PRIVATE KEY'' pkcs = Some key_pem" "X509KeyPair cr cert_pem key_pem = Some pair"
      "TLSCertificates c0 = [pair]"
    with t show ?thesis unfolding self_signed_def c
      by (intro exI [of _ "ca_template cr"] exI [of _ priv] exI [of _ der] exI [of _ cert_pem] exI [of _ pkcs]
          exI [of _ key_pem] exI [of _ pair]) simp
  qed
qed

section \<open>Servers\<close>

record server =
  listen_address :: bytes
  listen_config :: "tls_config option"
  terminator :: char

definition New :: "bytes \<Rightarrow> server" where
  "New addr = \<lparr>listen_address = addr, listen_config = None, terminator = CHR 0x0A\<rparr>"

definition NewWithTLSConfig :: "bytes \<Rightarrow> tls_config \<Rightarrow> server" where
  "NewWithTLSConfig addr c = (New addr)\<lparr>listen_config := Some c\<rparr>"

end
