(* ===== verification/Startup.thy ===== *)
theory Startup
  imports Flags Daemon Certificates
begin

text \<open>
  Starting the server, after \<open>Configure\<close> of \<open>server/configure.go\<close>, \<open>log_init\<close> and
  \<open>LogClose\<close> of \<open>server/logger.go\<close>, \<open>versionSetter\<close>,
  \<open>args\<close> and \<open>main\<close> of \<open>nvdaRemoteServer.go\<close>, \<open>buildInfo.go\<close>,
  \<open>daemon_windows.go\<close> and the paths of \<open>server/defaults.go\<close>: from the command line to
  the addresses the server listens on. The system, the build, the parser of floats and the
  cryptographic packages are arguments.
\<close>

section \<open>The world outside\<close>

text \<open>What \<open>debug.ReadBuildInfo\<close> tells of the main module.\<close>

record build_info =
  Main_Version :: bytes
  Main_Sum :: bytes

text \<open>
  The file system, the number of the process, the parser of floats, the cryptographic packages,
  the system the program was compiled for, and the build information.
\<close>

record environment =
  os_Stat :: "bytes \<Rightarrow> stat_result"
  os_ReadFile :: "bytes \<Rightarrow> bytes option"
  os_OpenLog :: "bytes \<Rightarrow> bool"
  filepath_Abs :: "bytes \<Rightarrow> bytes option"
  filepath_EvalSymlinks :: "bytes \<Rightarrow> bytes option"
  os_WriteFile :: "bytes \<Rightarrow> write_outcome"
  os_Getpid :: int
  ParseFloat :: "bytes \<Rightarrow> go_float option"
  os_crypto :: crypto
  runtime_GOOS :: bytes
  runtime_GOARCH :: bytes
  runtime_Version :: bytes
  ReadBuildInfo :: "build_info option"

section \<open>The logger\<close>

text \<open>
  A logger writes to the standard output and, if the file could be opened, to the file as well;
  \<open>complained\<close> is the error line about a file that could not be opened.
\<close>

record logger =
  logLevel :: int
  log_file :: "bytes option"
  complained :: "bytes option"

definition log_stdout :: "int \<Rightarrow> logger" where
  "log_stdout loglevel = \<lparr>logLevel = toSlogLevel loglevel, log_file = None, complained = None\<rparr>"

definition log_init :: "environment \<Rightarrow> int \<Rightarrow> bytes \<Rightarrow> logger" where
  "log_init env loglevel file =
     (if file = [] then log_stdout loglevel
      else let f = fullPath (filepath_Abs env) (filepath_EvalSymlinks env) file
        in if \<not> os_OpenLog env f then (log_stdout loglevel)\<lparr>complained := Some f\<rparr>
           else \<lparr>logLevel = toSlogLevel loglevel, log_file = Some f, complained = None\<rparr>)"

definition LogClose :: "logger \<Rightarrow> logger" where
  "LogClose lg = lg\<lparr>log_file := None\<rparr>"

section \<open>Configuration\<close>

text \<open>What \<open>conf_print_missing\<close> prints; \<open>err\<close> is the text of the error.\<close>

definition conf_print_missing :: "bytes \<Rightarrow> bytes option \<Rightarrow> bytes" where
  "conf_print_missing path err =
     ''Can'' @ [CHR 0x27] @ ''t open the configuration file, using default or commandline values'' @
     (if path \<noteq> [] then '': '' @ path else []) @
     (case err of None \<Rightarrow> [] | Some e \<Rightarrow> '' ('' @ e @ '')'')"

text \<open>A configured server, or how the program ends before.\<close>

record configured =
  config :: settings
  certificate :: tls_choice
  servers :: "server list"
  logs :: logger

definition addresses :: "configured \<Rightarrow> bytes list" where
  "addresses k = map listen_address (servers k)"

datatype startup =
    ExitStatus nat
  | NilPanic
  | ConfigError
  | Configured configured

definition Configure :: "environment \<Rightarrow> bytes \<Rightarrow> settings \<Rightarrow> bytes list \<Rightarrow> startup" where
  "Configure env conf d args =
     (case Parse (ParseFloat env) args (cli_defaults conf d) of
        Exits n \<Rightarrow> ExitStatus n
      | Parsed c rest \<Rightarrow>
          (let s1 = applyConfigFile (ParseFloat env) (confFile c) (os_ReadFile env (confFile c)) (set (actual c)) (vars c);
               lg = log_init env (cf_loglevel s1) (cf_logfile s1);
               s2 = handleMotd (validateSettings s1)
           in case buildTLSConfig (os_Stat env) d s2 of
                Inl p \<Rightarrow> NilPanic
              | Inr t \<Rightarrow>
                  (case build_choice (os_crypto env) s2 t of
                     Inl e \<Rightarrow> ConfigError
                   | Inr c \<Rightarrow>
                       Configured \<lparr>config = s2, certificate = t,
                         servers = map (\<lambda>addr. NewWithTLSConfig addr c) (build_addresses s2), logs = lg\<rparr>)))"

section \<open>The program\<close>

text \<open>The defaults of \<open>init\<close>: the path of the configuration file, and the settings.\<close>

definition system_defaults :: "bytes \<Rightarrow> bytes \<times> settings" where
  "system_defaults goos =
     (if goos = ''linux'' then (''/etc/NVDARemoteServer.conf'', linux_defaults)
      else if goos = ''darwin'' then
        (''/etc/NVDARemoteServer.conf'',
         defaults ''/usr/share/NVDARemoteServer/server.pem'' []
           ''/var/log/NVDARemoteServer/NVDARemoteServer.log'' ''/var/run/NVDARemoteServer.pid'')
      else ([], defaults [] [] [] []))"

definition Version :: bytes where "Version = ''development''"

definition versionSetter :: "environment \<Rightarrow> bytes" where
  "versionSetter env =
     (case ReadBuildInfo env of
        None \<Rightarrow> Version
      | Some m \<Rightarrow> if Main_Sum m \<noteq> [] then Main_Version m else Version)"

definition TrimPrefix :: "bytes \<Rightarrow> bytes \<Rightarrow> bytes" where
  "TrimPrefix s p = (if HasPrefix s p then drop (length p) s else s)"

definition buildInfo :: "environment \<Rightarrow> bytes" where
  "buildInfo env =
     ''This application was compiled with '' @ runtime_Version env @ ''. It was compiled for the '' @
     runtime_GOARCH env @ '' architecture and the '' @ runtime_GOOS env @ '' operating system.''"

text \<open>The stub that takes the place of \<open>daemonCmd\<close> on Windows.\<close>

definition windows_daemonCmd :: "daemon_command \<Rightarrow> bytes list \<Rightarrow> action list" where
  "windows_daemonCmd cmd rest = [Exit 2]"

text \<open>
  \<open>main\<close> with its arguments: \<open>version\<close> and \<open>buildinfo\<close> print and exit, a daemon
  command is carried out, and otherwise the server runs until it ends in some way. A panic in
  \<open>Configure\<close> comes before \<open>CatchPanic\<close> is deferred.
\<close>

datatype run =
    Printed bytes
  | Daemon "action list"
  | Crashed
  | Ran "bytes list" "action list"

definition serve :: "environment \<Rightarrow> (bytes \<Rightarrow> bool) \<Rightarrow> ending \<Rightarrow> bytes \<Rightarrow> settings \<Rightarrow> bytes list \<Rightarrow> run" where
  "serve env listens how conf d args =
     (let resolved = fullPath (filepath_Abs env) (filepath_EvalSymlinks env); pidStr = Itoa (os_Getpid env)
      in case Configure env conf d args of
           ExitStatus n \<Rightarrow> Ran [] [Exit n]
         | NilPanic \<Rightarrow> Crashed
         | ConfigError \<Rightarrow>
             (case serve_main (Inl ()) listens how resolved (os_WriteFile env) pidStr [] of (ss, as) \<Rightarrow> Ran ss as)
         | Configured k \<Rightarrow>
             (case serve_main (Inr (addresses k) :: unit + bytes list) listens how resolved (os_WriteFile env) pidStr
                (cf_pidfile (config k)) of (ss, as) \<Rightarrow> Ran ss as))"

text \<open>
  \<open>alive0\<close> and \<open>alive\<close> are what a daemon command finds: whether the process is alive at
  first and at the polls; \<open>started\<close> whether a child starts.
\<close>

definition main ::
  "environment \<Rightarrow> (bytes \<Rightarrow> bool) \<Rightarrow> ending \<Rightarrow> bytes \<Rightarrow> settings \<Rightarrow>
     bool \<Rightarrow> (nat \<Rightarrow> bool) \<Rightarrow> bool \<Rightarrow> bytes list \<Rightarrow> run" where
  "main env listens how conf d alive0 alive started args =
     (case args of
        [] \<Rightarrow> serve env listens how conf d []
      | a # rest \<Rightarrow>
          if a = ''version'' then Printed (TrimPrefix (versionSetter env) ''v'')
          else if a = ''buildinfo'' then Printed (buildInfo env)
          else case parse_command a of
            Some cmd \<Rightarrow>
              Daemon (if runtime_GOOS env = ''windows'' then windows_daemonCmd cmd rest
                else daemonCmd (cf_pidfile d) (os_ReadFile env (findPidFile (cf_pidfile d) rest)) alive0 alive started
                  cmd rest)
          | None \<Rightarrow> serve env listens how conf d args)"

section \<open>The options of the configuration file\<close>

definition string_options :: "bytes list" where
  "string_options = [''interface'', ''interface6'', ''logfile'', ''pidfile'', ''keyfile'', ''certfile'', ''domain'',
     ''acme_email'', ''acme_ca'', ''motd'']"

definition int_options :: "bytes list" where
  "int_options = [''port'', ''port6'', ''loglevel'', ''allowedMessageLength'', ''ping_time'']"

lemma option_setters:
  "n \<in> set string_options \<Longrightarrow> \<exists>f. (n, f) \<in> set (option_table pf) \<and> (\<forall>v s. field_of n (f v s) = Inl v)"
  "n \<in> set int_options \<Longrightarrow> \<exists>f. (n, f) \<in> set (option_table pf) \<and>
     (\<forall>v s. field_of n (f v s) = (case Atoi v of None \<Rightarrow> field_of n s | Some i \<Rightarrow> Inr (Inl i)))"
proof -
  have "list_all (\<lambda>n. case map_of (option_table pf) n of None \<Rightarrow> False | Some f \<Rightarrow> (\<forall>v s. field_of n (f v s) = Inl v))
      string_options"
    by (simp add: string_options_def option_table_def field_of_def)
  then show "\<exists>f. (n, f) \<in> set (option_table pf) \<and> (\<forall>v s. field_of n (f v s) = Inl v)" if "n \<in> set string_options"
    using that by (cases "map_of (option_table pf) n") (auto simp: list_all_iff dest!: bspec intro: map_of_SomeD)
  have "list_all (\<lambda>n. case map_of (option_table pf) n of None \<Rightarrow> False
      | Some f \<Rightarrow> (\<forall>v s. field_of n (f v s) = (case Atoi v of None \<Rightarrow> field_of n s | Some i \<Rightarrow> Inr (Inl i)))) int_options"
    by (simp add: int_options_def option_table_def int_setter_def field_of_def split: option.split)
  then show "\<exists>f. (n, f) \<in> set (option_table pf) \<and>
     (\<forall>v s. field_of n (f v s) = (case Atoi v of None \<Rightarrow> field_of n s | Some i \<Rightarrow> Inr (Inl i)))" if "n \<in> set int_options"
    using that by (cases "map_of (option_table pf) n") (auto simp: list_all_iff dest!: bspec intro: map_of_SomeD)
qed

lemma conf_apply_set:
  assumes "(n, f) \<in> set (option_table pf)" "map_of opts n = Some v" "n \<notin> cliSet"
  shows "\<exists>s'. field_of n (conf_apply pf opts cliSet s) = field_of n (f v s') \<and> field_of n s' = field_of n s"
proof -
  have d: "distinct (map fst (option_table pf))" by (simp add: option_table_def)
  from assms(1) obtain t1 t2 where t: "option_table pf = t1 @ (n, f) # t2" by (meson split_list)
  with d have out: "n \<notin> fst ` set t1" "n \<notin> fst ` set t2" by auto
  have one: "field_of n (apply_opt opts cliSet name g s) = field_of n s"
    if "(name, g) \<in> set (option_table pf)" "name \<noteq> n" for name g s
    using option_table_field [OF that(1) that(2) [symmetric]] by (simp add: apply_opt_def split: option.split)
  have frame: "field_of n (fold (\<lambda>(name, g). apply_opt opts cliSet name g) t s) = field_of n s"
    if "set t \<subseteq> set (option_table pf)" "n \<notin> fst ` set t" for t s
    using that
  proof (induction t arbitrary: s)
    case (Cons p t)
    then show ?case by (cases p) (auto simp: one)
  qed simp
  let ?s = "fold (\<lambda>(name, g). apply_opt opts cliSet name g) t1 s"
  have "set t1 \<subseteq> insert (n, f) (set t1 \<union> set t2)" "set t2 \<subseteq> insert (n, f) (set t1 \<union> set t2)" by blast+
  note sub = this
  from sub(2) have "field_of n (conf_apply pf opts cliSet s) = field_of n (f v ?s)"
    using frame [of t2] out assms(2,3) t by (simp add: conf_apply_table apply_opt_def)
  moreover have "field_of n ?s = field_of n s" using frame [of t1] out t sub(1) by simp
  ultimately show ?thesis by blast
qed


section \<open>What a flag sets\<close>

text \<open>Each flag changes its own variable only, and a string is taken as it is.\<close>

lemma flag_Set_other:
  assumes "flag_of m = Some fl" "m \<noteq> n" "flag_Set pf fl v c = Some c'"
  shows "field_of n (vars c') = field_of n (vars c)"
proof -
  have "list_all (\<lambda>(m, fl). m \<noteq> n \<longrightarrow> (\<forall>c'. flag_Set pf fl v c = Some c' \<longrightarrow> field_of n (vars c') = field_of n (vars c)))
      registerFlags"
    unfolding registerFlags_def list.pred_inject prod.case
    by (intro conjI; auto simp: on_vars_def field_of_def split del: if_split cong: if_cong)
  moreover from assms(1) have "(m, fl) \<in> set registerFlags" by (auto simp: flag_of_def dest: map_of_SomeD)
  ultimately show ?thesis using assms(2,3) by (auto simp: list_all_iff)
qed

lemma flag_Set_string:
  assumes "n \<in> set string_options" "flag_of n = Some fl" "flag_Set pf fl v c = Some c'"
  shows "field_of n (vars c') = Inl v"
proof -
  have "list_all (\<lambda>n. case flag_of n of None \<Rightarrow> False | Some fl \<Rightarrow>
      (\<forall>c'. flag_Set pf fl v c = Some c' \<longrightarrow> field_of n (vars c') = Inl v)) string_options"
    unfolding string_options_def list.pred_inject
    by (intro conjI; simp add: flag_of_def registerFlags_def on_vars_def field_of_def)
  with assms show ?thesis by (auto simp: list_all_iff dest!: bspec)
qed

lemma flag_Set_int:
  assumes "n \<in> set int_options" "flag_of n = Some fl" "flag_Set pf fl v c = Some c'"
  shows "\<exists>i. ParseInt v = Some i \<and> field_of n (vars c') = Inr (Inl i)"
proof -
  have "list_all (\<lambda>n. case flag_of n of None \<Rightarrow> False | Some fl \<Rightarrow>
      (\<forall>c'. flag_Set pf fl v c = Some c' \<longrightarrow> (\<exists>i. ParseInt v = Some i \<and> field_of n (vars c') = Inr (Inl i)))) int_options"
    unfolding int_options_def list.pred_inject
    by (intro conjI; auto simp: flag_of_def registerFlags_def on_vars_def field_of_def)
  with assms show ?thesis by (auto simp: list_all_iff dest!: bspec)
qed

lemma flag_Set_actual:
  assumes "flag_of m = Some fl" "flag_Set pf fl v c = Some c'" shows "actual c' = actual c"
proof -
  have "list_all (\<lambda>(m, fl). \<forall>c'. flag_Set pf fl v c = Some c' \<longrightarrow> actual c' = actual c) registerFlags"
    unfolding registerFlags_def list.pred_inject prod.case by (intro conjI; auto simp: on_vars_def)
  moreover from assms(1) have "(m, fl) \<in> set registerFlags" by (auto simp: flag_of_def dest: map_of_SomeD)
  ultimately show ?thesis using assms(2) by (auto simp: list_all_iff)
qed

text \<open>The value the last flag of a name gives.\<close>

definition last_value :: "bytes \<Rightarrow> setting_arg list \<Rightarrow> bytes option" where
  "last_value n as = map_option arg_value (List.find (\<lambda>a. arg_name a = n) (rev as))"

lemma find_append: "List.find P (xs @ ys) = (case List.find P xs of None \<Rightarrow> List.find P ys | Some x \<Rightarrow> Some x)"
  by (induction xs) auto

lemma last_value_Cons:
  "last_value n (a # as) =
     (case last_value n as of None \<Rightarrow> if arg_name a = n then Some (arg_value a) else None | Some v \<Rightarrow> Some v)"
  by (auto simp: last_value_def find_append split: option.split)

lemma set_argE:
  assumes "set_arg pf a c = Some c1"
  obtains fl c0 where "flag_of (arg_name a) = Some fl" "flag_Set pf fl (arg_value a) c = Some c0"
    "c1 = mark_set (arg_name a) c0"
  using assms by (auto simp: set_arg_def split: option.splits)

lemma set_args_actual:
  "set_args pf as c = Some c' \<Longrightarrow> set (actual c') = arg_name ` set as \<union> set (actual c)"
proof (induction as arbitrary: c)
  case Nil
  then show ?case by simp
next
  case (Cons a as)
  then obtain c1 where c1: "set_arg pf a c = Some c1" "set_args pf as c1 = Some c'" by (auto simp: bind_eq_Some_conv)
  from c1(1) show ?case
  proof (rule set_argE)
    fix fl c0
    assume f: "flag_of (arg_name a) = Some fl" "flag_Set pf fl (arg_value a) c = Some c0" "c1 = mark_set (arg_name a) c0"
    then have "set (actual c1) = insert (arg_name a) (set (actual c))"
      using flag_Set_actual [OF f(1,2)] by (simp add: mark_set_def)
    with Cons.IH [OF c1(2)] show ?thesis by auto
  qed
qed

text \<open>
  A field whose flag stores what \<open>read\<close> makes of the value holds, after all flags, what the
  last one says.
\<close>

lemma set_args_field:
  assumes "set_args pf as c = Some c'"
    and own: "\<And>fl v c c'. flag_of n = Some fl \<Longrightarrow> flag_Set pf fl v c = Some c' \<Longrightarrow> read v (field_of n (vars c'))"
  shows "case last_value n as of None \<Rightarrow> field_of n (vars c') = field_of n (vars c) | Some v \<Rightarrow> read v (field_of n (vars c'))"
  using assms(1)
proof (induction as arbitrary: c)
  case Nil
  then show ?case by (simp add: last_value_def)
next
  case (Cons a as)
  then obtain c1 where c1: "set_arg pf a c = Some c1" "set_args pf as c1 = Some c'" by (auto simp: bind_eq_Some_conv)
  from c1(1) show ?case
  proof (rule set_argE)
    fix fl c0
    assume f: "flag_of (arg_name a) = Some fl" "flag_Set pf fl (arg_value a) c = Some c0" "c1 = mark_set (arg_name a) c0"
    have "field_of n (vars c1) = field_of n (vars c)" if "arg_name a \<noteq> n"
      using flag_Set_other [OF f(1) that f(2)] f(3) by (simp add: mark_set_def)
    moreover have "read (arg_value a) (field_of n (vars c1))" if "arg_name a = n"
      using own [OF _ f(2)] f(1,3) that by (simp add: mark_set_def)
    ultimately show ?thesis
      using Cons.IH [OF c1(2)] by (auto simp: last_value_Cons split: option.splits)
  qed
qed

lemma set_args_string:
  "set_args pf as c = Some c' \<Longrightarrow> n \<in> set string_options \<Longrightarrow>
     field_of n (vars c') = (case last_value n as of None \<Rightarrow> field_of n (vars c) | Some v \<Rightarrow> Inl v)"
  using set_args_field [of pf as c c' n "\<lambda>v x. x = Inl v"] flag_Set_string [of n]
  by (auto split: option.splits)

lemma set_args_int:
  "set_args pf as c = Some c' \<Longrightarrow> n \<in> set int_options \<Longrightarrow>
     field_of n (vars c') =
       (case last_value n as of None \<Rightarrow> field_of n (vars c) | Some v \<Rightarrow> Inr (Inl (the (ParseInt v))))"
  using set_args_field [of pf as c c' n "\<lambda>v x. x = Inr (Inl (the (ParseInt v)))"] flag_Set_int [of n]
  by (fastforce split: option.splits)

lemma last_value_named: "last_value n as = None \<longleftrightarrow> n \<notin> arg_name ` set as"
  by (auto simp: last_value_def find_None_iff)

section \<open>From the command line to the settings\<close>

definition file_options :: "environment \<Rightarrow> bytes \<Rightarrow> options" where
  "file_options env conf =
     (if conf = [] then [] else case conf_read_python (os_ReadFile env conf) of None \<Rightarrow> [] | Some opts \<Rightarrow> opts)"

text \<open>The settings before the checks: flags, then the file for what no flag has set.\<close>

definition raw_settings :: "environment \<Rightarrow> cli \<Rightarrow> settings" where
  "raw_settings env c =
     applyConfigFile (ParseFloat env) (confFile c) (os_ReadFile env (confFile c)) (set (actual c)) (vars c)"

lemma raw_settings_merge:
  "raw_settings env c = conf_apply (ParseFloat env) (file_options env (confFile c)) (set (actual c)) (vars c) \<or>
   raw_settings env c = vars c \<and> file_options env (confFile c) = []"
  by (auto simp: raw_settings_def applyConfigFile_def file_options_def split: option.split)

lemma raw_settings_string:
  assumes "set_args (ParseFloat env) as (cli_defaults conf d) = Some c" "n \<in> set string_options"
  shows "field_of n (raw_settings env c) =
    (case last_value n as of
       Some v \<Rightarrow> Inl v
     | None \<Rightarrow> (case map_of (file_options env (confFile c)) n of Some v \<Rightarrow> Inl v | None \<Rightarrow> field_of n d))"
proof -
  let ?o = "file_options env (confFile c)"
  have a: "set (actual c) = arg_name ` set as" using set_args_actual [OF assms(1)] by (simp add: cli_defaults_def)
  have v: "field_of n (vars c) = (case last_value n as of None \<Rightarrow> field_of n d | Some v \<Rightarrow> Inl v)"
    using set_args_string [OF assms] by (simp add: cli_defaults_def split: option.split)
  have "field_of n (conf_apply (ParseFloat env) ?o (set (actual c)) (vars c)) =
      (case last_value n as of Some v \<Rightarrow> Inl v | None \<Rightarrow> (case map_of ?o n of Some v \<Rightarrow> Inl v | None \<Rightarrow> field_of n d))"
  proof (cases "last_value n as = None \<and> map_of ?o n \<noteq> None")
    case True
    then obtain w where w: "map_of ?o n = Some w" by auto
    from option_setters(1) [OF assms(2), of "ParseFloat env"] obtain f where
      f: "(n, f) \<in> set (option_table (ParseFloat env))" "\<And>v s. field_of n (f v s) = Inl v" by blast
    have "n \<notin> set (actual c)" using True by (simp add: a last_value_named [symmetric])
    from conf_apply_set [OF f(1) w this] True w f(2) show ?thesis by auto
  next
    case False
    then have "n \<in> set (actual c) \<or> map_of ?o n = None" by (auto simp: a last_value_named)
    from conf_apply_untouched [OF this] v False show ?thesis by (auto split: option.splits)
  qed
  with raw_settings_merge [of env c] v show ?thesis by (auto split: option.splits)
qed

lemma raw_settings_int:
  assumes "set_args (ParseFloat env) as (cli_defaults conf d) = Some c" "n \<in> set int_options"
    and "last_value n as = Some v" "ParseInt v = Some i"
  shows "field_of n (raw_settings env c) = Inr (Inl i)"
proof -
  have "n \<in> set (actual c)" using set_args_actual [OF assms(1)] assms(3) last_value_named [of n as] by auto
  then have "field_of n (raw_settings env c) = field_of n (vars c)"
    using raw_settings_merge [of env c] conf_apply_untouched [of n "set (actual c)"] by auto
  with set_args_int [OF assms(1,2)] assms(3,4) show ?thesis by simp
qed

text \<open>How a configured server comes about, for any arguments.\<close>

lemma ConfigureE:
  assumes "Configure env conf d args = Configured k"
  obtains s c where "config k = handleMotd (validateSettings s)"
    "buildTLSConfig (os_Stat env) d (config k) = Inr (certificate k)"
    "build_choice (os_crypto env) (config k) (certificate k) = Inr c"
    "servers k = map (\<lambda>addr. NewWithTLSConfig addr c) (build_addresses (config k))"
    "logs k = log_init env (cf_loglevel s) (cf_logfile s)"
  using assms by (auto simp: Configure_def Let_def split: parsed.splits sum.splits)

lemma addresses_built:
  "servers k = map (\<lambda>addr. NewWithTLSConfig addr c) (build_addresses s) \<Longrightarrow> addresses k = build_addresses s"
  by (simp add: addresses_def o_def NewWithTLSConfig_def New_def)

lemma Configure_render:
  assumes "list_all well_formed as" and "Configure env conf d (concat (map render as)) = Configured k"
  obtains c where "set_args (ParseFloat env) as (cli_defaults conf d) = Some c"
    "config k = handleMotd (validateSettings (raw_settings env c))"
    "buildTLSConfig (os_Stat env) d (config k) = Inr (certificate k)"
    "\<exists>c. build_choice (os_crypto env) (config k) (certificate k) = Inr c \<and>
      servers k = map (\<lambda>addr. NewWithTLSConfig addr c) (build_addresses (config k))"
    "logs k = log_init env (cf_loglevel (raw_settings env c)) (cf_logfile (raw_settings env c))"
proof -
  from assms obtain c where c: "set_args (ParseFloat env) as (cli_defaults conf d) = Some c"
    by (auto simp: Configure_def Parse_render [where rest = "[]", simplified] split: option.splits)
  moreover have "Parse (ParseFloat env) (concat (map render as)) (cli_defaults conf d) = Parsed c []"
    using Parse_render [OF assms(1), of "ParseFloat env" "[]"] c by simp
  with assms(2) have "config k = handleMotd (validateSettings (raw_settings env c))"
    "buildTLSConfig (os_Stat env) d (config k) = Inr (certificate k)"
    "\<exists>c. build_choice (os_crypto env) (config k) (certificate k) = Inr c \<and>
      servers k = map (\<lambda>addr. NewWithTLSConfig addr c) (build_addresses (config k))"
    "logs k = log_init env (cf_loglevel (raw_settings env c)) (cf_logfile (raw_settings env c))"
    by (auto simp: Configure_def raw_settings_def Let_def split: sum.splits if_splits)
  ultimately show thesis by (rule that)
qed

section \<open>Where the daemon commands and the server look for the PID file\<close>

text \<open>What \<open>findPidFile\<close> takes for the flag, and arguments whose values it does not mistake.\<close>

definition names_pidfile :: "setting_arg \<Rightarrow> bool" where
  "names_pidfile a \<longleftrightarrow>
     (case a of
        Joined two n v \<Rightarrow> \<not> two \<and> n = ''pidfile''
      | Spaced two n v \<Rightarrow> \<not> two \<and> n = ''pidfile''
      | Bare two n \<Rightarrow> False)"

fun unmistakable :: "setting_arg \<Rightarrow> bool" where
  "unmistakable (Spaced two n v) = (v \<noteq> ''-pidfile'' \<and> \<not> HasPrefix v ''-pidfile='')"
| "unmistakable a = True"

lemma not_pidfile_prefix:
  assumes "flag_of n = Some fl" "two \<or> n \<noteq> ''pidfile''"
  shows "\<not> HasPrefix (dashes two @ n @ CHR ''='' # v) ''-pidfile=''" "\<not> HasPrefix (dashes two @ n) ''-pidfile=''"
    "dashes two @ n \<noteq> ''-pidfile''" "dashes two @ n @ CHR ''='' # v \<noteq> ''-pidfile''"
proof -
  have "list_all (\<lambda>(n, fl). two \<or> n \<noteq> ''pidfile'' \<longrightarrow>
      \<not> HasPrefix (dashes two @ n @ CHR ''='' # v) ''-pidfile='' \<and> \<not> HasPrefix (dashes two @ n) ''-pidfile='' \<and>
      dashes two @ n \<noteq> ''-pidfile'' \<and> dashes two @ n @ CHR ''='' # v \<noteq> ''-pidfile'') registerFlags"
    by (cases two) (simp_all add: registerFlags_def HasPrefix_def dashes_def)
  moreover have "(n, fl) \<in> set registerFlags" using assms(1) by (auto simp: flag_of_def dest: map_of_SomeD)
  ultimately show "\<not> HasPrefix (dashes two @ n @ CHR ''='' # v) ''-pidfile=''" "\<not> HasPrefix (dashes two @ n) ''-pidfile=''"
    "dashes two @ n \<noteq> ''-pidfile''" "dashes two @ n @ CHR ''='' # v \<noteq> ''-pidfile''"
    using assms(2) by (auto simp: list_all_iff)
qed

lemma pidfile_no_bool: "flag_of ''pidfile'' = Some fl \<Longrightarrow> \<not> IsBoolFlag fl"
  by (auto simp: flag_of_def registerFlags_def)

lemma findPidFile_render_one:
  assumes "well_formed a" "unmistakable a"
  shows "findPidFile dflt (render a @ args) = (if names_pidfile a then arg_value a else findPidFile dflt args)"
    and "child_args (render a @ args) =
      (render a @ fst (child_args args), names_pidfile a \<or> snd (child_args args))"
proof -
  have "findPidFile dflt (render a @ args) = (if names_pidfile a then arg_value a else findPidFile dflt args) \<and>
    child_args (render a @ args) = (render a @ fst (child_args args), names_pidfile a \<or> snd (child_args args))"
  proof (cases a)
    case (Joined two n v)
    with assms(1) obtain fl where "flag_of n = Some fl" by auto
    from not_pidfile_prefix(1,4) [OF this, where two = two and v = v] Joined show ?thesis
      by (cases "\<not> two \<and> n = ''pidfile''")
        (auto simp: names_pidfile_def dashes_def HasPrefix_def split: prod.split)
  next
    case (Spaced two n v)
    with assms(1) obtain fl where "flag_of n = Some fl" by (auto split: option.splits)
    from not_pidfile_prefix(2,3) [OF this, where two = two] Spaced assms(2) show ?thesis
      by (cases "\<not> two \<and> n = ''pidfile''")
        (auto simp: names_pidfile_def dashes_def split: prod.split)
  next
    case (Bare two n)
    with assms(1) obtain fl where fl: "flag_of n = Some fl" "IsBoolFlag fl" by (auto split: option.splits)
    then have "n \<noteq> ''pidfile''" using pidfile_no_bool by blast
    with not_pidfile_prefix(2,3) [OF fl(1), where two = two] Bare show ?thesis
      by (auto simp: names_pidfile_def split: prod.split)
  qed
  then show "findPidFile dflt (render a @ args) = (if names_pidfile a then arg_value a else findPidFile dflt args)"
    "child_args (render a @ args) = (render a @ fst (child_args args), names_pidfile a \<or> snd (child_args args))"
    by simp_all
qed

lemma findPidFile_render:
  assumes "list_all well_formed as" "list_all unmistakable as"
  shows "findPidFile dflt (concat (map render as)) =
      (case List.find names_pidfile as of None \<Rightarrow> dflt | Some a \<Rightarrow> arg_value a)"
    and "snd (child_args (concat (map render as))) \<longleftrightarrow> (\<exists>a \<in> set as. names_pidfile a)"
  using assms by (induction as) (simp_all add: findPidFile_render_one)

text \<open>The arguments the child gets, as flags again.\<close>

definition child_flags :: "bytes \<Rightarrow> setting_arg list \<Rightarrow> setting_arg list" where
  "child_flags dflt as =
     (if \<exists>a \<in> set as. names_pidfile a then as else as @ [Spaced False ''pidfile'' dflt])"

lemma daemonStart_render:
  assumes "list_all well_formed as" "list_all unmistakable as"
    and "StartChild args \<in> set (daemonStart ok (concat (map render as)) (findPidFile dflt (concat (map render as))))"
  shows "args = concat (map render (child_flags dflt as))"
proof -
  let ?r = "concat (map render as)"
  have "child_args ?r = (?r, \<exists>a \<in> set as. names_pidfile a)"
    using child_args_fst [of ?r] findPidFile_render(2) [OF assms(1,2)] by (intro prod_eqI) simp_all
  moreover have "findPidFile dflt ?r = dflt" if "\<not> (\<exists>a \<in> set as. names_pidfile a)"
  proof -
    have "List.find names_pidfile as = None" using that by (simp add: find_None_iff)
    with findPidFile_render(1) [OF assms(1,2)] show ?thesis by simp
  qed
  ultimately show ?thesis
    using assms(3) by (auto simp: daemonStart_def child_flags_def dashes_def split: if_splits)
qed

lemma pidfile_name: "names_pidfile a \<Longrightarrow> arg_name a = ''pidfile''"
  by (cases a) (auto simp: names_pidfile_def)

text \<open>No PID file flag follows the first one with a single dash.\<close>

fun pidfile_last :: "setting_arg list \<Rightarrow> bool" where
  "pidfile_last [] = True"
| "pidfile_last (a # as) = (if names_pidfile a then ''pidfile'' \<notin> arg_name ` set as else pidfile_last as)"

lemma last_value_find:
  "pidfile_last as \<Longrightarrow> List.find names_pidfile as = Some a \<Longrightarrow> last_value ''pidfile'' as = Some (arg_value a)"
proof (induction as)
  case (Cons b as)
  show ?case
  proof (cases "names_pidfile b")
    case True
    with Cons.prems have "last_value ''pidfile'' as = None" "a = b" by (simp_all add: last_value_named)
    with pidfile_name [OF True] show ?thesis by (simp add: last_value_Cons)
  next
    case False
    with Cons show ?thesis by (simp add: last_value_Cons)
  qed
qed simp

lemma child_last_value:
  assumes "pidfile_last as"
  shows "last_value ''pidfile'' (child_flags dflt as) =
    Some (case List.find names_pidfile as of None \<Rightarrow> dflt | Some a \<Rightarrow> arg_value a)"
proof (cases "List.find names_pidfile as")
  case None
  then have "\<not> (\<exists>a \<in> set as. names_pidfile a)" by (simp add: find_None_iff)
  with None show ?thesis by (simp add: child_flags_def last_value_def)
next
  case (Some a)
  then have "\<exists>a \<in> set as. names_pidfile a" by (auto simp: find_Some_iff)
  with last_value_find [OF assms Some] Some show ?thesis by (simp add: child_flags_def)
qed

lemma validateSettings_pidfile: "cf_pidfile (validateSettings s) = cf_pidfile s"
  by (simp add: validateSettings_def Let_def)

lemma handleMotd_pidfile: "cf_pidfile (handleMotd s) = cf_pidfile s"
  by (simp add: handleMotd_eq)

lemma field_of_pidfile: "field_of ''pidfile'' s = Inl (cf_pidfile s)"
  by (simp add: field_of_def)

lemma set_args_confFile:
  "set_args pf as c = Some c' \<Longrightarrow>
     confFile c' = (case last_value ''configfile'' as of None \<Rightarrow> confFile c | Some v \<Rightarrow> v)"
proof (induction as arbitrary: c)
  case Nil
  then show ?case by (simp add: last_value_def)
next
  case (Cons a as)
  then obtain c1 where c1: "set_arg pf a c = Some c1" "set_args pf as c1 = Some c'" by (auto simp: bind_eq_Some_conv)
  from c1(1) show ?case
  proof (rule set_argE)
    fix fl c0
    assume f: "flag_of (arg_name a) = Some fl" "flag_Set pf fl (arg_value a) c = Some c0" "c1 = mark_set (arg_name a) c0"
    have "list_all (\<lambda>(m, fl). \<forall>c0. flag_Set pf fl v c = Some c0 \<longrightarrow>
        confFile c0 = (if m = ''configfile'' then v else confFile c)) registerFlags" for v
      unfolding registerFlags_def list.pred_inject prod.case by (intro conjI; auto simp: on_vars_def)
    moreover from f(1) have "(arg_name a, fl) \<in> set registerFlags" by (auto simp: flag_of_def dest: map_of_SomeD)
    ultimately have "confFile c1 = (if arg_name a = ''configfile'' then arg_value a else confFile c)"
      using f(2,3) by (fastforce simp: list_all_iff mark_set_def)
    with Cons.IH [OF c1(2)] show ?thesis by (simp add: last_value_Cons split: option.split)
  qed
qed

text \<open>The checks leave the strings alone, but for the message of the day at the protocol level.\<close>

lemma checked_string:
  assumes "n \<in> set string_options" "n \<noteq> ''motd''"
  shows "field_of n (handleMotd (validateSettings s)) = field_of n s"
proof -
  have "list_all (\<lambda>n. n \<noteq> ''motd'' \<longrightarrow> field_of n (handleMotd t) = field_of n t \<and> field_of n (validateSettings s) = field_of n s)
      string_options" for t
    by (simp add: string_options_def field_of_def handleMotd_eq) (simp add: validateSettings_def Let_def)
  with assms show ?thesis by (simp add: list_all_iff)
qed

lemma checked_loglevel:
  "cf_loglevel (handleMotd (validateSettings s)) =
     (if cf_loglevel s < LogSilent then LogSilent else if LogProtocol < cf_loglevel s then LogProtocol else cf_loglevel s)"
proof -
  have "cf_loglevel (handleMotd t) = cf_loglevel t" for t by (simp add: handleMotd_eq)
  then show ?thesis by (simp add: validateSettings_def Let_def level_defs)
qed

text \<open>So the threshold, which is set before the checks, is that of the checked level.\<close>

lemma threshold_checked: "toSlogLevel (cf_loglevel (handleMotd (validateSettings s))) = toSlogLevel (cf_loglevel s)"
  unfolding checked_loglevel using toSlogLevel_table(1,6,7) by (simp add: LogSilent_def LogProtocol_def)

section \<open>Addresses\<close>

text \<open>\<open>strings.LastIndex\<close> of a byte; \<open>None\<close> stands for -1.\<close>

fun last_index :: "char \<Rightarrow> bytes \<Rightarrow> nat option" where
  "last_index c [] = None"
| "last_index c (x # s) =
     (case last_index c s of Some i \<Rightarrow> Some (Suc i) | None \<Rightarrow> if x = c then Some 0 else None)"

text \<open>\<open>net.SplitHostPort\<close>; \<open>None\<close> is an error.\<close>

definition SplitHostPort :: "bytes \<Rightarrow> (bytes \<times> bytes) option" where
  "SplitHostPort s =
     (case last_index CHR '':'' s of
        None \<Rightarrow> None
      | Some i \<Rightarrow>
          if hd s = CHR ''['' then
            (if CHR '']'' \<notin> set s then None
             else let e = length (takeWhile (\<lambda>c. c \<noteq> CHR '']'') s)
               in if e + 1 \<noteq> i then None
                  else if CHR ''['' \<in> set (drop 1 s) \<or> CHR '']'' \<in> set (drop (e + 1) s) then None
                  else Some (take (e - 1) (drop 1 s), drop (i + 1) s))
          else if CHR '':'' \<in> set (take i s) then None
          else if CHR ''['' \<in> set s \<or> CHR '']'' \<in> set s then None
          else Some (take i s, drop (i + 1) s))"

definition Trim_brackets :: "bytes \<Rightarrow> bytes" where
  "Trim_brackets s =
     (let br = (\<lambda>c. c = CHR ''['' \<or> c = CHR '']'') in rev (dropWhile br (rev (dropWhile br s))))"

text \<open>The address of a peer, of which \<open>getIP\<close> keeps the host.\<close>

definition getIP :: "bytes \<Rightarrow> bytes" where
  "getIP remote = (case SplitHostPort remote of None \<Rightarrow> [] | Some (ip, port) \<Rightarrow> Trim_brackets ip)"

definition plain_host :: "bytes \<Rightarrow> bool" where
  "plain_host h \<longleftrightarrow> CHR ''['' \<notin> set h \<and> CHR '']'' \<notin> set h"

definition plain_port :: "bytes \<Rightarrow> bool" where
  "plain_port p \<longleftrightarrow> plain_host p \<and> CHR '':'' \<notin> set p"

lemma last_index_absent: "c \<notin> set s \<Longrightarrow> last_index c s = None"
  by (induction s) auto

lemma last_index_last: "c \<notin> set t \<Longrightarrow> last_index c (s @ c # t) = Some (length s)"
  by (induction s) (auto simp: last_index_absent)

lemma SplitHostPort_Join:
  assumes "plain_host h" "plain_port p"
  shows "SplitHostPort (JoinHostPort h p) = Some (h, p)"
proof (cases "CHR '':'' \<in> set h")
  case True
  let ?s = "CHR ''['' # h @ CHR '']'' # CHR '':'' # p"
  have j: "JoinHostPort h p = ?s" using True by (auto simp: JoinHostPort_def list_ex_iff)
  have l: "last_index CHR '':'' ?s = Some (length h + 2)"
    using last_index_last [of "CHR '':''" p "CHR ''['' # h @ [CHR '']'']"] assms(2) by (simp add: plain_port_def)
  have "\<forall>c \<in> set h. c \<noteq> CHR '']''" using assms(1) by (auto simp: plain_host_def)
  then have e: "length (takeWhile (\<lambda>c. c \<noteq> CHR '']'') ?s) = length h + 1" by simp
  show ?thesis
    using assms unfolding j SplitHostPort_def l Let_def e by (simp add: plain_host_def plain_port_def)
next
  case False
  have j: "JoinHostPort h p = h @ CHR '':'' # p" using False by (auto simp: JoinHostPort_def list_ex_iff)
  have l: "last_index CHR '':'' (h @ CHR '':'' # p) = Some (length h)"
    using last_index_last assms(2) by (simp add: plain_port_def)
  have "hd (h @ CHR '':'' # p) \<noteq> CHR ''[''" using assms(1) by (cases h) (auto simp: plain_host_def)
  then show ?thesis using assms False unfolding j SplitHostPort_def l by (simp add: plain_host_def plain_port_def)
qed

lemma plain_port_Itoa: "plain_port (Itoa i)"
proof -
  have "c \<noteq> CHR ''['' \<and> c \<noteq> CHR '']'' \<and> c \<noteq> CHR '':''" if "c \<in> set (nat_digits n)" for c n
    using nat_digits_all [of n] that by (auto simp: list_all_iff is_digit_def)
  then show ?thesis by (fastforce simp: plain_port_def plain_host_def Itoa_def)
qed

lemma getIP_Join:
  assumes "plain_host h" "plain_port p" shows "getIP (JoinHostPort h p) = h"
proof -
  have "dropWhile (\<lambda>c. c = CHR ''['' \<or> c = CHR '']'') t = t" if "set t = set h" for t
    using assms(1) that by (cases t) (auto simp: plain_host_def)
  then have "Trim_brackets h = h" by (simp add: Trim_brackets_def Let_def)
  then show ?thesis using SplitHostPort_Join [OF assms] by (simp add: getIP_def)
qed

section \<open>What the actions do to the files\<close>

text \<open>\<open>pid\<close> is the number of the process a daemon command starts.\<close>

fun perform_action :: "int \<Rightarrow> action \<Rightarrow> (bytes \<Rightarrow> bytes option) \<Rightarrow> (bytes \<Rightarrow> bytes option)" where
  "perform_action pid (WritePid path) fs = fs(path \<mapsto> Itoa pid)"
| "perform_action pid (WriteFile path data) fs = fs(path \<mapsto> data)"
| "perform_action pid (RemoveFile path) fs = fs(path := None)"
| "perform_action pid _ fs = fs"

definition run_actions :: "int \<Rightarrow> action list \<Rightarrow> (bytes \<Rightarrow> bytes option) \<Rightarrow> (bytes \<Rightarrow> bytes option)" where
  "run_actions pid as fs = fold (perform_action pid) as fs"

lemma run_actions_append: "run_actions pid (xs @ ys) fs = run_actions pid ys (run_actions pid xs fs)"
  by (simp add: run_actions_def)

lemma run_actions_Cons: "run_actions pid (x # xs) fs = run_actions pid xs (perform_action pid x fs)"
  by (simp add: run_actions_def)

lemma TrimSpace_Itoa:
  assumes "0 < i" shows "TrimSpace (Itoa i) = Itoa i"
proof -
  have d: "33 \<le> ord c \<and> ord c \<le> 126" if "c \<in> set (nat_digits n)" for c n
    using nat_digits_all [of n] that by (auto simp: list_all_iff is_digit_def)
  have I: "Itoa i = nat_digits (nat i)" using assms by (simp add: Itoa_def)
  obtain c s where cs: "nat_digits (nat i) = c # s" using nat_digits_ne by (cases "nat_digits (nat i)") auto
  have "TrimLeftSpace (nat_digits (nat i)) = nat_digits (nat i)"
    unfolding cs using d [of c "nat i"] by (intro TrimLeftSpace_solid) (simp_all add: cs)
  moreover have "TrimRightSpace (nat_digits (nat i)) = nat_digits (nat i)"
    using d [of "last (nat_digits (nat i))" "nat i"] by (intro TrimRightSpace_solid) simp_all
  ultimately show ?thesis by (simp add: TrimSpace_def I)
qed

lemma readPid_Itoa: "0 < pid \<Longrightarrow> pid < 2 ^ 63 \<Longrightarrow> readPid (Some (Itoa pid)) = Some pid"
  using Atoi_Itoa [of pid] by (simp add: readPid_def TrimSpace_Itoa)

lemma daemonStatus_Itoa: "0 < pid \<Longrightarrow> pid < 2 ^ 63 \<Longrightarrow> daemonStatus (Some (Itoa pid)) alive = (pid, alive)"
  by (simp add: daemonStatus_def readPid_Itoa pidAlive_def)

lemma daemonStart_file: "run_actions pid (daemonStart True rest p) fs = fs(p \<mapsto> Itoa pid)"
  by (simp add: daemonStart_def run_actions_def split: prod.split)

end
