(* ===== verification/Operations_Properties.thy ===== *)
theory Operations_Properties
  imports Startup Scenarios
begin

text \<open>
  The properties of what surrounds the relay: channel keys, the configuration file and its
  merge with the command line, the checks on the settings, the log levels and the daemon
  commands.
\<close>

section \<open>Channel keys\<close>

text \<open>
  C32 A key that the generator returns has nine decimal digits, and when it was checked no
  channel had it as its name or its password, whatever other connections did meanwhile.
\<close>

theorem generated_key_free:
  assumes "gen_key g ws pos = Some (Inr key)"
  shows "length key = 9 \<and> list_all is_digit key \<and>
    (\<exists>p \<ge> pos. \<forall>(n, r) \<in> set (channels (ws p)). n \<noteq> key \<and>
       (\<forall>c. ch (ws p) r = Some c \<longrightarrow> ch_password c \<noteq> key))"
proof -
  from gen_key_result [OF assms] obtain p where p: "p \<ge> pos" "randomDigits g p 9 = Inr key"
    "\<not> channelKeyTaken key (ws p)" by blast
  then obtain buf where "key = digits_of_word 9 (big_endian buf)"
    by (auto simp: randomDigits_nine split: option.splits)
  then have "length key = 9" "list_all is_digit key" using digits_of_word_shape by simp_all
  with p show ?thesis by (fastforce simp: channelKeyTaken_def list_ex_iff)
qed

lemma sample_key:
  "\<exists>key. gen_key sample_rng (\<lambda>_. empty_world [] False) 0 = Some (Inr key)"
proof -
  have "\<not> channelKeyTaken key (empty_world [] False)" for key
    by (simp add: channelKeyTaken_def empty_world_def)
  moreover have "\<exists>key. randomDigits sample_rng 0 9 = Inr key" by (simp add: randomDigits_nine sample_rng_def)
  ultimately show ?thesis by (subst gen_key.simps) auto
qed

lemma generated_key_free_witness:
  "\<exists>key. gen_key sample_rng (\<lambda>_. empty_world [] False) 0 = Some (Inr key) \<and> length key = 9"
  using sample_key generated_key_free by blast

text \<open>
  C33 The unbounded loop of the generator ends: while the channels stay as they are, one more
  distinct draws than twice the number of channels are enough, the answer being one of them.
\<close>

theorem key_generation_terminates:
  assumes "inj_on (\<lambda>i. randomDigits g (pos + i) 9) {..2 * length (channels w)}"
  shows "\<exists>n \<le> 2 * length (channels w). gen_key g (\<lambda>_. w) pos = Some (randomDigits g (pos + n) 9)"
  using assms by (rule gen_key_pigeonhole)

lemma key_generation_terminates_witness:
  "\<exists>y. gen_key sample_rng (\<lambda>_. empty_world [] False) 0 = Some y"
proof -
  have "inj_on (\<lambda>i. randomDigits sample_rng (0 + i) 9) {..2 * length (channels (empty_world [] False))}"
    by (simp add: empty_world_def)
  from key_generation_terminates [OF this] show ?thesis by blast
qed

text \<open>
  Keys are nearly uniform: of the \<open>2 ^ 64\<close> values of a draw each nine-digit key comes from
  18446744073 or, the ones up to 709551615, from one more.
\<close>

theorem keys_nearly_uniform:
  assumes "length key = 9" "list_all is_digit key"
  shows "card {v. digits_of_word 9 v = key} = (if digits_val key < 709551616 then 18446744074 else 18446744073)"
  using card_digits_of_word [of 9, OF _ assms] by simp

lemma keys_nearly_uniform_witness: "card {v. digits_of_word 9 v = ''000000000''} = 18446744074"
proof -
  have "length ''000000000'' = 9" "list_all is_digit ''000000000''" "digits_val ''000000000'' < 709551616"
    by (simp_all add: is_digit_def digits_val_def)
  with keys_nearly_uniform [of "''000000000''"] show ?thesis by simp
qed

section \<open>Configuration\<close>

lemma map_of_fold_update:
  "map_of (fold (\<lambda>(k, v). AList.update k v) opts acc) = map_of acc ++ map_of (rev opts)"
proof (induction opts arbitrary: acc)
  case Nil
  then show ?case by simp
next
  case (Cons kv opts)
  obtain k v where "kv = (k, v)" by (cases kv)
  with Cons show ?case by (auto simp: update_conv' map_add_def fun_eq_iff split: option.split)
qed

text \<open>
  C34 Reading a written configuration file gives back its options: names without white space,
  any value without line breaks (equals signs and spaces included), the last line of a name
  counting.
\<close>

theorem config_file_roundtrip:
  assumes "list_all (\<lambda>(k, v). plain_name k \<and> plain_value v) opts"
  shows "\<exists>m. conf_read_python (Some (print_conf opts)) = Some m \<and> map_of m = map_of (rev opts)"
  using conf_read_print [OF assms] by (simp add: map_of_fold_update)

lemma config_file_roundtrip_witness:
  "\<exists>m. conf_read_python (Some (print_conf [(''motd'', '' a=b ''), (''port'', ''1'')])) = Some m \<and>
     map_of m ''motd'' = Some '' a=b ''"
proof -
  have "list_all (\<lambda>(k, v). plain_name k \<and> plain_value v) [(''motd'', '' a=b ''), (''port'', ''1'')]"
    by (simp add: plain_name_def plain_value_def)
  from config_file_roundtrip [OF this] show ?thesis by auto
qed

text \<open>
  The command line wins over the configuration file and the file over the defaults: a setting
  given on the command line or not in the file keeps its value; a string of the file is taken as
  it is, a number if it parses, and else the old value stays.
\<close>

theorem settings_priority:
  "(n \<in> cliSet \<or> map_of opts n = None \<longrightarrow> field_of n (conf_apply pf opts cliSet s) = field_of n s) \<and>
   (map_of opts n = Some v \<and> n \<notin> cliSet \<and> n \<in> set string_options \<longrightarrow>
      field_of n (conf_apply pf opts cliSet s) = Inl v) \<and>
   (map_of opts n = Some v \<and> n \<notin> cliSet \<and> n \<in> set int_options \<longrightarrow>
      field_of n (conf_apply pf opts cliSet s) =
        (case Atoi v of None \<Rightarrow> field_of n s | Some i \<Rightarrow> Inr (Inl i)))"
proof (intro conjI impI)
  show "n \<in> cliSet \<or> map_of opts n = None \<Longrightarrow> field_of n (conf_apply pf opts cliSet s) = field_of n s"
    by (rule conf_apply_untouched)
  assume a: "map_of opts n = Some v \<and> n \<notin> cliSet \<and> n \<in> set string_options"
  then obtain f where f: "(n, f) \<in> set (option_table pf)" "\<And>v s. field_of n (f v s) = Inl v"
    using option_setters(1) [of n pf] by blast
  from conf_apply_set [OF f(1), of opts v cliSet s] a f(2) show
    "field_of n (conf_apply pf opts cliSet s) = Inl v" by auto
next
  assume a: "map_of opts n = Some v \<and> n \<notin> cliSet \<and> n \<in> set int_options"
  then obtain f where f: "(n, f) \<in> set (option_table pf)"
    "\<And>v s. field_of n (f v s) = (case Atoi v of None \<Rightarrow> field_of n s | Some i \<Rightarrow> Inr (Inl i))"
    using option_setters(2) [of n pf] by blast
  from conf_apply_set [OF f(1), of opts v cliSet s] a f(2) show "field_of n (conf_apply pf opts cliSet s) =
      (case Atoi v of None \<Rightarrow> field_of n s | Some i \<Rightarrow> Inr (Inl i))" by (auto split: option.split)
qed

lemma settings_priority_witness:
  "cf_motd (conf_apply (\<lambda>_. None) [(''motd'', ''hi''), (''port'', ''x'')] {''loglevel''} linux_defaults) = ''hi'' \<and>
   cf_port (conf_apply (\<lambda>_. None) [(''motd'', ''hi''), (''port'', ''x'')] {''loglevel''} linux_defaults) = 6837"
proof -
  have "Atoi ''x'' = None" by code_simp
  then show ?thesis
    using settings_priority [of "''motd''" "{''loglevel''}" "[(''motd'', ''hi''), (''port'', ''x'')]" "\<lambda>_. None" linux_defaults "''hi''"]
      settings_priority [of "''port''" "{''loglevel''}" "[(''motd'', ''hi''), (''port'', ''x'')]" "\<lambda>_. None" linux_defaults "''x''"]
    by (simp add: string_options_def int_options_def field_of_def linux_defaults_def defaults_def)
qed

text \<open>
  After the checks both ports are between 1 and 65535, the ping interval is at least 30
  seconds, the log level one of the six and the time limit not below one second; a second check
  changes nothing, and valid settings are left alone.
\<close>

theorem settings_validated:
  "let v = validateSettings s in
     1 \<le> cf_port v \<and> cf_port v \<le> 65535 \<and> 1 \<le> cf_port6 v \<and> cf_port6 v \<le> 65535 \<and> 30 \<le> cf_pingTime v \<and>
     LogSilent \<le> cf_loglevel v \<and> cf_loglevel v \<le> LogProtocol \<and> \<not> cf_timeoutSecs v < Fin 1 \<and>
     validateSettings v = v \<and>
     (\<not> cf_timeoutSecs s < Fin 1 \<and> 30 \<le> cf_pingTime s \<and> 1 \<le> cf_port s \<and> cf_port s \<le> 65535 \<and>
      1 \<le> cf_port6 s \<and> cf_port6 s \<le> 65535 \<and> LogSilent \<le> cf_loglevel s \<and> cf_loglevel s \<le> LogProtocol \<longrightarrow> v = s)"
  using validateSettings_ranges [of s] validateSettings_idem [of s] validateSettings_fixed [of s]
  by (simp add: Let_def)

lemma settings_validated_witness: "validateSettings linux_defaults = linux_defaults"
  using settings_validated [of linux_defaults]
  by (simp add: Let_def linux_defaults_def defaults_def level_defs)

section \<open>Logging\<close>

text \<open>
  C40 What the log shows at each level: the two thresholds together suppress what the setting is
  documented to show (at the default level the information and connection messages) and show the
  more verbose messages, raw protocol data included, while errors are shown exactly at the
  levels 0 to 3.
\<close>

theorem log_levels_inverted:
  assumes "LogSilent \<le> l" "l \<le> LogProtocol" and "LogInfo \<le> level" "level \<le> LogProtocol"
  shows "(Log_emits l level \<longleftrightarrow>
      (l = 0 \<and> level = 0) \<or> (l = 1 \<and> level \<in> {1, 2}) \<or> (l = 2 \<and> level \<in> {2, 3, 4}) \<or>
      (l = 3 \<and> level \<in> {3, 4}) \<or> (l \<in> {-1, 4} \<and> level = 4)) \<and>
    (LogError_emits l \<longleftrightarrow> 0 \<le> l \<and> l \<le> 3)"
proof
  have a: "-1 \<le> l" "l \<le> 4" "0 \<le> level" "level \<le> 4" using assms by (simp_all add: level_defs)
  show "Log_emits l level \<longleftrightarrow>
      (l = 0 \<and> level = 0) \<or> (l = 1 \<and> level \<in> {1, 2}) \<or> (l = 2 \<and> level \<in> {2, 3, 4}) \<or>
      (l = 3 \<and> level \<in> {3, 4}) \<or> (l \<in> {-1, 4} \<and> level = 4)"
    by (rule Log_emits_table [OF a])
  show "LogError_emits l \<longleftrightarrow> 0 \<le> l \<and> l \<le> 3"
    by (rule level_cases [OF a(1,2)])
      (simp_all add: LogError_emits_def log_threshold_def handler_enabled_def toSlogLevel_table LevelError_def)
qed

lemma log_levels_inverted_witness:
  "\<not> Log_emits defaultLogLevel LogConnection \<and> Log_emits defaultLogLevel LogProtocol \<and> \<not> LogError_emits LogSilent"
  using log_levels_inverted [of defaultLogLevel LogConnection] log_levels_inverted [of defaultLogLevel LogProtocol]
    log_levels_inverted [of LogSilent LogInfo]
  by (simp add: level_defs)

section \<open>The daemon commands\<close>

text \<open>
  The daemon commands: only the process whose number the PID file holds and that answers is
  ever signalled; a child is started with arguments that lead it to the PID file the parent
  looks in; \<open>start\<close> starts nothing while a server runs; and waiting gives up exactly if the
  process still lives at all fifty polls.
\<close>

theorem daemon_commands_safe:
  "(Kill pid sig \<in> set (daemonCmd dflt content alive0 alive ok cmd rest) \<longrightarrow>
      0 < pid \<and> alive0 \<and> readPid content = Some pid) \<and>
   (StartChild args \<in> set (daemonStart ok rest (findPidFile dflt rest)) \<longrightarrow>
      findPidFile dflt args = findPidFile dflt rest) \<and>
   (snd (daemonStatus content alive0) \<longrightarrow> daemonCmd dflt content alive0 alive ok Start rest = [Exit 1]) \<and>
   (waitForProcess alive p \<longleftrightarrow> (\<exists>i < 50. p \<le> 0 \<or> \<not> alive i))"
proof (intro conjI impI)
  show "Kill pid sig \<in> set (daemonCmd dflt content alive0 alive ok cmd rest) \<Longrightarrow>
      0 < pid" "Kill pid sig \<in> set (daemonCmd dflt content alive0 alive ok cmd rest) \<Longrightarrow> alive0"
    "Kill pid sig \<in> set (daemonCmd dflt content alive0 alive ok cmd rest) \<Longrightarrow> readPid content = Some pid"
    using daemonCmd_kills by blast+
  show "StartChild args \<in> set (daemonStart ok rest (findPidFile dflt rest)) \<Longrightarrow>
      findPidFile dflt args = findPidFile dflt rest"
    by (rule daemonStart_pidfile)
  show "snd (daemonStatus content alive0) \<Longrightarrow> daemonCmd dflt content alive0 alive ok Start rest = [Exit 1]"
    by (simp add: daemonCmd_def case_prod_unfold Let_def)
  show "waitForProcess alive p \<longleftrightarrow> (\<exists>i < 50. p \<le> 0 \<or> \<not> alive i)"
    by (auto simp: waitForProcess_def poll_loop_iff maxAttempts_def pidAlive_def)
qed

lemma daemon_commands_safe_witness:
  "Kill 42 SIGTERM \<in> set (daemonCmd ''/run/x.pid'' (Some ''42'') True (\<lambda>i. i < 3) True Stop []) \<and>
   readPid (Some ''42'') = Some 42"
proof -
  have "TrimSpace ''42'' = ''42''"
    unfolding TrimSpace_def by (simp add: TrimLeftSpace_solid TrimRightSpace_solid)
  moreover have "Atoi ''42'' = Some 42" by code_simp
  ultimately have "daemonStatus (Some ''42'') True = (42, True)"
    by (simp add: daemonStatus_def readPid_def pidAlive_def)
  then have "Kill 42 SIGTERM \<in> set (daemonCmd ''/run/x.pid'' (Some ''42'') True (\<lambda>i. i < 3) True Stop [])"
    by (simp add: daemonCmd_def)
  with daemon_commands_safe [of 42 SIGTERM "''/run/x.pid''" "Some ''42''" True "\<lambda>i. i < 3" True Stop "[]"] show ?thesis
    by blast
qed

end
