(* ===== verification/Lifecycle.thy ===== *)
theory Lifecycle
  imports Rooms
begin

text \<open>
  The life of a server, after \<open>server/connection.go\<close> and \<open>nvdaRemoteServer.go\<close>: it
  listens, accepts, is stopped through its context, closes its listener; and the wait group by
  which \<open>main\<close> waits for the goroutine that closes the listener and for the reader of every
  connection. The steps of the connections are those of the system.
\<close>

section \<open>Servers\<close>

datatype phase = Unstarted | Listening | Closed

text \<open>
  Where the accept loop is: in \<open>listener.Accept\<close>, between its return and the registration
  of the client, or over.
\<close>

datatype acceptor = Accepting | Holding bytes | Ended

text \<open>
  \<open>wg\<close> is the counter of the embedded \<open>sync.WaitGroup\<close>, \<open>mctx_done\<close> whether the
  process-wide context is cancelled; \<open>left\<close> are the connections whose reader has run the
  last of its deferred calls, \<open>c.s.Done\<close>.
\<close>

record life =
  base :: system
  phase_of :: "nat \<Rightarrow> phase"
  loop_of :: "nat \<Rightarrow> acceptor"
  wg :: "nat \<Rightarrow> int"
  left :: "nat list"
  mctx_done :: bool

definition life_initial :: "bytes \<Rightarrow> bool \<Rightarrow> life" where
  "life_initial m d =
     \<lparr>base = initial m d, phase_of = (\<lambda>_. Unstarted), loop_of = (\<lambda>_. Ended), wg = (\<lambda>_. 0), left = [],
      mctx_done = False\<rparr>"

definition wg_add :: "nat \<Rightarrow> int \<Rightarrow> life \<Rightarrow> life" where
  "wg_add s d l = l\<lparr>wg := (wg l)(s := wg l s + d)\<rparr>"

text \<open>
  \<open>Listen\<close>, once the listener is open: the context is made under the process-wide one, the
  group counts one, the accept loop starts.
\<close>

definition Listen :: "nat \<Rightarrow> life \<Rightarrow> life option" where
  "Listen s l =
     (if phase_of l s = Unstarted
      then Some (wg_add s 1
             (l\<lparr>base := (base l)\<lparr>stopped := (stopped (base l))(s := mctx_done l)\<rparr>,
                phase_of := (phase_of l)(s := Listening), loop_of := (loop_of l)(s := Accepting)\<rparr>))
      else None)"

text \<open>
  One turn of the accept loop, in two steps: \<open>Accept\<close> returns a connection, and the client
  is registered, counted by the group before its reader starts. Nothing keeps the listener from
  being closed in between. An error stops the server and ends the loop.
\<close>

definition accept_returns :: "bytes \<Rightarrow> nat \<Rightarrow> life \<Rightarrow> life option" where
  "accept_returns addr s l =
     (if phase_of l s = Listening \<and> loop_of l s = Accepting
      then Some (l\<lparr>loop_of := (loop_of l)(s := Holding addr)\<rparr>) else None)"

definition accept_registers :: "int \<Rightarrow> nat \<Rightarrow> life \<Rightarrow> life option" where
  "accept_registers mx s l =
     (case loop_of l s of
        Holding addr \<Rightarrow>
          map_option (\<lambda>b. wg_add s 1 (l\<lparr>base := b, loop_of := (loop_of l)(s := Accepting)\<rparr>))
            (perform mx (EAccept addr s) (base l))
      | _ \<Rightarrow> None)"

text \<open>Cancelling the context of a server: \<open>Stop\<close>, or a signal through its parent.\<close>

definition stop_server :: "int \<Rightarrow> nat \<Rightarrow> life \<Rightarrow> life option" where
  "stop_server mx s l =
     (if phase_of l s \<noteq> Unstarted then map_option (\<lambda>b. l\<lparr>base := b\<rparr>) (perform mx (EStop s) (base l)) else None)"

definition accept_fails :: "int \<Rightarrow> nat \<Rightarrow> life \<Rightarrow> life option" where
  "accept_fails mx s l =
     (if loop_of l s = Accepting
      then map_option (\<lambda>l'. l'\<lparr>loop_of := (loop_of l')(s := Ended)\<rparr>) (stop_server mx s l) else None)"

text \<open>The goroutine of \<open>accept\<close> that waits for the context, closes the listener and is done.\<close>

definition close_listener :: "nat \<Rightarrow> life \<Rightarrow> life option" where
  "close_listener s l =
     (if phase_of l s = Listening \<and> stopped (base l) s
      then Some (wg_add s (- 1) (l\<lparr>phase_of := (phase_of l)(s := Closed)\<rparr>)) else None)"

text \<open>The last deferred call of a reader.\<close>

definition server_of :: "world \<Rightarrow> nat \<Rightarrow> nat option" where
  "server_of w x = map_option srv (cl w x)"

definition reader_done :: "nat \<Rightarrow> life \<Rightarrow> life option" where
  "reader_done x l =
     (case server_of (sw (base l)) x of
        None \<Rightarrow> None
      | Some s \<Rightarrow>
          if stages (base l) x = Some Gone \<and> x \<notin> set (left l)
          then Some (wg_add s (- 1) (l\<lparr>left := x # left l\<rparr>)) else None)"

datatype life_event =
    LListen nat
  | LAccept bytes nat
  | LRegister nat
  | LAcceptError nat
  | LStop nat
  | LClose nat
  | LDone nat
  | LSignal
  | LClient event

text \<open>A crashed process does nothing more.\<close>

fun life_running :: "int \<Rightarrow> life_event \<Rightarrow> life \<Rightarrow> life option" where
  "life_running mx (LListen s) l = Listen s l"
| "life_running mx (LAccept addr s) l = accept_returns addr s l"
| "life_running mx (LRegister s) l = accept_registers mx s l"
| "life_running mx (LAcceptError s) l = accept_fails mx s l"
| "life_running mx (LStop s) l = stop_server mx s l"
| "life_running mx (LClose s) l = close_listener s l"
| "life_running mx (LDone x) l = reader_done x l"
| "life_running mx LSignal l = Some (l\<lparr>mctx_done := True\<rparr>)"
| "life_running mx (LClient e) l =
     (if actor e = None then None else map_option (\<lambda>b. l\<lparr>base := b\<rparr>) (perform mx e (base l)))"

definition life_perform :: "int \<Rightarrow> life_event \<Rightarrow> life \<Rightarrow> life option" where
  "life_perform mx e l = (if crash (base l) = None then life_running mx e l else None)"

fun run_life :: "int \<Rightarrow> life_event list \<Rightarrow> life \<Rightarrow> life option" where
  "run_life mx [] l = Some l"
| "run_life mx (e # es) l = Option.bind (life_perform mx e l) (run_life mx es)"

definition life_step :: "int \<Rightarrow> life \<Rightarrow> life \<Rightarrow> bool" where
  "life_step mx l l' \<longleftrightarrow> (\<exists>e. life_perform mx e l = Some l')"

text \<open>\<open>wait\<close> returns when the group of every server of the list is at zero.\<close>

definition wait_returns :: "nat list \<Rightarrow> life \<Rightarrow> bool" where
  "wait_returns servers l \<longleftrightarrow> list_all (\<lambda>s. wg l s = 0) servers"

section \<open>What the wait group counts\<close>

definition open_readers :: "nat \<Rightarrow> life \<Rightarrow> nat list" where
  "open_readers s l =
     filter (\<lambda>x. server_of (sw (base l)) x = Some s \<and> x \<notin> set (left l)) [0..<next_cl (sw (base l))]"

definition life_inv :: "life \<Rightarrow> bool" where
  "life_inv l \<longleftrightarrow>
     sys_inv (base l) \<and>
     (\<forall>x s. server_of (sw (base l)) x = Some s \<longrightarrow> phase_of l s \<noteq> Unstarted) \<and>
     (\<forall>s. loop_of l s \<noteq> Ended \<longrightarrow> phase_of l s \<noteq> Unstarted) \<and>
     (\<forall>s. stopped (base l) s \<longrightarrow> phase_of l s \<noteq> Unstarted) \<and>
     (\<forall>x \<in> set (left l). stages (base l) x = Some Gone) \<and>
     (\<forall>s. wg l s = (if phase_of l s = Listening then 1 else 0) + int (length (open_readers s l)))"

lemma server_of_run_for: "run_for x w w' \<Longrightarrow> server_of w' y = server_of w y"
proof -
  assume r: "run_for x w w'"
  show ?thesis
  proof (cases "y = x")
    case True
    with r have "rel_option same_identity (cl w y) (cl w' y)" by (simp add: run_for_def)
    then show ?thesis by (cases "cl w y"; cases "cl w' y") (auto simp: server_of_def same_identity_def)
  next
    case False
    with r have "rel_option (after_sends clean) (cl w y) (cl w' y)" by (simp add: run_for_def)
    then show ?thesis
      by (cases "cl w y"; cases "cl w' y") (auto simp: server_of_def after_sends_def sends_only_fields)
  qed
qed

text \<open>A step of a client keeps everybody's server and the number of clients.\<close>

definition steady :: "world \<Rightarrow> world \<Rightarrow> bool" where
  "steady w w' \<longleftrightarrow> server_of w' = server_of w \<and> next_cl w' = next_cl w"

lemma steady_kept: "kept x w w' \<Longrightarrow> steady w w'"
  by (auto simp: steady_def kept_def fun_eq_iff server_of_run_for) (simp add: run_for_def)

lemma steady_own: "(\<And>k. cl w x = Some k \<Longrightarrow> srv (f k) = srv k) \<Longrightarrow> steady w (upd_cl x f w)"
  by (cases "cl w x") (auto simp: steady_def server_of_def fun_eq_iff)


lemma steady_refl [simp]: "steady w w"
  by (simp add: steady_def)

lemma steady_settle:
  assumes s: "settle x r sy = Some sy'" and k: "\<And>w' c. r = Ok (w', c) \<Longrightarrow> kept x (sw sy) w'"
    and g: "\<And>w' c. r \<noteq> Goexit (w', c)"
  shows "steady (sw sy) (sw sy')"
  using s by (rule settle_world) (auto simp: g intro: steady_kept k)

lemma writer_step_srv: "srv (writer_step net e k) = srv k"
  by (auto simp: writer_step_def writer_take_def writer_timer_def Let_def set_wr_def Close_def stop_writer_def
      split: list.split writer_event.split)

lemma perform_steady:
  assumes inv: "sys_inv sy" and p: "perform mx e sy = Some sy'" and x: "actor e = Some x"
  shows "steady (sw sy) (sw sy')"
proof -
  have W: "world_inv (sw sy)" "settled (sw sy)" using inv by (simp_all add: sys_inv_def)
  from p have run: "perform_running mx e sy = Some sy'" by (simp add: perform_def split: if_splits)
  show ?thesis
  proof (cases e)
    case (EReceive env z input)
    with run x obtain m rest b where st: "stages sy x = Some Reading"
      and f: "ReadBytes EndMessage input = Some (m, rest)" "handle_frame mx m = Received b"
      and s: "settle x (receive_begin env x b (sw sy)) sy = Some sy'"
      by (auto split: option.splits stage.splits frame_action.splits prod.splits)
    have con: "connected x (sw sy)" by (rule connected_reader(1) [OF inv st]) simp
    note R = receive_begin_ok [OF W con handle_frame_clean(1) [OF f], where env = env]
    show ?thesis by (rule steady_settle [OF s]) (use R in auto)
  next
    case (ECommit pk z)
    with run x obtain f n p l where st: "stages sy x = Some (Joining f n p l)"
      and s: "settle x (finished (join_commit pk x f n p l (sw sy))) sy = Some sy'"
      by (auto split: option.splits stage.splits)
    have "stage_ok (sw sy) x (Joining f n p l)" using inv st by (simp only: sys_inv_def)
    then have "kept x (sw sy) w'" if "join_commit pk x f n p l (sw sy) = Ok w'" for w'
      using that by (intro join_commit_ok [OF W]) simp_all
    then show ?thesis
      by (intro steady_settle [OF s]) (auto dest!: finished_Ok finished_Goexit simp: second_part_no_Goexit)
  next
    case (EGraceful pick z)
    with run x have s: "settle x (finished (client_CloseGracefully pick x (sw sy))) sy = Some sy'"
      by (auto split: if_splits)
    have "kept x (sw sy) w'" if "client_CloseGracefully pick x (sw sy) = Ok w'" for w'
      by (rule client_CloseGracefully_kept [OF W that])
    then show ?thesis
      by (intro steady_settle [OF s]) (auto dest!: finished_Ok finished_Goexit simp: second_part_no_Goexit)
  next
    case (EHangup z)
    with run x show ?thesis
      by (auto simp: set_stage_def Close_def intro!: steady_own split: if_splits)
  next
    case (ELeave pk z)
    with run x have st: "stages sy x = Some Leaving"
      and l: "(\<exists>w'. leave_channel pk x (sw sy) = Ok w' \<and> sw sy' = w') \<or> sw sy' = sw sy"
      by (auto simp: set_stage_def split: if_splits go.splits)
    from connected_reader(2) [OF inv st] obtain k where k: "cl (sw sy) x = Some k" by auto
    have "kept x (sw sy) w'" if "leave_channel pk x (sw sy) = Ok w'" for w'
      using leave_channel_inv [OF W(1) k that] W by (simp add: kept_def)
    with l show ?thesis by (auto intro: steady_kept)
  next
    case (EDelete z)
    with run x show ?thesis
      by (auto simp: set_stage_def delete_client_def steady_def server_of_def fun_eq_iff split: if_splits)
  next
    case (EPing pick z)
    have "srv (ping pick k) = srv k" for k by (simp add: ping_def sends_only_fields [OF sends_only_Send])
    with EPing run x show ?thesis by (auto intro!: steady_own split: if_splits option.splits)
  next
    case (ETeardown z)
    with run x show ?thesis by (auto intro!: steady_own simp: teardown_def split: if_splits option.splits)
  next
    case (EWriter net we z)
    with run x show ?thesis by (auto intro!: steady_own simp: writer_step_srv split: if_splits option.splits)
  qed (use x in auto)
qed

text \<open>Only stopping a server changes which servers are stopped.\<close>

lemma perform_stopped:
  assumes p: "perform mx e sy = Some sy'" and e: "\<And>s. e \<noteq> EStop s"
  shows "stopped sy' = stopped sy"
proof -
  have S: "settle x r sy = Some sy' \<Longrightarrow> stopped sy' = stopped sy" for x r
    by (cases "(x, r, sy)" rule: settle.cases) (auto simp: set_stage_def)
  from p have "perform_running mx e sy = Some sy'" by (simp add: perform_def split: if_splits)
  with e show ?thesis
    by (cases e)
      (auto simp: set_stage_def split: if_splits option.splits stage.splits frame_action.splits prod.splits go.splits
        intro: S)
qed

text \<open>A reader that is gone stays gone.\<close>

lemma perform_Gone:
  assumes p: "perform mx e sy = Some sy'" and x: "actor e = Some x" and y: "stages sy y = Some Gone"
  shows "stages sy' y = Some Gone"
proof -
  from p have run: "perform_running mx e sy = Some sy'" by (simp add: perform_def split: if_splits)
  have S: "settle x r sy = Some sy' \<Longrightarrow> stages sy x \<noteq> Some Gone \<Longrightarrow> stages sy' y = Some Gone" for r
    using y by (cases "(x, r, sy)" rule: settle.cases) (auto simp: set_stage_def)
  show ?thesis
    using run x y
    by (cases e)
      (auto simp: set_stage_def split: if_splits option.splits stage.splits frame_action.splits prod.splits go.splits
        intro: S)
qed

section \<open>The invariant of the life of the servers\<close>

lemma open_readers_filter:
  assumes "distinct xs" "x \<in> set xs" "P x"
  shows "int (length (filter (\<lambda>y. P y \<and> y \<noteq> x) xs)) = int (length (filter P xs)) - 1"
  using assms
proof (induction xs)
  case Nil
  then show ?case by simp
next
  case (Cons a xs)
  show ?case
  proof (cases "a = x")
    case True
    with Cons.prems have "filter (\<lambda>y. P y \<and> y \<noteq> x) xs = filter P xs" by (intro filter_cong) auto
    with True Cons.prems(3) show ?thesis by simp
  qed (use Cons in auto)
qed

lemma open_readers_cong:
  "server_of (sw (base l')) = server_of (sw (base l)) \<Longrightarrow> next_cl (sw (base l')) = next_cl (sw (base l)) \<Longrightarrow>
     left l' = left l \<Longrightarrow> open_readers s l' = open_readers s l"
  by (simp add: open_readers_def)

lemma wg_add_simps [simp]:
  "base (wg_add s d l) = base l" "phase_of (wg_add s d l) = phase_of l" "loop_of (wg_add s d l) = loop_of l"
  "left (wg_add s d l) = left l" "mctx_done (wg_add s d l) = mctx_done l"
  "wg (wg_add s d l) = (wg l)(s := wg l s + d)"
  by (simp_all add: wg_add_def)

lemma life_invD:
  assumes "life_inv l"
  shows "sys_inv (base l)" "server_of (sw (base l)) x = Some s \<Longrightarrow> phase_of l s \<noteq> Unstarted"
    "loop_of l s \<noteq> Ended \<Longrightarrow> phase_of l s \<noteq> Unstarted" "x \<in> set (left l) \<Longrightarrow> stages (base l) x = Some Gone"
    "wg l s = (if phase_of l s = Listening then 1 else 0) + int (length (open_readers s l))"
    "stopped (base l) s \<Longrightarrow> phase_of l s \<noteq> Unstarted"
  using assms by (simp_all add: life_inv_def)

lemma life_inv_initial: "life_inv (life_initial m d)"
  by (simp add: life_inv_def life_initial_def sys_inv_initial)
     (auto simp: initial_def empty_world_def server_of_def open_readers_def)

lemma open_readers_unstarted: "life_inv l \<Longrightarrow> phase_of l s = Unstarted \<Longrightarrow> open_readers s l = []"
  using life_invD(2) by (fastforce simp: open_readers_def filter_empty_conv)

lemma life_inv_Listen:
  assumes inv: "life_inv l" and s: "Listen s l = Some l'" shows "life_inv l'"
proof -
  note L = life_invD [OF inv]
  from s have u: "phase_of l s = Unstarted"
    and l': "l' = wg_add s 1 (l\<lparr>base := (base l)\<lparr>stopped := (stopped (base l))(s := mctx_done l)\<rparr>,
                phase_of := (phase_of l)(s := Listening), loop_of := (loop_of l)(s := Accepting)\<rparr>)"
    by (auto simp: Listen_def split: if_splits)
  have o: "open_readers r l' = open_readers r l" for r by (simp add: l' open_readers_def)
  have "sys_inv (base l')" using L(1) by (simp add: l' sys_inv_def)
  then show ?thesis
    unfolding life_inv_def o using L u open_readers_unstarted [OF inv u] by (auto simp: l')
qed

lemma life_inv_base:
  assumes inv: "life_inv l" and b: "sys_inv b" "steady (sw (base l)) (sw b)"
    and g: "\<And>x. stages (base l) x = Some Gone \<Longrightarrow> stages b x = Some Gone"
    and d: "\<And>s. stopped b s \<Longrightarrow> stopped (base l) s \<or> phase_of l s \<noteq> Unstarted"
  shows "life_inv (l\<lparr>base := b\<rparr>)"
proof -
  note L = life_invD [OF inv]
  have "open_readers r (l\<lparr>base := b\<rparr>) = open_readers r l" for r
    using b(2) by (intro open_readers_cong) (simp_all add: steady_def)
  moreover have "phase_of l s \<noteq> Unstarted" if "stopped b s" for s using d [OF that] L(6) by blast
  ultimately show ?thesis using L b g unfolding life_inv_def by (auto simp: steady_def)
qed

lemma life_inv_client:
  assumes inv: "life_inv l" and p: "perform mx e (base l) = Some b" and x: "actor e = Some x"
  shows "life_inv (l\<lparr>base := b\<rparr>)"
proof (rule life_inv_base [OF inv])
  note i = life_invD(1) [OF inv]
  show "sys_inv b" using sys_inv_step [OF i perform_sound [OF p]] .
  show "steady (sw (base l)) (sw b)" by (rule perform_steady [OF i p x])
  show "stages (base l) y = Some Gone \<Longrightarrow> stages b y = Some Gone" for y by (rule perform_Gone [OF p x])
  have "stopped b = stopped (base l)" using x by (intro perform_stopped [OF p]) auto
  then show "stopped b s \<Longrightarrow> stopped (base l) s \<or> phase_of l s \<noteq> Unstarted" for s by simp
qed

lemma life_inv_stop:
  assumes inv: "life_inv l" and s: "stop_server mx s l = Some l'" shows "life_inv l'"
proof -
  from s obtain b where p: "perform mx (EStop s) (base l) = Some b" and l': "l' = l\<lparr>base := b\<rparr>"
    and u: "phase_of l s \<noteq> Unstarted"
    by (auto simp: stop_server_def split: if_splits)
  have "map_option srv (map_option (\<lambda>k. if srv k = s then Close k else k) c) = map_option srv c" for c
    by (cases c) (simp_all add: Close_def)
  with p have "steady (sw (base l)) (sw b)" "stages b = stages (base l)"
    "stopped b = (stopped (base l))(s := True)"
    by (auto simp: perform_def steady_def close_all_def server_of_def split: if_splits)
  then show ?thesis
    unfolding l' using sys_inv_step [OF life_invD(1) [OF inv] perform_sound [OF p]] u
    by (intro life_inv_base [OF inv]) (simp_all split: if_splits)
qed

lemma life_inv_loop:
  "life_inv l \<Longrightarrow> phase_of l s \<noteq> Unstarted \<Longrightarrow> life_inv (l\<lparr>loop_of := (loop_of l)(s := a)\<rparr>)"
  by (auto simp: life_inv_def open_readers_def)

lemma life_inv_register:
  assumes inv: "life_inv l" and s: "accept_registers mx s l = Some l'" shows "life_inv l'"
proof -
  note L = life_invD [OF inv]
  from s obtain addr b where h: "loop_of l s = Holding addr" and p: "perform mx (EAccept addr s) (base l) = Some b"
    and l': "l' = wg_add s 1 (l\<lparr>base := b, loop_of := (loop_of l)(s := Accepting)\<rparr>)"
    by (auto simp: accept_registers_def split: acceptor.splits)
  from p obtain x w' where a: "accept addr s (stopped (base l) s) (sw (base l)) = (x, w')"
    and b: "b = set_stage x Reading w' (base l)"
    by (auto simp: perform_def split: if_splits prod.splits)
  note A = accept_simps [OF a]
  have free: "cl (sw (base l)) y = None" if "y \<ge> x" for y
    using that A(1) L(1) world_invD(1) [of "sw (base l)" y]
    by (cases "cl (sw (base l)) y") (auto simp: sys_inv_def client_ok_def)
  have srv: "server_of (sw b) y = (if y = x then Some s else server_of (sw (base l)) y)" for y
    using A(7) by (simp add: b set_stage_def server_of_def SetID_def new_client_def)
  have next_x: "next_cl (sw b) = Suc x" using A by (simp add: b set_stage_def)
  have "stages (base l) x = None" using L(1) free [of x] by (simp add: sys_inv_def)
  with L(4) have new: "x \<notin> set (left l)" by force
  have o: "open_readers r l' = open_readers r l @ (if r = s then [x] else [])" for r
  proof -
    have "filter (\<lambda>y. server_of (sw b) y = Some r \<and> y \<notin> set (left l)) [0..<x] = open_readers r l"
      using A(1) by (auto simp: open_readers_def srv intro!: filter_cong)
    then show ?thesis using new by (simp add: open_readers_def l' next_x srv)
  qed
  have "sys_inv b" using sys_inv_step [OF L(1) perform_sound [OF p]] .
  moreover have "stages b y = Some Gone" if "y \<in> set (left l)" for y
    using L(4) [OF that] new that by (auto simp: b set_stage_def)
  moreover have "stopped b = stopped (base l)" by (rule perform_stopped [OF p]) simp
  ultimately show ?thesis
    unfolding life_inv_def o using L h by (auto simp: l' srv)
qed

lemma life_inv_close:
  assumes inv: "life_inv l" and s: "close_listener s l = Some l'" shows "life_inv l'"
proof -
  note L = life_invD [OF inv]
  from s have c: "phase_of l s = Listening" and l': "l' = wg_add s (- 1) (l\<lparr>phase_of := (phase_of l)(s := Closed)\<rparr>)"
    by (auto simp: close_listener_def split: if_splits)
  have o: "open_readers r l' = open_readers r l" for r by (simp add: l' open_readers_def)
  show ?thesis unfolding life_inv_def o using L c by (auto simp: l')
qed

lemma life_inv_done:
  assumes inv: "life_inv l" and s: "reader_done x l = Some l'" shows "life_inv l'"
proof -
  note L = life_invD [OF inv]
  from s obtain r where r: "server_of (sw (base l)) x = Some r" and g: "stages (base l) x = Some Gone"
    "x \<notin> set (left l)" and l': "l' = wg_add r (- 1) (l\<lparr>left := x # left l\<rparr>)"
    by (auto simp: reader_done_def split: option.splits if_splits)
  have "x < next_cl (sw (base l))"
    using r L(1) world_invD(1) [of "sw (base l)" x] by (auto simp: server_of_def sys_inv_def client_ok_def)
  then have "int (length (open_readers r l')) = int (length (open_readers r l)) - 1"
    using open_readers_filter [of "[0..<next_cl (sw (base l))]" x
        "\<lambda>y. server_of (sw (base l)) y = Some r \<and> y \<notin> set (left l)"] r g
    by (simp add: open_readers_def l' conj_ac)
  moreover have "open_readers q l' = open_readers q l" if "q \<noteq> r" for q
    using r that by (auto simp: open_readers_def l' intro!: filter_cong)
  ultimately show ?thesis
    unfolding life_inv_def using L g by (auto simp: l')
qed

lemma life_inv_step:
  assumes inv: "life_inv l" and step: "life_step mx l l'" shows "life_inv l'"
proof -
  from step obtain e where "life_running mx e l = Some l'"
    by (auto simp: life_step_def life_perform_def split: if_splits)
  then show ?thesis
  proof (cases e)
    case (LAccept addr s)
    with \<open>life_running mx e l = Some l'\<close> show ?thesis
      by (auto simp: accept_returns_def split: if_splits intro!: life_inv_loop inv)
  next
    case (LAcceptError s)
    with \<open>life_running mx e l = Some l'\<close> obtain l1 where s: "stop_server mx s l = Some l1" "phase_of l s \<noteq> Unstarted"
      and l': "l' = l1\<lparr>loop_of := (loop_of l1)(s := Ended)\<rparr>"
      by (auto simp: accept_fails_def stop_server_def split: if_splits)
    then have "phase_of l1 s \<noteq> Unstarted" by (auto simp: stop_server_def)
    then show ?thesis unfolding l' by (intro life_inv_loop life_inv_stop [OF inv s(1)])
  next
    case LSignal
    with \<open>life_running mx e l = Some l'\<close> inv show ?thesis by (auto simp: life_inv_def open_readers_def)
  next
    case (LClient ce)
    with \<open>life_running mx e l = Some l'\<close> show ?thesis
      by (auto split: if_splits intro: life_inv_client [OF inv])
  qed (auto intro: life_inv_Listen [OF inv] life_inv_register [OF inv] life_inv_stop [OF inv] life_inv_close [OF inv]
      life_inv_done [OF inv])
qed

interpretation life: invariant_system "life_initial m d" "life_step mx" life_inv for m d mx
  by unfold_locales (auto intro: life_inv_initial life_inv_step)

text \<open>The life of the servers is a run of the system, with steps in between it does not see.\<close>

lemma close_all_none:
  assumes "\<And>x. server_of (sw b) x \<noteq> Some s" shows "close_all s (sw b) = sw b"
proof -
  have "map_option (\<lambda>k. if srv k = s then Close k else k) (cl (sw b) x) = cl (sw b) x" for x
    using assms [of x] by (cases "cl (sw b) x") (auto simp: server_of_def)
  then show ?thesis by (simp add: close_all_def)
qed

lemma life_step_base:
  assumes inv: "life_inv l" and step: "life_step mx l l'"
  shows "(sys_step mx)\<^sup>=\<^sup>= (base l) (base l')"
proof -
  note L = life_invD [OF inv]
  from step obtain e where e: "life_running mx e l = Some l'" and c: "crash (base l) = None"
    by (auto simp: life_step_def life_perform_def split: if_splits)
  show ?thesis
  proof (cases e)
    case (LListen s)
    with e have u: "phase_of l s = Unstarted"
      and b: "base l' = (base l)\<lparr>stopped := (stopped (base l))(s := mctx_done l)\<rparr>"
      by (auto simp: Listen_def split: if_splits)
    have f: "\<not> stopped (base l) s" using L(6) u by blast
    show ?thesis
    proof (cases "mctx_done l")
      case True
      have "close_all s (sw (base l)) = sw (base l)" using L(2) u by (intro close_all_none) blast
      with b c True have "perform mx (EStop s) (base l) = Some (base l')" by (simp add: perform_def)
      then show ?thesis using perform_sound by blast
    next
      case False
      with f have "(stopped (base l))(s := mctx_done l) = stopped (base l)" by (auto simp: fun_eq_iff)
      with b show ?thesis by simp
    qed
  qed (use e in \<open>auto simp: accept_returns_def accept_registers_def accept_fails_def stop_server_def close_listener_def
      reader_done_def split: if_splits acceptor.splits option.splits dest: perform_sound\<close>)
qed

lemma reach_stutter: "reach s0 step\<^sup>=\<^sup>= s \<Longrightarrow> reach s0 step s"
  by (induction rule: reach.induct) (auto intro: reach.intros)

interpretation lived: simulation "life_initial m d" "life_step mx" life_inv base "(sys_step mx)\<^sup>=\<^sup>=" for m d mx
  by unfold_locales (rule life_step_base)

lemma life_reach_base:
  "reach (life_initial m d) (life_step mx) l \<Longrightarrow> reach (initial m d) (sys_step mx) (base l)"
  using reach_stutter [OF lived.abs_reach [of m d mx l]] by (simp add: life_initial_def)

lemma run_life_reach:
  "reach s0 (life_step mx) l \<Longrightarrow> run_life mx es l = Some l' \<Longrightarrow> reach s0 (life_step mx) l'"
proof (induction es arbitrary: l)
  case Nil
  then show ?case by simp
next
  case (Cons e es)
  then obtain l1 where "life_perform mx e l = Some l1" "run_life mx es l1 = Some l'"
    by (auto simp: bind_eq_Some_conv)
  with Cons.IH reach_step [OF Cons.prems(1), of l1] show ?case by (auto simp: life_step_def)
qed

section \<open>When the wait returns\<close>

text \<open>Every server that listened is among those that are waited for.\<close>

definition waits_for_all :: "nat list \<Rightarrow> life \<Rightarrow> bool" where
  "waits_for_all servers l \<longleftrightarrow> (\<forall>s. phase_of l s \<noteq> Unstarted \<longrightarrow> s \<in> set servers)"

definition over :: "life \<Rightarrow> bool" where
  "over l \<longleftrightarrow>
     (\<forall>s. phase_of l s \<noteq> Listening) \<and> (\<forall>x st. stages (base l) x = Some st \<longrightarrow> st = Gone) \<and>
     clients (sw (base l)) = [] \<and> channels (sw (base l)) = [] \<and> (\<forall>r. members r (sw (base l)) = [])"

lemma waited_over:
  assumes inv: "life_inv l" and a: "waits_for_all servers l" and w: "wait_returns servers l"
  shows "over l"
proof -
  note L = life_invD [OF inv]
  have W: "world_inv (sw (base l))" "settled (sw (base l))" using L(1) by (simp_all add: sys_inv_def)
  have zero: "phase_of l s \<noteq> Listening \<and> open_readers s l = []" if "phase_of l s \<noteq> Unstarted" for s
    using that a w L(5) [of s] by (auto simp: waits_for_all_def wait_returns_def list_all_iff split: if_splits)
  have gone: "stages (base l) x = Some Gone" if x: "cl (sw (base l)) x = Some k" for x k
  proof -
    from x have s: "server_of (sw (base l)) x = Some (srv k)" by (simp add: server_of_def)
    from x world_invD(1) [OF W(1)] have "x < next_cl (sw (base l))" by (simp add: client_ok_def)
    with s zero [OF L(2) [OF s]] have "x \<in> set (left l)" by (auto simp: open_readers_def filter_empty_conv)
    then show ?thesis by (rule L(4))
  qed
  have st: "x \<notin> set (clients (sw (base l))) \<and> cchan k = None" if "cl (sw (base l)) x = Some k" for x k
    using gone [OF that] L(1) that by (fastforce simp: sys_inv_def)
  have m: "members r (sw (base l)) = []" for r
  proof (cases "members r (sw (base l))")
    case (Cons p ps)
    then have "(fst p, snd p) \<in> set (members r (sw (base l)))" by simp
    with world_inv_member [OF W(1) this] st show ?thesis by force
  qed
  have "channels (sw (base l)) = []"
  proof (rule ccontr)
    assume "channels (sw (base l)) \<noteq> []"
    then obtain n r where "(n, r) \<in> set (channels (sw (base l)))" by (metis list.set_intros(1) neq_Nil_conv surj_pair)
    then obtain c where c: "ch (sw (base l)) r = Some c" "ClientsAll c \<noteq> None"
      using W(2) unfolding settled_def by blast
    moreover have "ClientsAll c \<noteq> Some []" using W(2) c(1) by (simp add: settled_def)
    ultimately show False using m [of r] by (auto simp: members_def)
  qed
  moreover have "clients (sw (base l)) = []"
  proof (rule ccontr)
    assume "clients (sw (base l)) \<noteq> []"
    then obtain x where x: "x \<in> set (clients (sw (base l)))" using list.set_sel(1) by blast
    with world_invD(6) [OF W(1)] st show False by blast
  qed
  moreover have "st = Gone" if "stages (base l) x = Some st" for x st
  proof -
    have "cl (sw (base l)) x \<noteq> None" using that L(1) unfolding sys_inv_def by (metis option.discI)
    with gone that show ?thesis by auto
  qed
  moreover have "phase_of l s \<noteq> Listening" for s using zero [of s] by force
  ultimately show ?thesis using m unfolding over_def by auto
qed

section \<open>Shutting down\<close>

text \<open>
  What is left of a connection whose reader is not in the middle of a command: the read fails,
  the deferred calls run. Of the servers: the context is cancelled, the listener closed.
\<close>

fun farewell :: "picks \<Rightarrow> nat \<Rightarrow> stage \<Rightarrow> life_event list" where
  "farewell pk x Reading = [LClient (EHangup x), LClient (ELeave pk x), LClient (EDelete x), LDone x]"
| "farewell pk x Leaving = [LClient (ELeave pk x), LClient (EDelete x), LDone x]"
| "farewell pk x Deleting = [LClient (EDelete x), LDone x]"
| "farewell pk x Gone = [LDone x]"
| "farewell pk x _ = []"

fun between_commands :: "stage \<Rightarrow> bool" where
  "between_commands (Joining f n p l) = False"
| "between_commands Closing = False"
| "between_commands _ = True"

definition remaining :: "life \<Rightarrow> nat list" where
  "remaining l =
     filter (\<lambda>x. stages (base l) x \<noteq> None \<and> x \<notin> set (left l)) [0..<next_cl (sw (base l))]"

definition drain :: "picks \<Rightarrow> nat list \<Rightarrow> life \<Rightarrow> life_event list" where
  "drain pk servers l =
     map LStop servers @ map LClose (filter (\<lambda>s. phase_of l s = Listening) servers) @
     concat (map (\<lambda>x. farewell pk x (the (stages (base l) x))) (remaining l))"

text \<open>Progress of one connection, seen from the outside.\<close>

definition parted :: "nat \<Rightarrow> life \<Rightarrow> life \<Rightarrow> bool" where
  "parted x l l' \<longleftrightarrow>
     crash (base l') = None \<and> stages (base l') = (stages (base l))(x \<mapsto> Gone) \<and> left l' = x # left l \<and>
     phase_of l' = phase_of l \<and> next_cl (sw (base l')) = next_cl (sw (base l))"

lemma life_perform_inv: "life_inv l \<Longrightarrow> life_perform mx e l = Some l' \<Longrightarrow> life_inv l'"
  using life_inv_step [of l mx l'] by (auto simp: life_step_def)

lemma run_life_inv: "life_inv l \<Longrightarrow> run_life mx es l = Some l' \<Longrightarrow> life_inv l'"
  by (induction es arbitrary: l) (auto simp: bind_eq_Some_conv dest: life_perform_inv)

lemma run_life_append: "run_life mx (es @ fs) l = Option.bind (run_life mx es l) (run_life mx fs)"
  by (induction es arbitrary: l) (auto intro: bind_option_cong)

lemma parts_Gone:
  assumes inv: "life_inv l" and c: "crash (base l) = None" and x: "stages (base l) x = Some Gone" "x \<notin> set (left l)"
  shows "\<exists>l'. run_life mx [LDone x] l = Some l' \<and> parted x l l'"
proof -
  have "cl (sw (base l)) x \<noteq> None"
    using life_invD(1) [OF inv] x(1) unfolding sys_inv_def by (metis option.discI)
  with x c show ?thesis
    by (auto simp: life_perform_def reader_done_def server_of_def parted_def fun_upd_idem)
qed

text \<open>A step of the reader that changes nothing but its stage and the world leaves the rest.\<close>

lemma parts_step:
  assumes inv: "life_inv l" and c: "crash (base l) = None" and x: "actor e = Some x"
    and p: "perform mx e (base l) = Some (set_stage x st w (base l))"
    and rest: "\<And>l1. life_inv l1 \<Longrightarrow> crash (base l1) = None \<Longrightarrow> stages (base l1) x = Some st \<Longrightarrow>
      x \<notin> set (left l1) \<Longrightarrow> \<exists>l'. run_life mx es l1 = Some l' \<and> parted x l1 l'"
    and new: "x \<notin> set (left l)"
  shows "\<exists>l'. run_life mx (LClient e # es) l = Some l' \<and> parted x l l'"
proof -
  let ?l1 = "l\<lparr>base := set_stage x st w (base l)\<rparr>"
  have s: "life_perform mx (LClient e) l = Some ?l1" using p c x by (simp add: life_perform_def)
  have "life_inv ?l1" using life_perform_inv [OF inv s] .
  then have "\<exists>l'. run_life mx es ?l1 = Some l' \<and> parted x ?l1 l'"
    using c new by (intro rest) (simp_all add: set_stage_def)
  moreover have "next_cl w = next_cl (sw (base l))"
    using perform_steady [OF life_invD(1) [OF inv] p x] by (simp add: steady_def set_stage_def)
  ultimately show ?thesis using s by (auto simp: parted_def set_stage_def)
qed

lemma parts_Deleting:
  assumes inv: "life_inv l" and c: "crash (base l) = None" and x: "stages (base l) x = Some Deleting" "x \<notin> set (left l)"
  shows "\<exists>l'. run_life mx [LClient (EDelete x), LDone x] l = Some l' \<and> parted x l l'"
  by (rule parts_step [OF inv c _ _ parts_Gone x(2)]) (use c x in \<open>auto simp: perform_def\<close>)

lemma parts_Leaving:
  assumes inv: "life_inv l" and c: "crash (base l) = None" and x: "stages (base l) x = Some Leaving" "x \<notin> set (left l)"
  shows "\<exists>l'. run_life mx [LClient (ELeave pk x), LClient (EDelete x), LDone x] l = Some l' \<and> parted x l l'"
proof -
  note i = life_invD(1) [OF inv]
  from connected_reader(2) [OF i x(1)] obtain k where "cl (sw (base l)) x = Some k" by auto
  with leave_channel_Ok [of "sw (base l)" x k pk] i obtain w where "leave_channel pk x (sw (base l)) = Ok w"
    by (auto simp: sys_inv_def)
  with c x have "perform mx (ELeave pk x) (base l) = Some (set_stage x Deleting w (base l))"
    by (simp add: perform_def)
  then show ?thesis by (intro parts_step [OF inv c _ _ parts_Deleting x(2)]) auto
qed

lemma parts:
  assumes inv: "life_inv l" and c: "crash (base l) = None" and x: "stages (base l) x = Some st" "x \<notin> set (left l)"
    and b: "between_commands st"
  shows "\<exists>l'. run_life mx (farewell pk x st) l = Some l' \<and> parted x l l'"
proof (cases st)
  case Reading
  with c x have "perform mx (EHangup x) (base l) = Some (set_stage x Leaving (upd_cl x Close (sw (base l))) (base l))"
    by (simp add: perform_def)
  have "\<exists>l'. run_life mx [LClient (EHangup x), LClient (ELeave pk x), LClient (EDelete x), LDone x] l = Some l' \<and>
      parted x l l'"
    by (rule parts_step [OF inv c _ \<open>perform mx (EHangup x) _ = _\<close> parts_Leaving x(2)]) simp_all
  then show ?thesis by (simp only: Reading farewell.simps)
next
  case Leaving
  with x(1) show ?thesis using parts_Leaving [OF inv c _ x(2)] by simp
next
  case Deleting
  with x(1) show ?thesis using parts_Deleting [OF inv c _ x(2)] by simp
next
  case Gone
  with x(1) show ?thesis using parts_Gone [OF inv c _ x(2)] by simp
qed (use b in simp_all)

lemma all_part:
  assumes "life_inv l" "crash (base l) = None" "distinct xs"
    and "\<And>x. x \<in> set xs \<Longrightarrow> \<exists>st. stages (base l) x = Some st \<and> between_commands st \<and> x \<notin> set (left l)"
  shows "\<exists>l'. run_life mx (concat (map (\<lambda>x. farewell pk x (the (stages (base l) x))) xs)) l = Some l' \<and>
    crash (base l') = None \<and> set (left l') = set xs \<union> set (left l) \<and> phase_of l' = phase_of l \<and>
    next_cl (sw (base l')) = next_cl (sw (base l)) \<and>
    (\<forall>y. stages (base l') y = None \<longleftrightarrow> stages (base l) y = None)"
  using assms
proof (induction xs arbitrary: l)
  case Nil
  then show ?case by simp
next
  case (Cons x xs)
  from Cons.prems(4) [of x] obtain st where st: "stages (base l) x = Some st" "between_commands st" "x \<notin> set (left l)"
    by auto
  from parts [OF Cons.prems(1,2) st(1,3,2)] obtain l1 where l1: "run_life mx (farewell pk x st) l = Some l1"
    "parted x l l1" by blast
  have "\<exists>s. stages (base l1) y = Some s \<and> between_commands s \<and> y \<notin> set (left l1)" if "y \<in> set xs" for y
    using Cons.prems(3,4) that l1(2) by (auto simp: parted_def)
  from Cons.IH [OF run_life_inv [OF Cons.prems(1) l1(1)] _ _ this] l1(2) Cons.prems(3) obtain l'
    where l': "run_life mx (concat (map (\<lambda>x. farewell pk x (the (stages (base l1) x))) xs)) l1 = Some l'"
      "crash (base l') = None" "set (left l') = set xs \<union> set (left l1)" "phase_of l' = phase_of l1"
      "next_cl (sw (base l')) = next_cl (sw (base l1))"
      "\<forall>y. stages (base l') y = None \<longleftrightarrow> stages (base l1) y = None"
    by (auto simp: parted_def)
  have "map (\<lambda>x. farewell pk x (the (stages (base l1) x))) xs = map (\<lambda>x. farewell pk x (the (stages (base l) x))) xs"
    using l1(2) Cons.prems(3) by (auto simp: parted_def)
  with l' l1 st(1) show ?case by (auto simp: run_life_append parted_def)
qed

lemma all_stop:
  assumes "crash (base l) = None" "\<And>s. s \<in> set ss \<Longrightarrow> phase_of l s \<noteq> Unstarted"
  shows "\<exists>l'. run_life mx (map LStop ss) l = Some l' \<and> crash (base l') = None \<and>
    stages (base l') = stages (base l) \<and> left l' = left l \<and> phase_of l' = phase_of l \<and>
    next_cl (sw (base l')) = next_cl (sw (base l)) \<and> stopped (base l') = (\<lambda>s. s \<in> set ss \<or> stopped (base l) s)"
  using assms
proof (induction ss arbitrary: l)
  case Nil
  then show ?case by simp
next
  case (Cons s ss)
  let ?l1 = "l\<lparr>base := (base l)\<lparr>sw := close_all s (sw (base l)), stopped := (stopped (base l))(s := True)\<rparr>\<rparr>"
  have "life_perform mx (LStop s) l = Some ?l1"
    using Cons.prems by (simp add: life_perform_def stop_server_def perform_def)
  moreover from Cons.IH [of ?l1] Cons.prems obtain l' where "run_life mx (map LStop ss) ?l1 = Some l'"
    "crash (base l') = None" "stages (base l') = stages (base l)" "left l' = left l" "phase_of l' = phase_of l"
    "next_cl (sw (base l')) = next_cl (close_all s (sw (base l)))"
    "stopped (base l') = (\<lambda>r. r \<in> set ss \<or> ((stopped (base l))(s := True)) r)"
    by auto
  ultimately show ?case by (auto simp: close_all_def fun_eq_iff)
qed

lemma all_close:
  assumes "crash (base l) = None" "distinct ss"
    and "\<And>s. s \<in> set ss \<Longrightarrow> phase_of l s = Listening \<and> stopped (base l) s"
  shows "\<exists>l'. run_life mx (map LClose ss) l = Some l' \<and> base l' = base l \<and> left l' = left l \<and>
    (\<forall>s. phase_of l' s = (if s \<in> set ss then Closed else phase_of l s))"
  using assms
proof (induction ss arbitrary: l)
  case Nil
  then show ?case by simp
next
  case (Cons s ss)
  let ?l1 = "wg_add s (- 1) (l\<lparr>phase_of := (phase_of l)(s := Closed)\<rparr>)"
  have "life_perform mx (LClose s) l = Some ?l1"
    using Cons.prems by (simp add: life_perform_def close_listener_def)
  moreover have "phase_of ?l1 r = Listening \<and> stopped (base ?l1) r" if "r \<in> set ss" for r
    using Cons.prems(2,3) that by auto
  from Cons.IH [OF _ _ this] Cons.prems(1,2) obtain l' where "run_life mx (map LClose ss) ?l1 = Some l'"
    "base l' = base l" "left l' = left l" "\<And>r. phase_of l' r = (if r \<in> set ss then Closed else phase_of ?l1 r)"
    by auto
  ultimately show ?case by auto
qed

lemma drain_drains:
  assumes inv: "life_inv l" and c: "crash (base l) = None" and d: "distinct servers" "waits_for_all servers l"
    and started: "\<And>s. s \<in> set servers \<Longrightarrow> phase_of l s \<noteq> Unstarted"
    and b: "\<And>x st. stages (base l) x = Some st \<Longrightarrow> between_commands st"
  shows "\<exists>l'. run_life mx (drain pk servers l) l = Some l' \<and> crash (base l') = None \<and> wait_returns servers l'"
proof -
  from all_stop [OF c started, where ss = servers and mx = mx] obtain l1 where l1: "run_life mx (map LStop servers) l = Some l1"
    "crash (base l1) = None" "stages (base l1) = stages (base l)" "left l1 = left l" "phase_of l1 = phase_of l"
    "next_cl (sw (base l1)) = next_cl (sw (base l))" "\<And>s. s \<in> set servers \<Longrightarrow> stopped (base l1) s"
    by auto
  let ?ls = "filter (\<lambda>s. phase_of l s = Listening) servers"
  from all_close [of l1 ?ls mx] l1 d(1) obtain l2 where l2: "run_life mx (map LClose ?ls) l1 = Some l2"
    "base l2 = base l1" "left l2 = left l" "\<And>s. phase_of l2 s = (if s \<in> set ?ls then Closed else phase_of l s)"
    by auto
  have i2: "life_inv l2" using run_life_inv [OF run_life_inv [OF inv l1(1)] l2(1)] .
  have "\<exists>st. stages (base l2) x = Some st \<and> between_commands st \<and> x \<notin> set (left l2)" if "x \<in> set (remaining l)" for x
    using that b l1 l2 by (auto simp: remaining_def)
  moreover have "distinct (remaining l)" by (simp add: remaining_def)
  ultimately obtain l' where l': "run_life mx (concat (map (\<lambda>x. farewell pk x (the (stages (base l2) x))) (remaining l))) l2 = Some l'"
    "crash (base l') = None" "set (left l') = set (remaining l) \<union> set (left l2)" "phase_of l' = phase_of l2"
    "next_cl (sw (base l')) = next_cl (sw (base l2))"
    "\<forall>y. stages (base l') y = None \<longleftrightarrow> stages (base l2) y = None"
    using all_part [OF i2, of "remaining l" mx pk] l1(2) l2(2) by auto
  have run: "run_life mx (drain pk servers l) l = Some l'"
    using l1 l2 l'(1) by (simp add: drain_def run_life_append)
  have "wg l' s = 0" if "s \<in> set servers" for s
  proof -
    have "stages (base l) x \<noteq> None" if "server_of (sw (base l')) x \<noteq> None" for x
      using that life_invD(1) [OF run_life_inv [OF inv run]] l'(6) l1(3) l2(2)
      by (auto simp: server_of_def sys_inv_def)
    then have "open_readers s l' = []"
      using l' l1 l2 by (auto simp: open_readers_def filter_empty_conv remaining_def)
    then show ?thesis
      using life_invD(5) [OF run_life_inv [OF inv run], of s] l'(4) l2(4) that by auto
  qed
  with run l'(2) show ?thesis by (auto simp: wait_returns_def list_all_iff)
qed

end
