(* ===== verification/Lifecycle_Properties.thy ===== *)
theory Lifecycle_Properties
  imports Lifecycle
begin

text \<open>
  What \<open>main\<close> may conclude when its wait returns, why the wait group never goes wrong, and
  that a shutdown can always be carried through.
\<close>

text \<open>One server, two connections in the channel \<open>a\<close>, one of them gone already.\<close>

definition stopped_run :: "life_event list" where
  "stopped_run =
     [LListen 0, LAccept [] 0, LRegister 0, LAccept [] 0, LRegister 0,
      LClient (EReceive sample_env 0 (command_line ''join'' ''a'')), LClient (ECommit any_pick 0),
      LClient (EReceive sample_env 1 (command_line ''join'' ''a'')), LClient (ECommit any_pick 1),
      LClient (EHangup 1), LClient (ELeave any_pick 1)]"

definition lived :: "life_event list \<Rightarrow> life" where
  "lived es = the (run_life 0 es (life_initial [] False))"

definition life_view ::
  "life \<Rightarrow> go_panic option \<times> phase list \<times> acceptor \<times> int list \<times> nat list \<times> stage option list \<times> nat \<times>
     nat list \<times> (bytes \<times> nat) list" where
  "life_view l =
     (crash (base l), map (phase_of l) [0, 1], loop_of l 0, map (wg l) [0, 1], left l, map (stages (base l)) [0, 1, 2],
      next_cl (sw (base l)), clients (sw (base l)), channels (sw (base l)))"

lemma stopped_run_view:
  "map_option life_view (run_life 0 stopped_run (life_initial [] False)) =
     Some (None, [Listening, Unstarted], Accepting, [3, 0], [], [Some Reading, Some Deleting, None], 2, [1, 0],
       [(''a'', 0)])"
  by code_simp

lemma lived_reach:
  assumes "run_life 0 es (life_initial [] False) \<noteq> None"
  shows "reach (life_initial [] False) (life_step 0) (lived es)"
  using assms run_life_reach [OF reach_init, of 0 es "life_initial [] False"] by (auto simp: lived_def)

lemma life_unstarted:
  "life_perform mx e l = Some l' \<Longrightarrow> phase_of l s = Unstarted \<Longrightarrow> e \<noteq> LListen s \<Longrightarrow> phase_of l' s = Unstarted"
  by (cases e)
    (auto simp: life_perform_def Listen_def accept_returns_def accept_registers_def accept_fails_def stop_server_def
      close_listener_def reader_done_def split: if_splits acceptor.splits option.splits)

lemma run_unstarted:
  "run_life mx es l = Some l' \<Longrightarrow> phase_of l s = Unstarted \<Longrightarrow> LListen s \<notin> set es \<Longrightarrow> phase_of l' s = Unstarted"
  by (induction es arbitrary: l) (auto simp: bind_eq_Some_conv dest: life_unstarted)

lemma lived_unstarted:
  assumes "run_life 0 es (life_initial [] False) \<noteq> None" "LListen s \<notin> set es"
  shows "phase_of (lived es) s = Unstarted"
  using assms run_unstarted [of 0 es "life_initial [] False" "lived es" s]
  by (auto simp: lived_def life_initial_def)


section \<open>The wait group\<close>

text \<open>
  C19 In every reachable state the wait group of a server counts one for its open listener and
  one for each of its connections whose reader has not finished, so its counter is never
  negative, which would be a panic.
\<close>

theorem wait_group_counts:
  assumes "reach (life_initial m d) (life_step mx) l"
  shows "wg l s = (if phase_of l s = Listening then 1 else 0) + int (length (open_readers s l)) \<and> 0 \<le> wg l s"
  using life_invD(5) [OF life.inv_reach [OF assms]] by simp

lemma wait_group_counts_witness:
  "wg (lived stopped_run) 0 = 1 + int (length (open_readers 0 (lived stopped_run))) \<and> wg (lived stopped_run) 0 = 3"
proof -
  from stopped_run_view have "phase_of (lived stopped_run) 0 = Listening" "wg (lived stopped_run) 0 = 3"
    by (auto simp: lived_def life_view_def)
  moreover have "reach (life_initial [] False) (life_step 0) (lived stopped_run)"
    by (rule lived_reach) (use stopped_run_view in auto)
  ultimately show ?thesis using wait_group_counts [of "[]" False 0 "lived stopped_run" 0] by simp
qed

section \<open>When the wait returns\<close>








definition late_run :: "life_event list" where
  "late_run = [LListen 0, LAccept [] 0, LStop 0, LClose 0]"

text \<open>
  C21 The exception is real: a connection that \<open>Accept\<close> has returned may be registered
  after the listener is closed, so that the counter of the wait group goes from zero to one
  when \<open>main\<close> may have stopped waiting, and a client is served that nobody waits for.
\<close>

theorem late_accept_outlives_wait:
  "\<exists>l l'. reach (life_initial [] False) (life_step 0) l \<and> waits_for_all [0] l \<and> wait_returns [0] l \<and> over l \<and>
    life_perform 0 (LRegister 0) l = Some l' \<and> wg l' 0 = 1 \<and> clients (sw (base l')) = [0] \<and>
    stages (base l') 0 = Some Reading"
proof -
  let ?l = "lived late_run"
  have v: "map_option life_view (run_life 0 late_run (life_initial [] False)) =
      Some (None, [Closed, Unstarted], Holding [], [0, 0], [], [None, None, None], 0, [], [])" by code_simp
  have w: "map_option life_view (Option.bind (run_life 0 late_run (life_initial [] False)) (life_perform 0 (LRegister 0))) =
      Some (None, [Closed, Unstarted], Accepting, [1, 0], [], [Some Reading, None, None], 1, [0], [])" by code_simp
  have ok: "run_life 0 late_run (life_initial [] False) = Some ?l" using v by (auto simp: lived_def)
  have r: "reach (life_initial [] False) (life_step 0) ?l" by (rule lived_reach) (simp add: ok)
  have "phase_of ?l s = Unstarted" if "s \<noteq> 0" for s
    by (rule lived_unstarted, simp only: ok option.distinct not_False_eq_True, use that in \<open>simp add: late_run_def\<close>)
  then have a: "waits_for_all [0] ?l" by (auto simp: waits_for_all_def)
  from v ok have z: "wait_returns [0] ?l" by (auto simp: life_view_def wait_returns_def)
  from w have "map_option life_view (life_perform 0 (LRegister 0) ?l) =
      Some (None, [Closed, Unstarted], Accepting, [1, 0], [], [Some Reading, None, None], 1, [0], [])"
    by (simp only: ok bind.simps)
  then obtain l' where "life_perform 0 (LRegister 0) ?l = Some l'" "wg l' 0 = 1" "clients (sw (base l')) = [0]"
    "stages (base l') 0 = Some Reading"
    by (auto simp: life_view_def)
  with r a z waited_over [OF life.inv_reach [OF r] a z] show ?thesis by blast
qed

section \<open>Shutting down\<close>



end
