(* ===== verification/Startup_Properties.thy ===== *)
theory Startup_Properties
  imports Startup
begin

text \<open>
  From the command line to the running server: the flags that were given are the flags that are
  read, what wins over what, what a configured server is guaranteed, and when the daemon
  commands and the server agree on the PID file.
\<close>

definition sample_crypto :: crypto where
  "sample_crypto =
     \<lparr>rand_Int = (\<lambda>_. Some 7), Now = (\<lambda>i. int i), AddYears = (\<lambda>y t. t + y * 31536000 * 10 ^ 9), GenerateKey = Some ''k'',
      PublicKey = id, CreateCertificate = (\<lambda>_ _ pub priv. Some (pub @ priv)), pem_Encode = (\<lambda>t b. Some (t @ b)),
      MarshalPKCS8PrivateKey = Some, X509KeyPair = (\<lambda>c k. Some (c @ k)), LoadX509KeyPair = (\<lambda>_ _. None),
      DefaultACME = \<lparr>Email = [], Agreed = False, CA = []\<rparr>, ManageSync = (\<lambda>_ _. None)\<rparr>"

definition startup_env :: environment where
  "startup_env =
     \<lparr>os_Stat = (\<lambda>_. NotExist), os_ReadFile = (\<lambda>_. None), os_OpenLog = (\<lambda>_. False),
      filepath_Abs = Some, filepath_EvalSymlinks = (\<lambda>_. None), os_WriteFile = (\<lambda>_. Wrote 20), os_Getpid = 4211,
      ParseFloat = (\<lambda>_. None), os_crypto = sample_crypto, runtime_GOOS = ''linux'', runtime_GOARCH = ''amd64'',
      runtime_Version = ''go1.24'', ReadBuildInfo = None\<rparr>"

definition sample_flags :: "setting_arg list" where
  "sample_flags =
     [Joined False ''configfile'' ''c'', Spaced True ''port'' ''0x50'', Joined False ''interface6'' ''::1'',
      Joined True ''logfile'' [], Spaced False ''pidfile'' ''/p'', Bare False ''motd_force_display'',
      Joined False ''keyfile'' ''k'']"

lemma sample_well_formed: "list_all well_formed sample_flags" "list_all unmistakable sample_flags"
  by (simp_all add: sample_flags_def flag_of_def registerFlags_def HasPrefix_def)

lemma sample_set_args:
  "map_option (\<lambda>c. (cf_port (vars c), cf_motdAlwaysDisplay (vars c)))
     (set_args (\<lambda>_. None) sample_flags (cli_defaults [] linux_defaults)) = Some (80, True)"
  by code_simp

text \<open>
  However flags are written, with one dash or two, with the value in the same argument or in
  the next one, the parser takes exactly these arguments, sets these flags in this order, exits
  with 2 if a value does not parse, and goes on with the arguments that follow.
\<close>

theorem command_line_roundtrip:
  assumes "list_all well_formed as"
  shows "Parse pf (concat (map render as) @ rest) c =
    (case set_args pf as c of None \<Rightarrow> Exits 2 | Some c' \<Rightarrow> Parse pf rest c')"
  by (rule Parse_render [OF assms])

lemma command_line_roundtrip_witness:
  "\<exists>c. Parse (\<lambda>_. None) (concat (map render sample_flags) @ [''x'', ''-port'']) (cli_defaults [] linux_defaults) =
     Parsed c [''x'', ''-port''] \<and> cf_port (vars c) = 80 \<and> cf_motdAlwaysDisplay (vars c)"
proof -
  from sample_set_args obtain c where "set_args (\<lambda>_. None) sample_flags (cli_defaults [] linux_defaults) = Some c"
    "cf_port (vars c) = 80" "cf_motdAlwaysDisplay (vars c)" by auto
  with command_line_roundtrip [OF sample_well_formed(1), of "\<lambda>_. None" "[''x'', ''-port'']" "cli_defaults [] linux_defaults"]
  show ?thesis by (simp add: Parse.simps(2))
qed

text \<open>
  C35 What wins, from the arguments to the configured server: for every string option but the
  message of the day the last flag of that name, else the last line of the configuration file
  (itself named by the last \<open>configfile\<close> flag, or the default one), else the default; for the
  port a flag within the range is used as it is.
\<close>

theorem startup_priority:
  assumes "list_all well_formed as" "Configure env conf d (concat (map render as)) = Configured k"
  shows "(n \<in> set string_options \<and> n \<noteq> ''motd'' \<longrightarrow>
      field_of n (config k) =
        (case last_value n as of
           Some v \<Rightarrow> Inl v
         | None \<Rightarrow>
             (case map_of (file_options env (case last_value ''configfile'' as of Some f \<Rightarrow> f | None \<Rightarrow> conf)) n of
                Some v \<Rightarrow> Inl v
              | None \<Rightarrow> field_of n d))) \<and>
    (last_value ''port'' as = Some v \<and> ParseInt v = Some i \<and> 1 \<le> i \<and> i \<le> 65535 \<longrightarrow> cf_port (config k) = i)"
  using assms
proof (rule Configure_render)
  fix c
  assume c: "set_args (ParseFloat env) as (cli_defaults conf d) = Some c"
    and k: "config k = handleMotd (validateSettings (raw_settings env c))"
  have f: "confFile c = (case last_value ''configfile'' as of Some f \<Rightarrow> f | None \<Rightarrow> conf)"
    using set_args_confFile [OF c] by (simp add: cli_defaults_def split: option.split)
  have p: "cf_port (config k) = i" if v: "last_value ''port'' as = Some v" "ParseInt v = Some i" "1 \<le> i" "i \<le> 65535"
  proof -
    have "cf_port (raw_settings env c) = i"
      using raw_settings_int [OF c, of "''port''"] v(1,2) by (simp add: int_options_def field_of_def)
    with v(3,4) show ?thesis by (simp add: k handleMotd_eq validateSettings_def Let_def)
  qed
  show ?thesis
    using raw_settings_string [OF c, of n] checked_string [of n] p unfolding f by (simp add: k)
qed

lemma sample_configures:
  assumes "list_all well_formed as" "set_args (\<lambda>_. None) as (cli_defaults [] linux_defaults) = Some c"
    and d: "cf_domain (raw_settings startup_env c) = []" "cf_key (raw_settings startup_env c) \<noteq> []"
  obtains k where "Configure startup_env [] linux_defaults (concat (map render as)) = Configured k"
proof -
  let ?s = "handleMotd (validateSettings (raw_settings startup_env c))"
  have p: "Parse (ParseFloat startup_env) (concat (map render as)) (cli_defaults [] linux_defaults) = Parsed c []"
    using Parse_render [OF assms(1), of "\<lambda>_. None" "[]"] assms(2) by (simp add: startup_env_def)
  have "cf_domain ?s = []"
    using checked_string [of "''domain''" "raw_settings startup_env c"] d(1) by (simp add: string_options_def field_of_def)
  moreover have "cf_key ?s \<noteq> []"
    using checked_string [of "''keyfile''" "raw_settings startup_env c"] d(2) by (simp add: string_options_def field_of_def)
  ultimately have "buildTLSConfig (os_Stat startup_env) linux_defaults ?s = Inr SelfSigned"
    by (simp add: buildTLSConfig_def missing_file_def fileExists_def startup_env_def linux_defaults_def defaults_def)
  moreover have "\<exists>c. build_choice (os_crypto startup_env) ?s SelfSigned = Inr c"
    by (simp add: build_choice_def buildSelfSignedConfig_def gen_cert_def startup_env_def sample_crypto_def)
  ultimately have "\<exists>k. Configure startup_env [] linux_defaults (concat (map render as)) = Configured k"
    using p by (auto simp: Configure_def raw_settings_def Let_def)
  with that show thesis by blast
qed

lemma sample_no_file: "file_options startup_env f = []"
  by (simp add: file_options_def conf_read_python_def startup_env_def)

lemma sample_configured:
  obtains k where "Configure startup_env [] linux_defaults (concat (map render sample_flags)) = Configured k"
proof -
  from sample_set_args obtain c where c: "set_args (\<lambda>_. None) sample_flags (cli_defaults [] linux_defaults) = Some c" by auto
  then have s: "set_args (ParseFloat startup_env) sample_flags (cli_defaults [] linux_defaults) = Some c"
    by (simp add: startup_env_def)
  have "last_value ''domain'' sample_flags = None" "last_value ''keyfile'' sample_flags = Some ''k''"
    by (simp_all add: last_value_def sample_flags_def)
  with raw_settings_string [OF s, of "''domain''"] raw_settings_string [OF s, of "''keyfile''"]
  have "cf_domain (raw_settings startup_env c) = []" "cf_key (raw_settings startup_env c) \<noteq> []"
    by (simp_all add: string_options_def field_of_def sample_no_file linux_defaults_def defaults_def)
  from sample_configures [OF sample_well_formed(1) c this] that show thesis by blast
qed

lemma startup_priority_witness:
  "\<exists>k. Configure startup_env [] linux_defaults (concat (map render sample_flags)) = Configured k \<and>
     cf_pidfile (config k) = ''/p'' \<and> cf_port (config k) = 80 \<and> cf_cert (config k) = cf_cert linux_defaults"
proof (rule sample_configured)
  fix k
  assume k: "Configure startup_env [] linux_defaults (concat (map render sample_flags)) = Configured k"
  have v: "last_value ''pidfile'' sample_flags = Some ''/p''" "last_value ''port'' sample_flags = Some ''0x50''"
    "last_value ''certfile'' sample_flags = None"
    by (simp_all add: last_value_def sample_flags_def)
  note o = sample_no_file
  have "ParseInt ''0x50'' = Some 80" by code_simp
  then show ?thesis
    using startup_priority [OF sample_well_formed(1) k, of "''pidfile''" "''0x50''" 80]
      startup_priority [OF sample_well_formed(1) k, of "''certfile''"] v k o
    by (simp add: string_options_def field_of_def)
qed



text \<open>
  C37 The daemon commands and the server agree on the PID file: if the arguments after the
  command are flags of the server of which none has a value that looks like the PID file flag,
  and no PID file flag follows one written with a single dash, then a child that \<open>start\<close> or
  \<open>restart\<close> launches takes its arguments as flags, and once configured it uses the PID file the
  commands with these arguments look in, whatever the configuration file says.
\<close>

theorem daemon_and_server_agree:
  assumes "list_all well_formed as" "list_all unmistakable as"
    and "pidfile_last as"
    and "StartChild args \<in> set (daemonCmd (cf_pidfile d) content alive0 alive ok cmd (concat (map render as)))"
  shows "main env listens how conf d alive1 polls ok1 args = serve env listens how conf d args \<and>
    (Configure env conf d args = Configured k \<longrightarrow>
       cf_pidfile (config k) = findPidFile (cf_pidfile d) (concat (map render as)))"
proof -
  let ?d = "cf_pidfile d" and ?r = "concat (map render as)"
  have "StartChild args \<in> set (daemonStart ok ?r (findPidFile ?d ?r))"
    using assms(4) by (cases cmd) (auto simp: daemonCmd_def Let_def split: if_splits prod.splits)
  from daemonStart_render [OF assms(1,2) this] have args: "args = concat (map render (child_flags ?d as))" .
  have wf: "list_all well_formed (child_flags ?d as)"
    using assms(1) by (simp add: child_flags_def flag_of_def registerFlags_def)
  have last: "last_value ''pidfile'' (child_flags ?d as) = Some (findPidFile ?d ?r)"
    using child_last_value [OF assms(3)] findPidFile_render(1) [OF assms(1,2)] by simp
  then obtain a fs where fs: "child_flags ?d as = a # fs" by (cases "child_flags ?d as") (auto simp: last_value_def)
  have "\<exists>s rest. args = s # rest \<and> hd s = CHR ''-''"
    unfolding args fs by (cases a) (simp_all add: dashes_def)
  then obtain s rest where s: "args = s # rest" "hd s = CHR ''-''" by blast
  have "s \<noteq> ''version'' \<and> s \<noteq> ''buildinfo'' \<and> parse_command s = None"
    using s(2) by (cases s) (simp_all add: parse_command_def)
  with s(1) have "main env listens how conf d alive1 polls ok1 args = serve env listens how conf d args"
    by (simp add: main_def)
  moreover have "cf_pidfile (config k) = findPidFile ?d ?r" if k: "Configure env conf d args = Configured k"
    using k unfolding args
  proof (rule Configure_render [OF wf])
    fix c
    assume "set_args (ParseFloat env) (child_flags ?d as) (cli_defaults conf d) = Some c"
      and c: "config k = handleMotd (validateSettings (raw_settings env c))"
    from raw_settings_string [OF this(1), of "''pidfile''"] last have "cf_pidfile (raw_settings env c) = findPidFile ?d ?r"
      by (simp add: string_options_def field_of_pidfile)
    then show ?thesis by (simp add: c validateSettings_pidfile handleMotd_pidfile)
  qed
  ultimately show ?thesis by blast
qed

lemma daemon_and_server_agree_witness:
  "\<exists>k args. StartChild args \<in> set (daemonCmd (cf_pidfile linux_defaults) None False (\<lambda>_. False) True Start
       (concat (map render sample_flags))) \<and>
     Configure startup_env [] linux_defaults args = Configured k \<and> cf_pidfile (config k) = ''/p''"
proof (rule sample_configured)
  fix k
  assume k: "Configure startup_env [] linux_defaults (concat (map render sample_flags)) = Configured k"
  let ?r = "concat (map render sample_flags)"
  have "pidfile_last sample_flags" by (simp add: sample_flags_def names_pidfile_def)
  note agree = daemon_and_server_agree [OF sample_well_formed this]
  have "snd (child_args ?r)" unfolding findPidFile_render(2) [OF sample_well_formed]
    by (simp add: sample_flags_def names_pidfile_def)
  then have "daemonStart True ?r p = [StartChild ?r, WritePid p]" for p
    using child_args_fst [of ?r] by (simp add: daemonStart_def case_prod_unfold)
  then have s: "StartChild ?r \<in> set (daemonCmd (cf_pidfile linux_defaults) None False (\<lambda>_. False) True Start ?r)"
    by (simp add: daemonCmd_def daemonStatus_def readPid_def)
  have "findPidFile (cf_pidfile linux_defaults) ?r = ''/p''"
    unfolding findPidFile_render(1) [OF sample_well_formed] by (simp add: sample_flags_def names_pidfile_def)
  with agree [OF s, where env = startup_env and conf = "[]" and k = k] k have "cf_pidfile (config k) = ''/p''" by simp
  with s k show ?thesis by blast
qed

text \<open>
  A session of daemon commands with the same arguments, through the PID file: \<open>start\<close>
  leaves the number of the child there, which \<open>status\<close> then reads and finds alive exactly if
  it is; a second \<open>start\<close> is refused while it lives; \<open>stop\<close> sends it the signal first and,
  if it ends within fifty polls, removes the file, after which nothing runs; \<open>restart\<close>
  signals the old process and leaves the number of the new one, whether the old one ends in
  time (else it is killed) or not. No other file is touched.
\<close>

theorem daemon_session:
  assumes "\<not> snd (daemonStatus (fs (findPidFile dflt rest)) alive0)" "0 < pid" "pid < 2 ^ 63"
  shows "let p = findPidFile dflt rest;
         fs1 = run_actions pid (daemonCmd dflt (fs p) alive0 alive True Start rest) fs;
         stop = daemonCmd dflt (fs1 p) True polls ok Stop rest;
         restart = daemonCmd dflt (fs1 p) True polls True Restart rest
     in fs1 = fs(p \<mapsto> Itoa pid) \<and> daemonStatus (fs1 p) a = (pid, a) \<and>
       daemonCmd dflt (fs1 p) True alive ok Start rest = [Exit 1] \<and>
       hd stop = Kill pid SIGTERM \<and>
       run_actions pid stop fs1 = (if (\<exists>i < 50. \<not> polls i) then fs(p := None) else fs1) \<and>
       hd restart = Kill pid SIGTERM \<and> run_actions pid' restart fs1 = fs(p \<mapsto> Itoa pid') \<and>
       (Kill pid SIGKILL \<in> set restart) = (\<forall>i < 50. polls i)"
proof -
  let ?p = "findPidFile dflt rest" and ?k = "\<exists>i < 50. \<not> polls i"
  let ?fs1 = "run_actions pid (daemonCmd dflt (fs ?p) alive0 alive True Start rest) fs"
  have fs1: "?fs1 = fs(?p \<mapsto> Itoa pid)"
    using assms(1) by (simp add: daemonCmd_def case_prod_unfold Let_def daemonStart_file)
  note s = daemonStatus_Itoa [OF assms(2,3)]
  have w: "waitForProcess polls pid = ?k"
    using assms(2) by (auto simp: waitForProcess_def poll_loop_iff maxAttempts_def pidAlive_def)
  have n: "Kill pid SIGKILL \<notin> set (daemonStart True rest ?p)" by (simp add: daemonStart_def split: prod.split)
  have stop: "daemonCmd dflt (Some (Itoa pid)) True polls ok Stop rest =
      Kill pid SIGTERM # (if ?k then [RemoveFile ?p] else [Exit 1])"
    by (simp add: daemonCmd_def Let_def s w)
  have restart: "daemonCmd dflt (Some (Itoa pid)) True polls True Restart rest =
      Kill pid SIGTERM # (if \<not> ?k then [Kill pid SIGKILL] else []) @ [RemoveFile ?p] @ daemonStart True rest ?p"
    by (simp add: daemonCmd_def Let_def s w)
  have r: "run_actions pid' (daemonCmd dflt (Some (Itoa pid)) True polls True Restart rest) (fs(?p \<mapsto> Itoa pid)) =
      fs(?p \<mapsto> Itoa pid')"
    unfolding restart by (simp add: run_actions_Cons run_actions_append daemonStart_file) (simp add: run_actions_def)
  have st: "run_actions pid (daemonCmd dflt (Some (Itoa pid)) True polls ok Stop rest) (fs(?p \<mapsto> Itoa pid)) =
      (if ?k then fs(?p := None) else fs(?p \<mapsto> Itoa pid))"
    unfolding stop by (auto simp: run_actions_def)
  have "daemonCmd dflt (Some (Itoa pid)) True alive ok Start rest = [Exit 1]"
    by (simp add: daemonCmd_def s)
  with r st n s show ?thesis by (auto simp: Let_def fs1 stop restart)
qed

lemma daemon_session_witness:
  "let fs1 = run_actions 42 (daemonCmd ''/p'' None False (\<lambda>_. False) True Start []) Map.empty
   in daemonStatus (fs1 ''/p'') True = (42, True) \<and>
      run_actions 42 (daemonCmd ''/p'' (fs1 ''/p'') True (\<lambda>i. i < 3) True Stop []) fs1 = Map.empty"
proof -
  let ?fs = "Map.empty :: bytes \<Rightarrow> bytes option"
  have off: "\<not> snd (daemonStatus (?fs (findPidFile ''/p'' [])) False)"
    by (simp add: daemonStatus_def readPid_def)
  let ?fs1 = "run_actions 42 (daemonCmd ''/p'' None False (\<lambda>_. False) True Start []) ?fs"
  have c: "(\<exists>i < 50. \<not> (i < (3 :: nat))) = True" by (intro eqTrueI exI [of _ 3]) simp
  have f: "findPidFile ''/p'' [] = ''/p''" by simp
  have r: "(0 :: int) < 42" "(42 :: int) < 2 ^ 63" by simp_all
  note session = daemon_session [where fs = "?fs" and dflt = "''/p''" and rest = "[]", OF off r, where pid' = 0
      and alive = "\<lambda>_. False" and polls = "\<lambda>i. i < 3" and ok = True and a = True]
  have "daemonStatus (?fs1 ''/p'') True = (42, True)"
    using session [unfolded Let_def f] by (elim conjE) assumption
  moreover have "run_actions 42 (daemonCmd ''/p'' (?fs1 ''/p'') True (\<lambda>i. i < 3) True Stop []) ?fs1 = ?fs(''/p'' := None)"
    using session [unfolded Let_def f c if_True] by (elim conjE) assumption
  moreover have "?fs(''/p'' := None) = ?fs" by simp
  ultimately show ?thesis unfolding Let_def by (intro conjI) (simp_all only:)
qed

text \<open>The condition is needed: of two PID file flags the commands take the first, the server the last.\<close>

lemma two_pidfiles_disagree:
  "findPidFile [] [''-pidfile'', ''a'', ''--pidfile'', ''b''] = ''a'' \<and>
   (\<exists>c. Parse pf [''-pidfile'', ''a'', ''--pidfile'', ''b''] (cli_defaults [] linux_defaults) = Parsed c [] \<and>
      cf_pidfile (vars c) = ''b'')"
  using Parse_render [of "[Spaced False ''pidfile'' ''a'', Spaced True ''pidfile'' ''b'']" pf "[]" "cli_defaults [] linux_defaults"]
  by (simp add: flag_of_def registerFlags_def set_arg_def dashes_def on_vars_def mark_set_def)

end
