(* ===== verification/Locks.thy ===== *)
theory Locks
  imports Prelude
begin

text \<open>
  The locks of the server, across all its files: the mutex of a \<open>Server\<close>, the read-write
  locks of a \<open>ClientChannel\<close> and of a \<open>Client\<close>, and the lock \<open>mu\<close> of the global tables.
  Every function is the list of what it does with them and with the memory that goroutines
  share, in its order; goroutines run such lists against each other, with the rules of
  \<open>sync.RWMutex\<close>.
\<close>

section \<open>Locks, shared memory, and what functions do with them\<close>

datatype lock =
    SrvLock nat
  | ChanLock nat
  | Mu
  | CliLock nat

datatype mode = Shared | Exclusive

text \<open>
  What is made by one goroutine and then handed to others: the context of a server that listens
  (to \<open>go s.accept\<close>), a client (to \<open>go client.listen\<close>), its queue and ticker (to the
  goroutines that \<open>listen\<close> starts), and a channel (through the table of the channels).
\<close>

datatype object =
    Loop nat
  | Conn nat
  | Queue nat
  | Chan nat

text \<open>
  The memory. Of a client \<open>c\<close>, \<open>auth\<close>, \<open>connectionType\<close>, \<open>version\<close> and
  \<open>closed\<close> change after it is handed over; \<open>Fixed\<close> is what does not change of an object any
  more: \<open>ctx\<close> and \<open>Stop\<close> of a server; \<open>conn\<close>, \<open>messageTerminator\<close>, \<open>id\<close>,
  \<open>ip\<close>, \<open>ctx\<close>, \<open>Close\<close> and \<open>s\<close> of a client; \<open>t\<close> and \<open>sd\<close> of its queue;
  \<open>name\<close>, \<open>password\<close> and \<open>locked\<close> of a channel. Atomic counters, the queue behind
  \<open>sd\<close> and what is set before the first goroutine starts are not in question.
\<close>

datatype client_var = ChannelVar | AuthVar | TypeVar | VersionVar | ClosedVar

datatype field =
    Terminator nat
  | ClientTable
  | ChannelTable
  | Members nat
  | Var client_var nat
  | Fixed object

text \<open>
  A writer first announces itself (\<open>Want\<close>), which keeps new readers out, and then waits.
  \<open>Publish\<close> marks where an object becomes reachable for others.
\<close>

datatype act =
    Want lock
  | Acquire mode lock
  | Release mode lock
  | Read field
  | Write field
  | Publish object

definition exclusive :: "lock \<Rightarrow> act list \<Rightarrow> act list" where
  "exclusive l body = Want l # Acquire Exclusive l # body @ [Release Exclusive l]"

definition shared :: "lock \<Rightarrow> act list \<Rightarrow> act list" where
  "shared l body = Acquire Shared l # body @ [Release Shared l]"

subsection \<open>Clients\<close>

text \<open>The getters (\<open>Channel\<close>, \<open>ID\<close>, \<open>IP\<close>, ...) and the setters of a client.\<close>

definition client_get :: "nat \<Rightarrow> field \<Rightarrow> act list" where "client_get x f = shared (CliLock x) [Read f]"

definition client_set :: "nat \<Rightarrow> field \<Rightarrow> act list" where "client_set x f = exclusive (CliLock x) [Write f]"

definition ID_locks :: "nat \<Rightarrow> act list" where "ID_locks x = client_get x (Fixed (Conn x))"

text \<open>\<open>Send\<close> asks for the number of the client when it logs a full queue.\<close>

definition Send_locks :: "(nat \<Rightarrow> bool) \<Rightarrow> nat \<Rightarrow> act list" where
  "Send_locks full x = Read (Fixed (Queue x)) # Read (Fixed (Conn x)) # (if full x then ID_locks x else [])"

definition sends_locks :: "(nat \<Rightarrow> bool) \<Rightarrow> nat list \<Rightarrow> act list" where
  "sends_locks full xs = concat (map (Send_locks full) xs)"

definition CloseGracefully_locks :: "nat \<Rightarrow> act list" where
  "CloseGracefully_locks x = [Read (Fixed (Queue x)), Read (Fixed (Conn x))]"

subsection \<open>Channels\<close>

text \<open>
  \<open>Add\<close> for client \<open>x\<close> when the others of the channel are \<open>others\<close>: \<open>auth\<close>, whether it is
  authorised; \<open>exists\<close>, whether it is a member already; \<open>motd\<close>, whether there is a message.
\<close>

definition Add_body :: "(nat \<Rightarrow> bool) \<Rightarrow> nat \<Rightarrow> nat \<Rightarrow> nat list \<Rightarrow> bool \<Rightarrow> bool \<Rightarrow> bool \<Rightarrow> act list" where
  "Add_body full r x others auth exists motd =
     client_set x (Var AuthVar x) @ ID_locks x @ client_get x (Var TypeVar x) @ [Read (Fixed (Chan r))] @
     (if auth then client_set x (Var AuthVar x) else []) @ [Read (Members r)] @
     (if exists then []
      else Write (Members r) # client_set x (Var ChannelVar x) @ Read (Members r) # sends_locks full others @
        Read (Members r) # concat (map (\<lambda>y. client_get y (Var TypeVar y)) others) @
        Send_locks full x @ (if motd then Send_locks full x else []))"

definition Add_locks :: "(nat \<Rightarrow> bool) \<Rightarrow> nat \<Rightarrow> nat \<Rightarrow> nat list \<Rightarrow> bool \<Rightarrow> bool \<Rightarrow> bool \<Rightarrow> act list" where
  "Add_locks full r x others auth exists motd = exclusive (ChanLock r) (Add_body full r x others auth exists motd)"

text \<open>\<open>there\<close>: the name is in the table.\<close>

definition RemoveChannel_locks :: "bool \<Rightarrow> act list" where
  "RemoveChannel_locks there =
     exclusive Mu (Read ChannelTable # (if there then [Write ChannelTable, Read ChannelTable] else []))"

text \<open>
  \<open>quitLocked\<close> with what is left in the channel (\<open>None\<close> is a nil map); the channel's lock is held.
\<close>

definition quitLocked_locks :: "nat \<Rightarrow> nat list option \<Rightarrow> bool \<Rightarrow> act list" where
  "quitLocked_locks r left there =
     Read (Members r) #
     (case left of
        None \<Rightarrow> []
      | Some ys \<Rightarrow> concat (map (\<lambda>y. client_set y (Var ChannelVar y)) ys) @ [Write (Members r)]) @
     Read (Fixed (Chan r)) # RemoveChannel_locks there"

text \<open>\<open>others\<close> are the members once client \<open>x\<close> is deleted.\<close>

definition Remove_locks :: "(nat \<Rightarrow> bool) \<Rightarrow> nat \<Rightarrow> nat \<Rightarrow> nat list option \<Rightarrow> bool \<Rightarrow> act list" where
  "Remove_locks full r x others there =
     exclusive (ChanLock r)
       (ID_locks x @ client_get x (Var TypeVar x) @ Write (Members r) # client_set x (Var ChannelVar x) @
        Read (Members r) # sends_locks full (case others of None \<Rightarrow> [] | Some ys \<Rightarrow> ys) @
        Read (Fixed (Chan r)) # Read (Members r) #
        (case others of Some (y # ys) \<Rightarrow> [] | _ \<Rightarrow> quitLocked_locks r others there))"

definition SendAll_locks :: "(nat \<Rightarrow> bool) \<Rightarrow> nat \<Rightarrow> nat list \<Rightarrow> act list" where
  "SendAll_locks full r others = shared (ChanLock r) (Read (Members r) # sends_locks full others)"

text \<open>\<open>lonely\<close>: the channel has at most one member.\<close>

definition SendOthers_locks :: "(nat \<Rightarrow> bool) \<Rightarrow> nat \<Rightarrow> nat \<Rightarrow> bool \<Rightarrow> nat list \<Rightarrow> act list" where
  "SendOthers_locks full r x lonely others =
     shared (ChanLock r) (Read (Members r) #
       (if lonely then Send_locks full x else Read (Members r) # sends_locks full others))"

definition Name_locks :: "nat \<Rightarrow> act list" where
  "Name_locks r = shared (ChanLock r) [Read (Fixed (Chan r))]"

subsection \<open>The tables\<close>

definition AddClient_locks :: "nat \<Rightarrow> act list" where
  "AddClient_locks x =
     exclusive Mu (client_set x (Fixed (Conn x)) @ Write ClientTable # client_get x (Fixed (Conn x)))"

definition FindClient_locks :: "act list" where "FindClient_locks = shared Mu [Read ClientTable]"

definition FindChannel_locks :: "act list" where "FindChannel_locks = shared Mu [Read ChannelTable]"

text \<open>\<open>seen\<close> are the channels that are compared with the key.\<close>

definition channelKeyTaken_locks :: "nat list \<Rightarrow> act list" where
  "channelKeyTaken_locks seen = shared Mu (Read ChannelTable # map (\<lambda>r. Read (Fixed (Chan r))) seen)"

text \<open>\<open>AddChannel\<close> locks the new channel while it holds \<open>mu\<close>, against the order of the others.\<close>

definition AddChannel_locks :: "(nat \<Rightarrow> bool) \<Rightarrow> nat \<Rightarrow> nat \<Rightarrow> bool \<Rightarrow> bool \<Rightarrow> act list" where
  "AddChannel_locks full r x auth motd =
     exclusive Mu ([Write (Fixed (Chan r)), Write (Members r)] @ Add_locks full r x [] auth False motd @
       [Write ChannelTable, Publish (Chan r)])"

text \<open>\<open>known\<close>: the client is in the table.\<close>

definition RemoveClient_locks :: "(nat \<Rightarrow> bool) \<Rightarrow> nat \<Rightarrow> (nat \<times> nat list option \<times> bool) option \<Rightarrow> bool \<Rightarrow> act list" where
  "RemoveClient_locks full x chan known =
     client_get x (Var ChannelVar x) @
     (case chan of None \<Rightarrow> [] | Some (r, others, there) \<Rightarrow> Remove_locks full r x others there) @
     exclusive Mu (ID_locks x @ Read ClientTable # (if known then [Write ClientTable, Read ClientTable] else []))"

subsection \<open>Messages\<close>

text \<open>
  What comes after the look-ups of \<open>MessageReceived\<close>: the end of the goroutine for an unknown
  client, a relay (for JSON, or raw), nothing, or a command. A join ends with the look-up of the
  channel; the \<open>Add\<close> or \<open>AddChannel\<close> that follows is an activity of its own, since no lock
  is held in between.
\<close>

datatype handling =
    Unknown
  | RelayJson nat bool "nat list"
  | RelayRaw nat "nat list"
  | Ignored bool
  | JoinRefused
  | JoinLooked
  | VersionSet bool
  | KeyMade "nat list list" bool

fun handling_locks :: "(nat \<Rightarrow> bool) \<Rightarrow> nat \<Rightarrow> handling \<Rightarrow> act list" where
  "handling_locks full x Unknown = []"
| "handling_locks full x (RelayJson r lonely others) = SendOthers_locks full r x lonely others"
| "handling_locks full x (RelayRaw r others) = SendAll_locks full r others"
| "handling_locks full x (Ignored logged) = (if logged then ID_locks x else [])"
| "handling_locks full x JoinRefused = client_get x (Var ChannelVar x) @ Send_locks full x"
| "handling_locks full x JoinLooked =
     client_get x (Var ChannelVar x) @ client_set x (Var TypeVar x) @ FindChannel_locks"
| "handling_locks full x (VersionSet valid) = (if valid then client_set x (Var VersionVar x) else []) @ ID_locks x"
| "handling_locks full x (KeyMade seens ok) =
     concat (map channelKeyTaken_locks seens) @
     (if ok then Send_locks full x @ ID_locks x @ CloseGracefully_locks x else ID_locks x @ [Read (Fixed (Conn x))])"

definition MessageReceived_locks :: "(nat \<Rightarrow> bool) \<Rightarrow> nat \<Rightarrow> handling \<Rightarrow> act list" where
  "MessageReceived_locks full x h =
     ID_locks x @ FindClient_locks @
     (if h = Unknown then [] else client_get x (Var ChannelVar x) @ handling_locks full x h)"

section \<open>Activities\<close>

text \<open>
  What a goroutine does from one moment without locks to the next. \<open>Listen\<close> hands the server to
  the accept loop; that one registers a client under the lock of its server and hands it to
  \<open>listen\<close>, which makes the queue and starts the writer and the goroutine that pings and tears
  down; this one closes the client under both locks.
\<close>

datatype activity =
    SetTerminator nat
  | Listening nat bool
  | Accepting nat
  | Stopping nat
  | Register nat nat
  | ListenStart nat
  | Writing nat
  | Ping "nat \<Rightarrow> bool" nat
  | Teardown nat nat
  | Receive "nat \<Rightarrow> bool" nat handling
  | JoinExisting "nat \<Rightarrow> bool" nat nat "nat list" bool bool bool
  | JoinNew "nat \<Rightarrow> bool" nat nat bool bool
  | ReadError nat
  | Leave "nat \<Rightarrow> bool" nat "(nat \<times> nat list option \<times> bool) option" bool
  | AskName nat

fun activity_locks :: "activity \<Rightarrow> act list" where
  "activity_locks (SetTerminator s) = exclusive (SrvLock s) [Write (Terminator s)]"
| "activity_locks (Listening s ok) =
     exclusive (SrvLock s) [] @
     (if ok then exclusive (SrvLock s) [Write (Fixed (Loop s))] @ [Publish (Loop s)] else [])"
| "activity_locks (Accepting s) = exclusive (SrvLock s) [] @ [Read (Fixed (Loop s))]"
| "activity_locks (Stopping s) = [Read (Fixed (Loop s))]"
| "activity_locks (Register s x) =
     exclusive (SrvLock s)
       ([Read (Terminator s), Write (Fixed (Conn x)), Write (Var ClosedVar x), Read (Fixed (Loop s))] @
        AddClient_locks x) @
     [Publish (Conn x)]"
| "activity_locks (ListenStart x) =
     Read (Fixed (Conn x)) # exclusive (CliLock x) [Write (Fixed (Queue x)), Read (Fixed (Conn x))] @
     [Write (Fixed (Queue x)), Publish (Queue x)]"
| "activity_locks (Writing x) = [Read (Fixed (Queue x)), Read (Fixed (Conn x))]"
| "activity_locks (Ping full x) = Read (Fixed (Queue x)) # Send_locks full x"
| "activity_locks (Teardown s x) =
     Read (Fixed (Conn x)) #
     exclusive (SrvLock s)
       (Read (Fixed (Queue x)) #
        exclusive (CliLock x) [Read (Fixed (Conn x)), Write (Var ClosedVar x), Read (Fixed (Queue x))])"
| "activity_locks (Receive full x h) = MessageReceived_locks full x h"
| "activity_locks (JoinExisting full r x others auth exists motd) = Add_locks full r x others auth exists motd"
| "activity_locks (JoinNew full r x auth motd) = AddChannel_locks full r x auth motd"
| "activity_locks (ReadError x) = exclusive (CliLock x) [Read (Var ClosedVar x), Read (Fixed (Conn x))]"
| "activity_locks (Leave full x chan known) =
     Read (Fixed (Conn x)) # RemoveClient_locks full x chan known @ [Read (Fixed (Conn x))]"
| "activity_locks (AskName r) = Name_locks r"

section \<open>Goroutines\<close>

record goroutine =
  todo :: "act list"
  has :: "(mode \<times> lock) list"

record lock_state =
  gs :: "goroutine list"
  published :: "object list"

definition lock_initial :: lock_state where "lock_initial = \<lparr>gs = [], published = []\<rparr>"

text \<open>The object a lock or a field belongs to, if that is ever handed over.\<close>

fun lock_owner :: "lock \<Rightarrow> object option" where
  "lock_owner (ChanLock r) = Some (Chan r)"
| "lock_owner (CliLock x) = Some (Conn x)"
| "lock_owner _ = None"

fun owner :: "field \<Rightarrow> object option" where
  "owner (Members r) = Some (Chan r)"
| "owner (Var v x) = Some (Conn x)"
| "owner (Fixed ob) = Some ob"
| "owner _ = None"

fun needs :: "act \<Rightarrow> object option" where
  "needs (Want l) = lock_owner l"
| "needs (Acquire m l) = lock_owner l"
| "needs (Release m l) = lock_owner l"
| "needs (Read f) = owner f"
| "needs (Write f) = owner f"
| "needs (Publish ob) = Some ob"

text \<open>The objects an activity works on, and the one it makes.\<close>

definition objects_of :: "act list \<Rightarrow> object list" where
  "objects_of as = List.map_filter needs as"

definition makes :: "act list \<Rightarrow> object list" where
  "makes as = List.map_filter (\<lambda>a. case a of Publish ob \<Rightarrow> Some ob | _ \<Rightarrow> None) as"

text \<open>
  \<open>RWMutex\<close>: a writer gets the lock when nobody has it, a reader when no writer has it and
  none that has announced itself waits for it.
\<close>

definition free :: "lock \<Rightarrow> lock_state \<Rightarrow> bool" where
  "free l st = list_all (\<lambda>g. l \<notin> snd ` set (has g)) (gs st)"

definition no_writer :: "lock \<Rightarrow> lock_state \<Rightarrow> bool" where
  "no_writer l st =
     list_all (\<lambda>g. (Exclusive, l) \<notin> set (has g) \<and> (case todo g of Acquire Exclusive l' # _ \<Rightarrow> l' \<noteq> l | _ \<Rightarrow> True)) (gs st)"

fun allowed :: "act \<Rightarrow> lock_state \<Rightarrow> bool" where
  "allowed (Acquire Exclusive l) st = free l st"
| "allowed (Acquire Shared l) st = no_writer l st"
| "allowed _ st = True"

fun perform_act :: "act \<Rightarrow> goroutine \<Rightarrow> goroutine" where
  "perform_act (Acquire m l) g = g\<lparr>todo := tl (todo g), has := (m, l) # has g\<rparr>"
| "perform_act (Release m l) g = g\<lparr>todo := tl (todo g), has := remove1 (m, l) (has g)\<rparr>"
| "perform_act _ g = g\<lparr>todo := tl (todo g)\<rparr>"

datatype lock_event = Go | Begin nat activity | Act nat

text \<open>
  An activity works on objects that were handed over before, and on new ones that nobody else
  knows.
\<close>

fun lock_perform :: "lock_event \<Rightarrow> lock_state \<Rightarrow> lock_state option" where
  "lock_perform Go st = Some (st\<lparr>gs := gs st @ [\<lparr>todo = [], has = []\<rparr>]\<rparr>)"
| "lock_perform (Begin i a) st =
     (let as = activity_locks a
      in if i < length (gs st) \<and> todo (gs st ! i) = [] \<and>
            list_all (\<lambda>ob. ob \<in> set (published st) \<or> ob \<in> set (makes as)) (objects_of as) \<and>
            list_all (\<lambda>ob. ob \<notin> set (published st) \<and> list_all (\<lambda>g. ob \<notin> set (makes (todo g))) (gs st)) (makes as)
         then Some (st\<lparr>gs := (gs st)[i := (gs st ! i)\<lparr>todo := as\<rparr>]\<rparr>) else None)"
| "lock_perform (Act i) st =
     (if i < length (gs st) then
        (case todo (gs st ! i) of
           [] \<Rightarrow> None
         | a # _ \<Rightarrow>
             if allowed a st
             then Some (st\<lparr>gs := (gs st)[i := perform_act a (gs st ! i)],
                           published := (case a of Publish ob \<Rightarrow> ob # published st | _ \<Rightarrow> published st)\<rparr>)
             else None)
      else None)"

definition lock_step :: "lock_state \<Rightarrow> lock_state \<Rightarrow> bool" where
  "lock_step st st' \<longleftrightarrow> (\<exists>e. lock_perform e st = Some st')"

end
