(* ===== verification/Lock_Order.thy ===== *)
theory Lock_Order
  imports Locks
begin

text \<open>
  The discipline every activity keeps: the order of the locks, and which lock an access to
  shared memory is made under; the invariant of the goroutines that rests on it, and why they
  never wait for each other in a circle.
\<close>

section \<open>The order of the locks and what they guard\<close>

fun rank :: "lock \<Rightarrow> nat" where
  "rank (SrvLock s) = 0"
| "rank (ChanLock r) = 1"
| "rank Mu = 2"
| "rank (CliLock x) = 3"

fun guard :: "field \<Rightarrow> lock option" where
  "guard (Terminator s) = Some (SrvLock s)"
| "guard ClientTable = Some Mu"
| "guard ChannelTable = Some Mu"
| "guard (Members r) = Some (ChanLock r)"
| "guard (Var v x) = Some (CliLock x)"
| "guard (Fixed ob) = None"

lemma guard_owner: "guard f = Some l \<Longrightarrow> lock_owner l = owner f"
  by (cases f) auto

text \<open>The goroutine still has to hand the object over.\<close>

definition own :: "object option \<Rightarrow> act list \<Rightarrow> bool" where
  "own ob as = (case ob of None \<Rightarrow> False | Some ob \<Rightarrow> ob \<in> set (makes as))"

definition may_read :: "(mode \<times> lock) set \<Rightarrow> field \<Rightarrow> bool" where
  "may_read held f \<longleftrightarrow> (\<forall>l. guard f = Some l \<longrightarrow> (\<exists>m. (m, l) \<in> held))"

definition may_write :: "(mode \<times> lock) set \<Rightarrow> field \<Rightarrow> bool" where
  "may_write held f \<longleftrightarrow> (\<exists>l. guard f = Some l \<and> (Exclusive, l) \<in> held)"

text \<open>
  The discipline: a lock is acquired while only lower ones are held, or it is that of an object
  the goroutine has not handed over; a field is read and written under its lock, or before its
  object is handed over; everything acquired is released.
\<close>

fun disciplined :: "(mode \<times> lock) list \<Rightarrow> act list \<Rightarrow> bool" where
  "disciplined held [] = (held = [])"
| "disciplined held (Want l # as) = disciplined held as"
| "disciplined held (Acquire m l # as) =
     (l \<notin> snd ` set held \<and> (list_all (\<lambda>h. rank (snd h) < rank l) held \<or> own (lock_owner l) as) \<and>
      disciplined ((m, l) # held) as)"
| "disciplined held (Release m l # as) = ((m, l) \<in> set held \<and> disciplined (remove1 (m, l) held) as)"
| "disciplined held (Read f # as) = ((may_read (set held) f \<or> own (owner f) as) \<and> disciplined held as)"
| "disciplined held (Write f # as) = ((may_write (set held) f \<or> own (owner f) as) \<and> disciplined held as)"
| "disciplined held (Publish r # as) = disciplined held as"

text \<open>
  A part of an activity that can run wherever only locks below \<open>n\<close> are held, and those in
  \<open>L\<close> among them.
\<close>

definition above :: "nat \<Rightarrow> (mode \<times> lock) set \<Rightarrow> act list \<Rightarrow> bool" where
  "above n L as \<longleftrightarrow>
     (\<forall>held bs. list_all (\<lambda>h. rank (snd h) < n) held \<longrightarrow> L \<subseteq> set held \<longrightarrow> disciplined held bs \<longrightarrow>
        disciplined held (as @ bs))"

named_theorems above_intros

lemma aboveD:
  "above n L as \<Longrightarrow> list_all (\<lambda>h. rank (snd h) < n) held \<Longrightarrow> L \<subseteq> set held \<Longrightarrow> disciplined held bs \<Longrightarrow>
     disciplined held (as @ bs)"
  by (simp add: above_def)

lemma above_Nil [above_intros, simp]: "above n L []"
  by (simp add: above_def)

lemma above_append [above_intros]: "above n L as \<Longrightarrow> above n L bs \<Longrightarrow> above n L (as @ bs)"
  by (simp add: above_def)

lemma above_concat [above_intros]: "(\<And>x. x \<in> set xs \<Longrightarrow> above n L (f x)) \<Longrightarrow> above n L (concat (map f xs))"
  by (induction xs) (auto intro: above_intros)

lemma may_read_mono: "may_read L f \<Longrightarrow> L \<subseteq> held \<Longrightarrow> may_read held f"
  by (fastforce simp: may_read_def)

lemma may_write_mono: "may_write L f \<Longrightarrow> L \<subseteq> held \<Longrightarrow> may_write held f"
  by (auto simp: may_write_def)

lemma above_Read [above_intros]: "may_read L f \<Longrightarrow> above n L as \<Longrightarrow> above n L (Read f # as)"
  using may_read_mono by (auto simp: above_def)

lemma above_Write [above_intros]: "may_write L f \<Longrightarrow> above n L as \<Longrightarrow> above n L (Write f # as)"
  using may_write_mono by (auto simp: above_def)

lemma above_locked:
  assumes "n \<le> rank l" "above (Suc (rank l)) (insert (m, l) L) body"
  shows "above n L (Acquire m l # body @ [Release m l])"
  unfolding above_def
proof (intro allI impI)
  fix held bs
  assume h: "list_all (\<lambda>h. rank (snd h) < n) held" "L \<subseteq> set held" and d: "disciplined held bs"
  with assms(1) have below: "list_all (\<lambda>h. rank (snd h) < rank l) held" by (auto simp: list_all_iff)
  then have "l \<notin> snd ` set held" by (auto simp: list_all_iff)
  moreover from below have "disciplined ((m, l) # held) (body @ Release m l # bs)"
    using d h(2) by (intro aboveD [OF assms(2)]) (auto simp: list_all_iff)
  ultimately show "disciplined held ((Acquire m l # body @ [Release m l]) @ bs)" using below by simp
qed

lemma above_shared [above_intros]:
  "n \<le> rank l \<Longrightarrow> above (Suc (rank l)) (insert (Shared, l) L) body \<Longrightarrow> above n L (shared l body)"
  using above_locked by (simp add: shared_def)

lemma above_exclusive [above_intros]:
  "n \<le> rank l \<Longrightarrow> above (Suc (rank l)) (insert (Exclusive, l) L) body \<Longrightarrow> above n L (exclusive l body)"
  using above_locked [of n l Exclusive L body] by (simp add: exclusive_def above_def)

lemma may_access [above_intros]:
  "may_read L (Fixed ob)"
  "(m, Mu) \<in> L \<Longrightarrow> may_read L ClientTable" "(m, Mu) \<in> L \<Longrightarrow> may_read L ChannelTable"
  "(m, ChanLock r) \<in> L \<Longrightarrow> may_read L (Members r)" "(m, CliLock x) \<in> L \<Longrightarrow> may_read L (Var v x)"
  "(Exclusive, SrvLock s) \<in> L \<Longrightarrow> may_write L (Terminator s)"
  "(Exclusive, Mu) \<in> L \<Longrightarrow> may_write L ClientTable" "(Exclusive, Mu) \<in> L \<Longrightarrow> may_write L ChannelTable"
  "(Exclusive, ChanLock r) \<in> L \<Longrightarrow> may_write L (Members r)"
  "(Exclusive, CliLock x) \<in> L \<Longrightarrow> may_write L (Var v x)"
  by (auto simp: may_read_def may_write_def)

lemma above_client [above_intros]:
  "n \<le> 3 \<Longrightarrow> above n L (ID_locks x)" "n \<le> 3 \<Longrightarrow> above n L (client_get x (Var v x))"
  "n \<le> 3 \<Longrightarrow> above n L (client_get x (Fixed ob))" "n \<le> 3 \<Longrightarrow> above n L (client_set x (Var v x))"
  by (auto simp: ID_locks_def client_get_def client_set_def intro!: above_intros)

lemma above_sends [above_intros]:
  "n \<le> 3 \<Longrightarrow> above n L (Send_locks full x)" "n \<le> 3 \<Longrightarrow> above n L (sends_locks full xs)"
  "above n L (CloseGracefully_locks x)"
  by (auto simp: Send_locks_def sends_locks_def CloseGracefully_locks_def intro!: above_intros)

lemma above_reads [above_intros]: "(\<And>x. x \<in> set xs \<Longrightarrow> may_read L (f x)) \<Longrightarrow> above n L (map (\<lambda>x. Read (f x)) xs)"
  by (induction xs) (auto intro: above_intros)

lemma above_tables [above_intros]:
  "n \<le> 2 \<Longrightarrow> above n L FindClient_locks" "n \<le> 2 \<Longrightarrow> above n L FindChannel_locks"
  "n \<le> 2 \<Longrightarrow> above n L (channelKeyTaken_locks seen)" "n \<le> 2 \<Longrightarrow> above n L (RemoveChannel_locks there)"
  by (auto simp: FindClient_locks_def FindChannel_locks_def channelKeyTaken_locks_def RemoveChannel_locks_def
      intro!: above_intros)

lemma above_Add_body [above_intros]:
  "n \<le> 3 \<Longrightarrow> (Exclusive, ChanLock r) \<in> L \<Longrightarrow> above n L (Add_body full r x others auth exists motd)"
  by (auto simp: Add_body_def intro!: above_intros)

lemma above_quit [above_intros]:
  "n \<le> 2 \<Longrightarrow> (Exclusive, ChanLock r) \<in> L \<Longrightarrow> above n L (quitLocked_locks r left there)"
  by (auto simp: quitLocked_locks_def intro!: above_intros split: option.split)

lemma above_channels [above_intros]:
  "n \<le> 1 \<Longrightarrow> above n L (Add_locks full r x others auth exists motd)"
  "n \<le> 1 \<Longrightarrow> above n L (Remove_locks full r x others' there)"
  "n \<le> 1 \<Longrightarrow> above n L (SendAll_locks full r others)"
  "n \<le> 1 \<Longrightarrow> above n L (SendOthers_locks full r x lonely others)"
  "n \<le> 1 \<Longrightarrow> above n L (Name_locks r)"
  by (auto simp: Add_locks_def Remove_locks_def SendAll_locks_def SendOthers_locks_def Name_locks_def
      intro!: above_intros split: option.split list.split)

lemma above_handling [above_intros]: "above 0 L (handling_locks full x h)"
  by (cases h) (auto intro!: above_intros)

lemma makes_append [simp]: "makes (as @ bs) = makes as @ makes bs"
  by (simp add: makes_def map_filter_def)

lemma makes_Nil [simp]: "makes [] = []"
  by (simp add: makes_def map_filter_simps)

lemma makes_Cons [simp]:
  "makes (Want l # as) = makes as" "makes (Acquire m l # as) = makes as" "makes (Release m l # as) = makes as"
  "makes (Read f # as) = makes as" "makes (Write f # as) = makes as" "makes (Publish ob # as) = ob # makes as"
  by (simp_all add: makes_def map_filter_simps)

text \<open>The activities that make nothing are disciplined part by part; the four others as a whole.\<close>

fun hands_over :: "activity \<Rightarrow> bool" where
  "hands_over (Listening s ok) = ok"
| "hands_over (Register s x) = True"
| "hands_over (ListenStart x) = True"
| "hands_over (JoinNew full r x auth motd) = True"
| "hands_over _ = False"

lemma above_activity: "\<not> hands_over a \<Longrightarrow> above 0 {} (activity_locks a)"
  by (cases a) (auto simp: MessageReceived_locks_def RemoveClient_locks_def intro!: above_intros split: option.split)

lemma disciplined_activity: "disciplined [] (activity_locks a)"
proof (cases "hands_over a")
  case False
  from aboveD [OF above_activity [OF False], of "[]" "[]"] show ?thesis by simp
next
  case True
  show ?thesis
  proof (cases a)
    case (JoinNew full r x auth motd)
    let ?held = "[(Exclusive, ChanLock r), (Exclusive, Mu)]"
    have "disciplined ?held (Add_body full r x [] auth False motd @
        [Release Exclusive (ChanLock r), Write ChannelTable, Publish (Chan r), Release Exclusive Mu])"
      by (rule aboveD [OF above_Add_body [of 3 r "set ?held"]]) (simp_all add: may_write_def)
    then show ?thesis
      by (simp add: JoinNew AddChannel_locks_def Add_locks_def exclusive_def own_def)
  qed (use True in \<open>simp_all add: exclusive_def shared_def AddClient_locks_def client_set_def client_get_def own_def
    may_read_def may_write_def\<close>)
qed

section \<open>The invariant\<close>

definition unpublished :: "goroutine \<Rightarrow> object set" where
  "unpublished g = set (makes (todo g))"

definition touched :: "goroutine \<Rightarrow> object set" where
  "touched g = set (objects_of (todo g)) \<union> {ob. \<exists>m l. (m, l) \<in> set (has g) \<and> lock_owner l = Some ob}"

lemma held_touched: "(m, l) \<in> set (has g) \<Longrightarrow> lock_owner l = Some ob \<Longrightarrow> ob \<in> touched g"
  by (auto simp: touched_def)

definition goroutine_ok :: "object set \<Rightarrow> goroutine \<Rightarrow> bool" where
  "goroutine_ok pub g \<longleftrightarrow>
     disciplined (has g) (todo g) \<and> distinct (map snd (has g)) \<and> touched g \<subseteq> pub \<union> unpublished g \<and>
     unpublished g \<inter> pub = {} \<and> distinct (makes (todo g))"

definition apart :: "goroutine \<Rightarrow> goroutine \<Rightarrow> bool" where
  "apart g h \<longleftrightarrow> unpublished g \<inter> unpublished h = {} \<and> (\<forall>m l. (Exclusive, l) \<in> set (has g) \<longrightarrow> (m, l) \<notin> set (has h))"

definition lock_inv :: "lock_state \<Rightarrow> bool" where
  "lock_inv st \<longleftrightarrow>
     (\<forall>i < length (gs st). goroutine_ok (set (published st)) (gs st ! i)) \<and>
     (\<forall>i < length (gs st). \<forall>j < length (gs st). i \<noteq> j \<longrightarrow> apart (gs st ! i) (gs st ! j))"

lemma lock_inv_update:
  assumes inv: "lock_inv st" and i: "i < length (gs st)" and pub: "set (published st) \<subseteq> P" "P = set p"
    and ok: "goroutine_ok P g"
    and others: "\<And>j. j < length (gs st) \<Longrightarrow> j \<noteq> i \<Longrightarrow>
      unpublished (gs st ! j) \<inter> P = {} \<and> apart g (gs st ! j) \<and> apart (gs st ! j) g"
  shows "lock_inv (st\<lparr>gs := (gs st)[i := g], published := p\<rparr>)"
proof -
  have "goroutine_ok P (gs st ! j)" if "j < length (gs st)" "j \<noteq> i" for j
    using inv that others [OF that] pub(1) by (auto simp: lock_inv_def goroutine_ok_def)
  with inv i ok others pub(2) show ?thesis by (auto simp: lock_inv_def nth_list_update)
qed

lemma objects_of_Cons:
  "set (objects_of (a # as)) = set_option (needs a) \<union> set (objects_of as)"
  by (cases "needs a") (simp_all add: objects_of_def map_filter_simps)

lemma head_touched: "todo g = a # as \<Longrightarrow> needs a = Some ob \<Longrightarrow> ob \<in> touched g"
  by (simp add: touched_def objects_of_Cons)

lemma distinct_remove1_map: "distinct (map f xs) \<Longrightarrow> distinct (map f (remove1 x xs))"
  by (induction xs) (auto dest: notin_set_remove1 intro: image_eqI set_mp [OF set_remove1_subset])

lemma lock_inv_go:
  assumes "lock_inv st" shows "lock_inv (st\<lparr>gs := gs st @ [\<lparr>todo = [], has = []\<rparr>]\<rparr>)"
proof -
  have "goroutine_ok P \<lparr>todo = [], has = []\<rparr>" for P
    by (simp add: goroutine_ok_def touched_def unpublished_def objects_of_def map_filter_simps)
  moreover have "apart g \<lparr>todo = [], has = []\<rparr>" "apart \<lparr>todo = [], has = []\<rparr> g" for g
    by (simp_all add: apart_def unpublished_def)
  ultimately show ?thesis using assms by (auto simp: lock_inv_def nth_append less_Suc_eq)
qed

lemma makes_locked: "makes (shared l b) = makes b" "makes (exclusive l b) = makes b"
  by (simp_all add: shared_def exclusive_def)

lemma makes_concat: "(\<And>x. makes (f x) = []) \<Longrightarrow> makes (concat (map f xs)) = []"
  by (induction xs) simp_all

lemma makes_reads: "makes (map (\<lambda>x. Read (f x)) xs) = []"
  by (induction xs) simp_all

lemma makes_client [simp]:
  "makes (client_get x f) = []" "makes (client_set x f) = []" "makes (ID_locks x) = []"
  "makes (Send_locks full x) = []" "makes (sends_locks full xs) = []" "makes (CloseGracefully_locks x) = []"
  by (simp_all add: ID_locks_def client_get_def client_set_def Send_locks_def sends_locks_def CloseGracefully_locks_def
      makes_locked makes_concat)

lemma makes_Add [simp]: "makes (Add_locks full r x others auth exists motd) = []"
  by (simp add: Add_locks_def Add_body_def makes_locked makes_concat)

lemma makes_Remove [simp]: "makes (Remove_locks full r x others there) = []"
  by (simp add: Remove_locks_def quitLocked_locks_def RemoveChannel_locks_def makes_locked makes_concat
      split: option.split list.split)

lemma makes_handling [simp]: "makes (handling_locks full x h) = []"
  by (cases h) (simp_all add: SendOthers_locks_def SendAll_locks_def FindChannel_locks_def channelKeyTaken_locks_def
      makes_locked makes_concat makes_reads)

lemma distinct_makes_activity: "distinct (makes (activity_locks a))"
  by (cases a)
    (simp_all add: makes_locked MessageReceived_locks_def RemoveClient_locks_def FindClient_locks_def AddClient_locks_def
      AddChannel_locks_def Name_locks_def split: option.split)

lemma lock_inv_begin:
  assumes inv: "lock_inv st" and p: "lock_perform (Begin i a) st = Some st'"
  shows "lock_inv st'"
proof -
  let ?as = "activity_locks a" and ?P = "set (published st)"
  let ?g = "(gs st ! i)\<lparr>todo := ?as\<rparr>"
  from p have i: "i < length (gs st)" "todo (gs st ! i) = []"
    and c: "set (objects_of ?as) \<subseteq> ?P \<union> set (makes ?as)"
    and m: "set (makes ?as) \<inter> ?P = {}" "\<And>g. g \<in> set (gs st) \<Longrightarrow> set (makes ?as) \<inter> unpublished g = {}"
    and st': "st' = st\<lparr>gs := (gs st)[i := ?g], published := published st\<rparr>"
    by (auto simp: Let_def list_all_iff unpublished_def split: if_splits)
  have h: "has (gs st ! i) = []"
    using inv i by (auto simp: lock_inv_def goroutine_ok_def)
  have "goroutine_ok ?P ?g"
    using c m(1) h disciplined_activity distinct_makes_activity by (simp add: goroutine_ok_def touched_def unpublished_def)
  moreover have "unpublished (gs st ! j) \<inter> ?P = {} \<and> apart ?g (gs st ! j) \<and> apart (gs st ! j) ?g"
    if j: "j < length (gs st)" "j \<noteq> i" for j
  proof -
    have "unpublished (gs st ! j) \<inter> ?P = {}" using inv j by (simp add: lock_inv_def goroutine_ok_def)
    moreover have "set (makes ?as) \<inter> unpublished (gs st ! j) = {}" using m(2) j(1) by simp
    ultimately show ?thesis using h by (auto simp: apart_def unpublished_def)
  qed
  ultimately show ?thesis unfolding st' by (intro lock_inv_update [OF inv i(1)]) auto
qed

lemma touched_act:
  assumes "todo g = a # as" shows "touched (perform_act a g) \<subseteq> touched g"
proof (cases a)
  case (Release m l)
  then show ?thesis
    using assms set_remove1_subset [of "(m, l)" "has g"] by (auto simp: touched_def objects_of_Cons)
qed (use assms in \<open>auto simp: touched_def objects_of_Cons\<close>)

lemma goroutine_ok_act:
  assumes ok: "goroutine_ok P g" and t: "todo g = a # as"
    and P': "P' = (case a of Publish r \<Rightarrow> insert r P | _ \<Rightarrow> P)"
  shows "goroutine_ok P' (perform_act a g)"
proof -
  from ok t have d: "disciplined (has g) (a # as)" "distinct (map snd (has g))" "touched g \<subseteq> P \<union> unpublished g"
    "unpublished g \<inter> P = {}" "distinct (makes (a # as))"
    by (simp_all add: goroutine_ok_def)
  have "touched (perform_act a g) \<subseteq> P' \<union> unpublished (perform_act a g)"
    using touched_act [OF t] d(3) t P' by (cases a) (auto simp: unpublished_def)
  then show ?thesis
    using d t P' by (cases a) (auto simp: goroutine_ok_def unpublished_def distinct_remove1_map)
qed

lemma unpublished_act:
  "todo g = a # as \<Longrightarrow> unpublished (perform_act a g) \<subseteq> unpublished g"
  by (cases a) (auto simp: unpublished_def)

lemma apart_act:
  assumes g: "todo g = a # as" and ap: "apart g h" "apart h g"
    and x: "\<And>l m. a = Acquire Exclusive l \<Longrightarrow> (m, l) \<notin> set (has h)"
    and s: "\<And>l. a = Acquire Shared l \<Longrightarrow> (Exclusive, l) \<notin> set (has h)"
  shows "apart (perform_act a g) h" "apart h (perform_act a g)"
proof -
  have u: "unpublished (perform_act a g) \<inter> unpublished h = {}"
    using unpublished_act [OF g] ap(1) by (auto simp: apart_def)
  have "(\<forall>m l. (Exclusive, l) \<in> set (has (perform_act a g)) \<longrightarrow> (m, l) \<notin> set (has h)) \<and>
      (\<forall>m l. (Exclusive, l) \<in> set (has h) \<longrightarrow> (m, l) \<notin> set (has (perform_act a g)))"
  proof (cases a)
    case (Acquire m l)
    with ap x s show ?thesis by (cases m) (auto simp: apart_def)
  next
    case (Release m l)
    have "set (remove1 (m, l) (has g)) \<subseteq> set (has g)" by (rule set_remove1_subset)
    with Release ap show ?thesis by (auto simp: apart_def)
  qed (use ap in \<open>auto simp: apart_def\<close>)
  with u show "apart (perform_act a g) h" "apart h (perform_act a g)" by (auto simp: apart_def)
qed

lemma lock_inv_act:
  assumes inv: "lock_inv st" and p: "lock_perform (Act i) st = Some st'"
  shows "lock_inv st'"
proof -
  let ?g = "gs st ! i"
  from p obtain a as where i: "i < length (gs st)" and t: "todo ?g = a # as" and al: "allowed a st"
    and st': "st' = st\<lparr>gs := (gs st)[i := perform_act a ?g],
      published := (case a of Publish ob \<Rightarrow> ob # published st | _ \<Rightarrow> published st)\<rparr>"
    by (auto split: if_splits list.splits)
  let ?P = "set (case a of Publish ob \<Rightarrow> ob # published st | _ \<Rightarrow> published st)"
  have P: "?P = (case a of Publish r \<Rightarrow> insert r (set (published st)) | _ \<Rightarrow> set (published st))" by (cases a) simp_all
  have ok: "goroutine_ok (set (published st)) (gs st ! j)" if "j < length (gs st)" for j
    using inv that by (simp add: lock_inv_def)
  have "unpublished (gs st ! j) \<inter> ?P = {} \<and> apart (perform_act a ?g) (gs st ! j) \<and> apart (gs st ! j) (perform_act a ?g)"
    if j: "j < length (gs st)" "j \<noteq> i" for j
  proof (intro conjI)
    have ap: "apart ?g (gs st ! j)" "apart (gs st ! j) ?g" using inv i j by (auto simp: lock_inv_def)
    have "\<And>r. a = Publish r \<Longrightarrow> r \<in> unpublished ?g" using t by (simp add: unpublished_def)
    with ap(1) ok [OF j(1)] show "unpublished (gs st ! j) \<inter> ?P = {}"
      by (cases a) (auto simp: apart_def goroutine_ok_def)
    have x: "(m, l) \<notin> set (has (gs st ! j))" if "a = Acquire Exclusive l" for m l
      using al that j(1) by (force simp: free_def list_all_length)
    have s: "(Exclusive, l) \<notin> set (has (gs st ! j))" if "a = Acquire Shared l" for l
      using al that j(1) by (simp add: no_writer_def list_all_length)
    show "apart (perform_act a ?g) (gs st ! j)" "apart (gs st ! j) (perform_act a ?g)"
      by (rule apart_act [OF t ap x s]; assumption)+
  qed
  moreover have "set (published st) \<subseteq> ?P" by (cases a) auto
  ultimately show ?thesis
    unfolding st' by (intro lock_inv_update [OF inv i _ refl goroutine_ok_act [OF ok [OF i] t P]]) simp_all
qed

lemma lock_inv_step: "lock_inv st \<Longrightarrow> lock_step st st' \<Longrightarrow> lock_inv st'"
proof -
  assume inv: "lock_inv st" and "lock_step st st'"
  then obtain e where e: "lock_perform e st = Some st'" by (auto simp: lock_step_def)
  show ?thesis
  proof (cases e)
    case Go
    with e lock_inv_go [OF inv] show ?thesis by simp
  next
    case (Begin i a)
    with e lock_inv_begin [OF inv] show ?thesis by simp
  next
    case (Act i)
    with e lock_inv_act [OF inv] show ?thesis by simp
  qed
qed

lemma lock_inv_initial: "lock_inv lock_initial"
  by (simp add: lock_inv_def lock_initial_def)

interpretation locks: invariant_system lock_initial lock_step lock_inv
  by unfold_locales (rule lock_inv_initial, rule lock_inv_step)

section \<open>No deadlock\<close>

text \<open>Nobody works on what another goroutine has not handed over.\<close>

lemma unpublished_untouched:
  assumes inv: "lock_inv st" and ij: "i < length (gs st)" "j < length (gs st)" "i \<noteq> j"
  shows "unpublished (gs st ! i) \<inter> touched (gs st ! j) = {}"
proof -
  from inv ij have "goroutine_ok (set (published st)) (gs st ! i)" "goroutine_ok (set (published st)) (gs st ! j)"
    "apart (gs st ! i) (gs st ! j)" by (simp_all add: lock_inv_def)
  then show ?thesis by (auto simp: goroutine_ok_def apart_def)
qed

definition waits_for :: "lock_state \<Rightarrow> nat \<Rightarrow> lock \<Rightarrow> bool" where
  "waits_for st i l \<longleftrightarrow> i < length (gs st) \<and> (\<exists>m as. todo (gs st ! i) = Acquire m l # as)"

definition stuck :: "lock_state \<Rightarrow> bool" where
  "stuck st \<longleftrightarrow> (\<forall>i. lock_perform (Act i) st = None)"

lemma stuck_waits:
  assumes "stuck st" "i < length (gs st)" "todo (gs st ! i) \<noteq> []"
  obtains l where "waits_for st i l"
proof -
  from assms(3) obtain a as where t: "todo (gs st ! i) = a # as" by (cases "todo (gs st ! i)") auto
  with assms have "\<not> allowed a st" by (fastforce simp: stuck_def split: if_splits)
  then obtain m l where "a = Acquire m l" by (cases a) auto
  with t assms(2) that show thesis by (auto simp: waits_for_def)
qed

lemma stuck_held:
  assumes "stuck st" "waits_for st i l"
  obtains j where "j < length (gs st)" "l \<in> snd ` set (has (gs st ! j))"
proof -
  have w: "\<not> free l st" if "j < length (gs st)" "todo (gs st ! j) = Acquire Exclusive l # as" for j as
    using assms(1) that by (fastforce simp: stuck_def split: if_splits)
  from assms(2) obtain m as where i: "i < length (gs st)" "todo (gs st ! i) = Acquire m l # as"
    by (auto simp: waits_for_def)
  have "\<not> free l st"
  proof (cases m)
    case Exclusive
    with i w show ?thesis by blast
  next
    case Shared
    with i assms(1) have "\<not> no_writer l st" by (fastforce simp: stuck_def split: if_splits)
    then obtain j where j: "j < length (gs st)" "(Exclusive, l) \<in> set (has (gs st ! j)) \<or>
        \<not> (case todo (gs st ! j) of Acquire Exclusive l' # _ \<Rightarrow> l' \<noteq> l | _ \<Rightarrow> True)"
      by (auto simp: no_writer_def list_all_length)
    then show ?thesis
    proof (elim disjE conjE)
      assume "(Exclusive, l) \<in> set (has (gs st ! j))"
      with j(1) show ?thesis by (force simp: free_def list_all_length)
    next
      assume "\<not> (case todo (gs st ! j) of Acquire Exclusive l' # _ \<Rightarrow> l' \<noteq> l | _ \<Rightarrow> True)"
      then obtain bs where "todo (gs st ! j) = Acquire Exclusive l # bs"
        by (auto split: list.splits act.splits mode.splits)
      with w j(1) show ?thesis by blast
    qed
  qed
  then show thesis using that by (auto simp: free_def list_all_length)
qed

lemma not_stuck:
  assumes inv: "lock_inv st" and i: "i < length (gs st)" "todo (gs st ! i) \<noteq> []"
  shows "\<not> stuck st"
proof
  assume s: "stuck st"
  have ok: "goroutine_ok (set (published st)) (gs st ! j)" if "j < length (gs st)" for j
    using inv that by (simp add: lock_inv_def)
  let ?Q = "\<lambda>l. \<exists>j. waits_for st j l"
  from stuck_waits [OF s i] obtain l0 where "?Q l0" by blast
  moreover have "\<forall>l. ?Q l \<longrightarrow> rank l < 4"
  proof (intro allI impI)
    fix l show "rank l < 4" by (cases l) simp_all
  qed
  ultimately obtain l where l: "?Q l" "\<And>l'. ?Q l' \<Longrightarrow> rank l' \<le> rank l"
    using ex_has_greatest_nat [of ?Q l0 rank 4] by blast
  from l(1) obtain j where "waits_for st j l" ..
  from stuck_held [OF s this] obtain k where k: "k < length (gs st)" "l \<in> snd ` set (has (gs st ! k))" by blast
  then have "todo (gs st ! k) \<noteq> []" using ok [OF k(1)] by (auto simp: goroutine_ok_def)
  from stuck_waits [OF s k(1) this] obtain l' where w: "waits_for st k l'" .
  then obtain m as where t: "todo (gs st ! k) = Acquire m l' # as" by (auto simp: waits_for_def)
  with ok [OF k(1)] have d: "l' \<notin> snd ` set (has (gs st ! k))"
    "list_all (\<lambda>h. rank (snd h) < rank l') (has (gs st ! k)) \<or> own (lock_owner l') as"
    by (simp_all add: goroutine_ok_def)
  from l(2) w have "rank l' \<le> rank l" by blast
  with k(2) d(2) have "own (lock_owner l') as" by (fastforce simp: list_all_iff)
  then obtain ob where r: "lock_owner l' = Some ob" "ob \<in> unpublished (gs st ! k)"
    using t by (auto simp: own_def unpublished_def split: option.splits)
  from stuck_held [OF s w] obtain q where q: "q < length (gs st)" "l' \<in> snd ` set (has (gs st ! q))" by blast
  with d(1) have "k \<noteq> q" by blast
  moreover have "ob \<in> touched (gs st ! q)" using q(2) held_touched [OF _ r(1)] by (fastforce simp del: split_paired_Ex)
  ultimately show False using unpublished_untouched [OF inv k(1) q(1)] r(2) by blast
qed

section \<open>No races\<close>

lemma own_unpublished: "own (owner f) as \<Longrightarrow> todo g = Write f # as \<or> todo g = Read f # as \<Longrightarrow>
    \<exists>ob. owner f = Some ob \<and> ob \<in> unpublished g"
  by (auto simp: own_def unpublished_def split: option.splits)

text \<open>While a goroutine holds a lock, no other one writes what it guards, nor reads it if the lock is exclusive.\<close>

lemma guarded_access:
  assumes inv: "lock_inv st" and ij: "i < length (gs st)" "j < length (gs st)" "i \<noteq> j"
    and held: "(m, l) \<in> set (has (gs st ! i))" "guard f = Some l" and t: "todo (gs st ! j) = a # as"
  shows "a \<noteq> Write f \<and> (m = Exclusive \<longrightarrow> a \<noteq> Read f)"
proof -
  from inv ij have ok: "goroutine_ok (set (published st)) (gs st ! j)"
    and ap: "apart (gs st ! i) (gs st ! j)" "apart (gs st ! j) (gs st ! i)" by (simp_all add: lock_inv_def)
  have own: "\<not> own (owner f) as" if "a = Write f \<or> a = Read f"
  proof
    assume "own (owner f) as"
    with that t obtain ob where "owner f = Some ob" "ob \<in> unpublished (gs st ! j)"
      using own_unpublished [of f as "gs st ! j"] by auto
    with held_touched [OF held(1)] guard_owner [OF held(2)] unpublished_untouched [OF inv ij(2,1)] ij(3)
    show False by auto
  qed
  from ok t have d: "disciplined (has (gs st ! j)) (a # as)" by (simp add: goroutine_ok_def)
  show ?thesis
  proof (intro conjI impI notI)
    assume "a = Write f"
    with own d have "may_write (set (has (gs st ! j))) f" by simp
    with held ap(2) show False by (auto simp: may_write_def apart_def)
  next
    assume "m = Exclusive" "a = Read f"
    with own d have "may_read (set (has (gs st ! j))) f" by simp
    with held ap(1) \<open>m = Exclusive\<close> show False by (auto simp: may_read_def apart_def)
  qed
qed

text \<open>Two accesses to the same field, at least one of them a write.\<close>

fun conflict :: "act \<Rightarrow> act \<Rightarrow> bool" where
  "conflict (Write f) (Write f') = (f = f')"
| "conflict (Write f) (Read f') = (f = f')"
| "conflict (Read f) (Write f') = (f = f')"
| "conflict _ _ = False"

lemma conflict_sym: "conflict a b \<Longrightarrow> conflict b a"
  by (cases a; cases b) auto

lemma conflict_cases:
  assumes "conflict a b" obtains f where "a = Write f" "b = Write f \<or> b = Read f" | f where "b = Write f" "a = Read f"
  using assms by (cases a; cases b) auto

lemma write_excludes:
  assumes inv: "lock_inv st" and ij: "i < length (gs st)" "j < length (gs st)" "i \<noteq> j"
    and t: "todo (gs st ! i) = Write f # as" "todo (gs st ! j) = b # bs"
  shows "b \<noteq> Write f \<and> b \<noteq> Read f"
proof -
  from inv ij(1) t(1) have "may_write (set (has (gs st ! i))) f \<or> own (owner f) as"
    by (auto simp: lock_inv_def goroutine_ok_def)
  then show ?thesis
  proof
    assume "may_write (set (has (gs st ! i))) f"
    then show ?thesis using guarded_access [OF inv ij _ _ t(2)] by (auto simp: may_write_def)
  next
    assume "own (owner f) as"
    with t(1) obtain ob where ob: "owner f = Some ob" "ob \<in> unpublished (gs st ! i)"
      using own_unpublished [of f as "gs st ! i"] by auto
    with unpublished_untouched [OF inv ij] have "needs b \<noteq> Some ob" using head_touched [OF t(2)] by auto
    with ob(1) show ?thesis by auto
  qed
qed

end
