(* ===== verification/Lock_Properties.thy ===== *)
theory Lock_Properties
  imports Lock_Order
begin

text \<open>
  The locks of the server exclude, are released, never deadlock, and leave no data race.
\<close>

fun run_locks :: "lock_event list \<Rightarrow> lock_state \<Rightarrow> lock_state option" where
  "run_locks [] st = Some st"
| "run_locks (e # es) st = Option.bind (lock_perform e st) (run_locks es)"

text \<open>What the activities under way still have to do.\<close>

definition remaining_acts :: "lock_state \<Rightarrow> nat" where
  "remaining_acts st = sum_list (map (\<lambda>g. length (todo g)) (gs st))"

definition all_done :: "lock_state \<Rightarrow> bool" where
  "all_done st \<longleftrightarrow> list_all (\<lambda>g. todo g = [] \<and> has g = []) (gs st)"

lemma act_shrinks:
  assumes "lock_perform (Act i) st = Some st'" shows "remaining_acts st = Suc (remaining_acts st')"
proof -
  from assms obtain a as where i: "i < length (gs st)" "todo (gs st ! i) = a # as"
    and s: "gs st' = (gs st)[i := perform_act a (gs st ! i)]"
    by (auto split: if_splits list.splits)
  have "todo (perform_act a (gs st ! i)) = as" using i(2) by (cases a) simp_all
  with i have "map (\<lambda>g. length (todo g)) (gs st') = (map (\<lambda>g. length (todo g)) (gs st))[i := length as]"
    by (simp add: s map_update)
  moreover have "map (\<lambda>g. length (todo g)) (gs st) ! i = Suc (length as)" using i by simp
  ultimately show ?thesis
    using i(1) elem_le_sum_list [of i "map (\<lambda>g. length (todo g)) (gs st)"]
    by (simp add: remaining_acts_def sum_list_update)
qed

lemma run_acts_shrink:
  "run_locks (map Act is) st = Some st' \<Longrightarrow> remaining_acts st = length is + remaining_acts st'"
  by (induction "is" arbitrary: st) (auto simp: bind_eq_Some_conv dest!: act_shrinks simp del: lock_perform.simps)

lemma acts_finish:
  "lock_inv st \<Longrightarrow> \<exists>is st'. run_locks (map Act is) st = Some st' \<and> all_done st'"
proof (induction "remaining_acts st" arbitrary: st)
  case 0
  then have "todo g = []" if "g \<in> set (gs st)" for g using that by (auto simp: remaining_acts_def)
  moreover have "goroutine_ok (set (published st)) g" if "g \<in> set (gs st)" for g
    using that 0(2) by (auto simp: lock_inv_def in_set_conv_nth)
  ultimately have "todo g = [] \<and> has g = []" if "g \<in> set (gs st)" for g
    using that by (fastforce simp: goroutine_ok_def)
  then have "run_locks (map Act []) st = Some st \<and> all_done st" by (simp add: all_done_def list_all_iff)
  then show ?case by blast
next
  case (Suc n)
  have "\<exists>g \<in> set (gs st). todo g \<noteq> []"
  proof (rule ccontr)
    assume "\<not> ?thesis"
    then have "map (\<lambda>g. length (todo g)) (gs st) = map (\<lambda>g. 0) (gs st)" by (intro map_cong) auto
    then have "remaining_acts st = 0" unfolding remaining_acts_def by (simp only: sum_list_0)
    with Suc(2) show False by simp
  qed
  then obtain i where "i < length (gs st)" "todo (gs st ! i) \<noteq> []" by (auto simp: in_set_conv_nth)
  from not_stuck [OF Suc(3) this] obtain j where "lock_perform (Act j) st \<noteq> None" by (auto simp only: stuck_def)
  then obtain st1 where j: "lock_perform (Act j) st = Some st1" by blast
  have "n = remaining_acts st1" using act_shrinks [OF j] Suc(2) by simp
  from Suc(1) [OF this lock_inv_act [OF Suc(3) j]] obtain "is" st' where
    "run_locks (map Act is) st1 = Some st'" "all_done st'" by blast
  with j have "run_locks (map Act (j # is)) st = Some st' \<and> all_done st'" by (simp del: lock_perform.simps)
  then show ?case by blast
qed

text \<open>
  C15 The locks of the server: whoever holds a lock exclusively holds it alone, a goroutine
  between two activities holds none, and there is no deadlock. As long as an activity is under
  way some goroutine can go on; each step brings the end nearer by one, so however they are
  scheduled, when no new activity begins, all that are under way come to their end.
\<close>

theorem locks_never_deadlock:
  assumes "reach lock_initial lock_step st" "i < length (gs st)" "j < length (gs st)"
  shows "((Exclusive, l) \<in> set (has (gs st ! i)) \<and> (m, l) \<in> set (has (gs st ! j)) \<longrightarrow> i = j) \<and>
    (todo (gs st ! i) = [] \<longrightarrow> has (gs st ! i) = []) \<and>
    (todo (gs st ! i) \<noteq> [] \<longrightarrow> (\<exists>k st'. lock_perform (Act k) st = Some st')) \<and>
    (run_locks (map Act is) st = Some st' \<longrightarrow> remaining_acts st = length is + remaining_acts st') \<and>
    (\<exists>is st'. run_locks (map Act is) st = Some st' \<and> all_done st')"
proof (intro conjI impI)
  note inv = locks.inv_reach [OF assms(1)]
  show "(Exclusive, l) \<in> set (has (gs st ! i)) \<and> (m, l) \<in> set (has (gs st ! j)) \<Longrightarrow> i = j"
    using inv assms(2,3) unfolding lock_inv_def apart_def by metis
  show "todo (gs st ! i) = [] \<Longrightarrow> has (gs st ! i) = []"
    using inv assms(2) by (auto simp: lock_inv_def goroutine_ok_def)
  show "todo (gs st ! i) \<noteq> [] \<Longrightarrow> \<exists>k st'. lock_perform (Act k) st = Some st'"
    using not_stuck [OF inv assms(2)] by (auto simp: stuck_def simp del: lock_perform.simps)
  show "run_locks (map Act is) st = Some st' \<Longrightarrow> remaining_acts st = length is + remaining_acts st'"
    by (rule run_acts_shrink)
  show "\<exists>is st'. run_locks (map Act is) st = Some st' \<and> all_done st'" by (rule acts_finish [OF inv])
qed

text \<open>
  A server starts, three clients come, and one of them opens a channel; then the second one leaves
  it while the third one relays in it: the second waits for the third, which waits for nobody.
  Meanwhile the first one relays as well, and reads the members at the same time as the third.
\<close>

definition whole :: "nat \<Rightarrow> activity \<Rightarrow> lock_event list" where
  "whole i a = Begin i a # replicate (length (activity_locks a)) (Act i)"

definition contended :: "lock_event list" where
  "contended =
     [Go, Go, Go] @ whole 0 (Listening 0 True) @
     concat (map (\<lambda>x. whole 0 (Register 0 x) @ whole 0 (ListenStart x)) [0, 1, 2]) @
     whole 0 (JoinNew (\<lambda>_. False) 7 0 True False) @
     [Begin 1 (Leave (\<lambda>_. False) 1 (Some (7, Some [0], True)) True), Begin 2 (Receive (\<lambda>_. True) 2 (RelayRaw 7 [0, 1])),
      Begin 0 (Receive (\<lambda>_. True) 0 (RelayJson 7 False [1, 2]))] @
     replicate 10 (Act 2) @ replicate 10 (Act 0) @ replicate 5 (Act 1)"

lemma contended_view:
  "map_option (\<lambda>st. (length (gs st), map has (gs st), lock_perform (Act 1) st = None, map (hd \<circ> todo) (gs st),
       map (\<lambda>g. todo g = []) (gs st))) (run_locks contended lock_initial) =
   Some (3, [[(Shared, ChanLock 7)], [], [(Shared, ChanLock 7)]], True,
     [Read (Members 7), Acquire Exclusive (ChanLock 7), Read (Members 7)], [False, False, False])"
  by code_simp

lemma run_locks_reach:
  "reach s0 lock_step st \<Longrightarrow> run_locks es st = Some st' \<Longrightarrow> reach s0 lock_step st'"
proof (induction es arbitrary: st)
  case Nil
  then show ?case by simp
next
  case (Cons e es)
  then obtain st1 where "lock_perform e st = Some st1" "run_locks es st1 = Some st'"
    by (auto simp: bind_eq_Some_conv simp del: lock_perform.simps)
  with Cons.IH reach_step [OF Cons.prems(1), of st1] show ?case by (auto simp: lock_step_def)
qed

lemma contended_state:
  obtains st as bs where "run_locks contended lock_initial = Some st" "reach lock_initial lock_step st" "length (gs st) = 3"
    "lock_perform (Act 1) st = None" "todo (gs st ! 1) \<noteq> []" "has (gs st ! 2) = [(Shared, ChanLock 7)]"
    "todo (gs st ! 2) = Read (Members 7) # as" "todo (gs st ! 0) = Read (Members 7) # bs"
proof -
  from contended_view obtain st where st: "run_locks contended lock_initial = Some st" "length (gs st) = 3"
    "map has (gs st) = [[(Shared, ChanLock 7)], [], [(Shared, ChanLock 7)]]" "lock_perform (Act 1) st = None"
    "map (hd \<circ> todo) (gs st) = [Read (Members 7), Acquire Exclusive (ChanLock 7), Read (Members 7)]"
    "map (\<lambda>g. todo g = []) (gs st) = [False, False, False]"
    by (auto simp del: lock_perform.simps)
  obtain a b c where g: "gs st = [a, b, c]"
    using st(2) by (auto simp: numeral_3_eq_3 length_Suc_conv)
  have "todo c = Read (Members 7) # tl (todo c)" "todo a = Read (Members 7) # tl (todo a)"
    using st(5,6) by (cases "todo c", auto simp: g) (cases "todo a", auto simp: g)
  then show thesis
    using that [OF st(1) run_locks_reach [OF reach_init st(1)] st(2,4)] st(3,6) by (auto simp: g)
qed

lemma locks_never_deadlock_witness:
  "\<exists>st. run_locks contended lock_initial = Some st \<and> todo (gs st ! 1) \<noteq> [] \<and> lock_perform (Act 1) st = None \<and>
     (\<exists>k st'. lock_perform (Act k) st = Some st')"
proof (rule contended_state)
  fix st as bs
  assume st: "run_locks contended lock_initial = Some st" "reach lock_initial lock_step st" "length (gs st) = 3"
    "lock_perform (Act 1) st = None" "todo (gs st ! 1) \<noteq> []"
  have "1 < length (gs st)" by (simp add: st(3))
  then show ?thesis using locks_never_deadlock [OF st(2), of 1 1] st by blast
qed

text \<open>
  C16 No two goroutines are ever about to access the same memory of which one writes: the fields
  of clients, channels and servers and the global tables are used under their locks, or before
  the object is handed over, or not changed afterwards. And what a lock guards is still while
  anyone holds it: no other goroutine writes it, nor reads it if the lock is held exclusively, so
  that every critical section is one step for the others.
\<close>

theorem no_data_races:
  assumes "reach lock_initial lock_step st" "i < length (gs st)" "j < length (gs st)" "i \<noteq> j"
    and "todo (gs st ! i) = a # as" "todo (gs st ! j) = b # bs"
  shows "\<not> conflict a b \<and>
    ((m, l) \<in> set (has (gs st ! i)) \<and> guard f = Some l \<longrightarrow> b \<noteq> Write f \<and> (m = Exclusive \<longrightarrow> b \<noteq> Read f))"
proof (intro conjI impI notI)
  note inv = locks.inv_reach [OF assms(1)]
  assume "conflict a b"
  then show False
  proof (cases rule: conflict_cases)
    case (1 f)
    with write_excludes [OF inv assms(2-4)] assms(5,6) show ?thesis by blast
  next
    case (2 f)
    with write_excludes [OF inv assms(3,2) assms(4) [symmetric]] assms(5,6) show ?thesis by blast
  qed
qed (use guarded_access [OF locks.inv_reach [OF assms(1)] assms(2-4) _ _ assms(6)] in blast)+

lemma no_data_races_witness:
  "\<exists>st as bs. run_locks contended lock_initial = Some st \<and> todo (gs st ! 2) = Read (Members 7) # as \<and>
     todo (gs st ! 0) = Read (Members 7) # bs \<and> hd (todo (gs st ! 0)) \<noteq> Write (Members 7)"
proof (rule contended_state)
  fix st as bs
  assume st: "run_locks contended lock_initial = Some st" "reach lock_initial lock_step st" "length (gs st) = 3"
    "has (gs st ! 2) = [(Shared, ChanLock 7)]" "todo (gs st ! 2) = Read (Members 7) # as" "todo (gs st ! 0) = Read (Members 7) # bs"
  have "2 < length (gs st)" "0 < length (gs st)" "(2 :: nat) \<noteq> 0" by (simp_all add: st(3))
  from no_data_races [OF st(2) this st(5,6), of Shared "ChanLock 7" "Members 7"] st show ?thesis by auto
qed

end
