(* ===== verification/Delivery.thy ===== *)
theory Delivery
  imports System Effects "HOL-Library.Sublist"
begin

text \<open>
  The mail of the server: which messages an event of the whole system addresses to a client,
  as a function of the event and the state before it, and what every step makes of the queues.
  Together they follow a message from the line one client sends to the bytes the other reads.
\<close>

section \<open>Messages offered to a client\<close>

text \<open>
  From \<open>k\<close> to \<open>k'\<close> the messages \<open>bs\<close> were offered to the queue: some of them, in this order,
  are at its end (close markers aside), and all of them if nothing was dropped meanwhile and
  the client is still open.
\<close>

definition lines_of :: "bytes list \<Rightarrow> bytes list" where
  "lines_of q = filter (\<lambda>b. b \<noteq> []) q"

definition offered :: "bytes list \<Rightarrow> client \<Rightarrow> client \<Rightarrow> bool" where
  "offered bs k k' \<longleftrightarrow>
     wr k' = wr k \<and> messageTerminator k' = messageTerminator k \<and> (ctx_done k \<longrightarrow> ctx_done k') \<and>
     (client_inv k \<longrightarrow> client_inv k' \<and> (\<not> ctx_done k' \<longrightarrow> dropped k \<le> dropped k')) \<and>
     (\<exists>ms. subseq ms bs \<and> lines_of (sd k') = lines_of (sd k) @ ms \<and>
       (client_inv k \<and> \<not> ctx_done k' \<and> dropped k' = dropped k \<longrightarrow> ms = bs))"

lemma lines_of_simps [simp]:
  "lines_of [] = []" "lines_of (q @ q') = lines_of q @ lines_of q'"
  "lines_of (b # q) = (if b = [] then lines_of q else b # lines_of q)"
  by (simp_all add: lines_of_def)

lemma frames_lines_of: "frames t (lines_of q) = frames t q"
  by (induction q) (simp_all add: frame_def)

lemma offered_trans:
  assumes "offered as a b" "offered bs b c" shows "offered (as @ bs) a c"
proof -
  from assms obtain ms ns where
    ms: "subseq ms as" "lines_of (sd b) = lines_of (sd a) @ ms"
      "client_inv a \<and> \<not> ctx_done b \<and> dropped b = dropped a \<longrightarrow> ms = as" and
    ns: "subseq ns bs" "lines_of (sd c) = lines_of (sd b) @ ns"
      "client_inv b \<and> \<not> ctx_done c \<and> dropped c = dropped b \<longrightarrow> ns = bs"
    unfolding offered_def by blast
  have "ms @ ns = as @ bs" if "client_inv a" "\<not> ctx_done c" "dropped c = dropped a"
  proof -
    from assms that(1,2) have "client_inv b" "\<not> ctx_done b" "dropped a \<le> dropped b" "dropped b \<le> dropped c"
      unfolding offered_def by blast+
    with that(3) have "dropped b = dropped a" "dropped c = dropped b" by simp_all
    with ms(3) ns(3) that \<open>client_inv b\<close> \<open>\<not> ctx_done b\<close> show ?thesis by simp
  qed
  moreover have "subseq (ms @ ns) (as @ bs)" using ms(1) ns(1) by (rule list_emb_append_mono)
  moreover have "lines_of (sd c) = lines_of (sd a) @ (ms @ ns)" using ms(2) ns(2) by simp
  ultimately have "\<exists>l. subseq l (as @ bs) \<and> lines_of (sd c) = lines_of (sd a) @ l \<and>
      (client_inv a \<and> \<not> ctx_done c \<and> dropped c = dropped a \<longrightarrow> l = as @ bs)" by blast
  moreover have "dropped a \<le> dropped c" if "client_inv a" "\<not> ctx_done c"
    using assms that order_trans [of "dropped a" "dropped b" "dropped c"] unfolding offered_def by blast
  moreover from assms have "wr c = wr a" "messageTerminator c = messageTerminator a"
    "ctx_done a \<longrightarrow> ctx_done c" "client_inv a \<longrightarrow> client_inv c" by (simp_all add: offered_def)
  ultimately show ?thesis unfolding offered_def by blast
qed

lemma offered_Send:
  assumes "b \<noteq> []" shows "offered [b] k (Send pick b k)"
proof -
  let ?k = "Send pick b k"
  have "dropped k \<le> dropped k + 1 \<and> dropped k + 1 \<noteq> dropped k" if "client_inv k" "\<not> ctx_done k"
    using that dropped_step(1) [of "dropped k"] by (auto simp: client_inv_def word_le_nat_alt)
  then have d: "client_inv k \<longrightarrow> \<not> ctx_done ?k \<longrightarrow>
      dropped k \<le> dropped ?k \<and> (dropped ?k = dropped k \<longrightarrow> sd ?k = sd k @ [b])"
    using assms by (auto simp: Send_def Close_def Let_def client_inv_def)
  have q: "sd ?k = sd k \<or> sd ?k = sd k @ [b]" using Send_queue [of pick b k] by blast
  note f = sends_only_fields [OF sends_only_Send [of k pick b]]
  from q show ?thesis
  proof
    assume "sd ?k = sd k @ [b]"
    then show ?thesis
      using d assms client_inv_Send Send_done [of k pick b]
      unfolding offered_def f by (intro conjI impI exI [of _ "[b]"]) auto
  next
    assume s: "sd ?k = sd k"
    with d have "client_inv k \<longrightarrow> \<not> ctx_done ?k \<longrightarrow> dropped ?k \<noteq> dropped k" by auto
    with s show ?thesis
      using d client_inv_Send Send_done [of k pick b]
      unfolding offered_def f by (intro conjI impI exI [of _ "[]"]) auto
  qed
qed

text \<open>Steps that offer nothing.\<close>

lemma offered_same:
  assumes "wr k' = wr k" "messageTerminator k' = messageTerminator k" "lines_of (sd k') = lines_of (sd k)"
    "dropped k' = dropped k" "ctx_done k \<Longrightarrow> ctx_done k'" "client_inv k \<Longrightarrow> client_inv k'"
  shows "offered [] k k'"
  using assms by (simp add: offered_def)

lemma offered_refl [simp]: "offered [] k k"
  by (simp add: offered_same)

lemma offered_setters [simp]:
  "offered [] k (Close k)" "offered [] k (ClearChannel k)" "offered [] k (SetChannel r k)"
  "offered [] k (SetAuthorized b k)" "offered [] k (SetConnectionType t k)" "offered [] k (SetVersion v k)"
  using client_inv_setters [of k] by (auto intro!: offered_same) (auto simp: setter_defs)

lemma offered_enter [simp]: "offered [] k (SetChannel r (SetAuthorized b k))"
  using offered_trans [OF offered_setters(4) offered_setters(3)] by fastforce

lemma offered_teardown: "ctx_done k \<Longrightarrow> offered [] k (teardown k)"
  using client_inv_teardown [of k] by (intro offered_same) (simp_all add: teardown_def)

lemma offered_graceful: "CloseGracefully pick k = Ok k' \<Longrightarrow> offered [] k k'"
  using client_inv_CloseGracefully [of k pick k']
  by (intro offered_same) (auto simp: CloseGracefully_def Close_def split: if_splits)

lemma mustEncode_ne [simp]: "mustEncode d \<noteq> []"
  using clean_mustEncode [of d] by (simp add: clean_def)

lemma offered_send_data: "offered [mustEncode d] k (send_data pk x d k)"
  by (simp add: send_data_def offered_Send)

lemma offered_send_list: "offered (map mustEncode ds) k (fold (send_data pk x) ds k)"
proof (induction ds arbitrary: k)
  case Nil
  then show ?case by simp
next
  case (Cons d ds)
  from offered_trans [OF offered_send_data Cons.IH] show ?case by simp
qed

section \<open>The mail of an event\<close>

text \<open>
  The messages an event addresses to client \<open>x\<close>: a line that client \<open>y\<close> sent, the second
  half of a join, a departure, a ping.
\<close>

definition mail_reply :: "cmd_env \<Rightarrow> data \<Rightarrow> bytes list" where
  "mail_reply env d =
     (if Type d = ''join'' then
        (if fst (getChannelParams (Channel d)) = []
         then [mustEncode (zero_data\<lparr>Type := ''error'', Error := ''invalid_parameters''\<rparr>)] else [])
      else if Type d = ''generate_key'' then
        (case gen_key (ce_rng env) (ce_worlds env) (ce_pos env) of
           Some (Inr key) \<Rightarrow> [mustEncode (zero_data\<lparr>Type := ''generate_key'', Key := key\<rparr>)]
         | _ \<Rightarrow> [])
      else [])"

definition mail_receive :: "cmd_env \<Rightarrow> nat \<Rightarrow> bytes \<Rightarrow> world \<Rightarrow> nat \<Rightarrow> bytes list" where
  "mail_receive env y b w x =
     (case cl w y of None \<Rightarrow> []
      | Some k \<Rightarrow>
          (case cchan k of
             None \<Rightarrow> if x = y then (case Decode b of Inl e \<Rightarrow> [] | Inr d \<Rightarrow> mail_reply env d) else []
           | Some r \<Rightarrow>
               if x \<noteq> y then (if room_of w x = Some r then [fst (JsonAddOrigin b (cid k))] else [])
               else if snd (JsonAddOrigin b (cid k)) = None \<and> length (members r w) \<le> 1 then [not_connected_msg]
               else []))"

definition mail_commit :: "nat \<Rightarrow> nat option \<Rightarrow> bytes \<Rightarrow> bytes \<Rightarrow> bool \<Rightarrow> world \<Rightarrow> nat \<Rightarrow> bytes list" where
  "mail_commit y f name password locked w x =
     (case cl w y of None \<Rightarrow> []
      | Some k \<Rightarrow>
          (case f of
             None \<Rightarrow>
               if x = y then
                 map mustEncode (join_replies name (cid k) []
                   (Lmotd (fresh_channel name password locked) (connectionType k) name password) w)
               else []
           | Some r \<Rightarrow>
               (case ch w r of None \<Rightarrow> []
                | Some c \<Rightarrow>
                    if map_of (members r w) (cid k) \<noteq> None then []
                    else if x = y then
                      map mustEncode (join_replies (ch_name c) (cid k) (members r w)
                        (Lmotd c (connectionType k) (ch_name c) password) w)
                    else if room_of w x = Some r
                      then [mustEncode (client_joined_msg (ch_name c) (cid k) (connectionType k))]
                    else [])))"

definition mail_leave :: "nat \<Rightarrow> world \<Rightarrow> nat \<Rightarrow> bytes list" where
  "mail_leave y w x =
     (case cl w y of None \<Rightarrow> []
      | Some k \<Rightarrow>
          if x \<noteq> y \<and> cchan k \<noteq> None \<and> room_of w x = cchan k
          then [mustEncode (client_left_msg (cid k) (connectionType k))] else [])"

fun mail :: "int \<Rightarrow> event \<Rightarrow> system \<Rightarrow> nat \<Rightarrow> bytes list" where
  "mail mx (EReceive env y input) sy x =
     (case ReadBytes EndMessage input of None \<Rightarrow> []
      | Some (m, rest) \<Rightarrow>
          (case handle_frame mx m of Received b \<Rightarrow> mail_receive env y b (sw sy) x | _ \<Rightarrow> []))"
| "mail mx (ECommit pk y) sy x =
     (case stages sy y of
        Some (Joining f n p l) \<Rightarrow> mail_commit y f n p l (sw sy) x
      | _ \<Rightarrow> [])"
| "mail mx (ELeave pk y) sy x = mail_leave y (sw sy) x"
| "mail mx (EPing pick y) sy x = (if x = y then [ping_msg] else [])"
| "mail mx e sy x = []"

lemma join_replies_type: "dd \<in> set (join_replies n i m lm w) \<Longrightarrow> Type dd \<in> {''channel_joined'', ''motd''}"
  by (auto simp: join_replies_def channel_joined_msg_def motd_msg_def Let_def split: option.splits if_splits)

text \<open>The mail of a whole run.\<close>

fun mails :: "int \<Rightarrow> event list \<Rightarrow> system \<Rightarrow> nat \<Rightarrow> bytes list" where
  "mails mx [] sy x = []"
| "mails mx (e # es) sy x =
     (case perform mx e sy of None \<Rightarrow> [] | Some sy' \<Rightarrow> mail mx e sy x @ mails mx es sy' x)"

lemma mails_snoc:
  "run_events mx es sy = Some s1 \<Longrightarrow> perform mx e s1 = Some sy' \<Longrightarrow>
     mails mx (es @ [e]) sy x = mails mx es sy x @ mail mx e s1 x"
proof (induction es arbitrary: sy)
  case Nil
  then show ?case by simp
next
  case (Cons a es)
  then show ?case by (auto simp: bind_eq_Some_conv)
qed

section \<open>What a step makes of the queues\<close>

text \<open>
  \<open>carries ml w w'\<close>: every client is offered its mail. The writer is the only one who takes
  messages out.
\<close>

definition carries :: "(nat \<Rightarrow> bytes list) \<Rightarrow> world \<Rightarrow> world \<Rightarrow> bool" where
  "carries ml w w' \<longleftrightarrow> (\<forall>x. rel_option (offered (ml x)) (cl w x) (cl w' x))"

lemma carriesD: "carries ml w w' \<Longrightarrow> cl w x = Some k \<Longrightarrow> \<exists>k'. cl w' x = Some k' \<and> offered (ml x) k k'"
  unfolding carries_def by (metis option_rel_Some1)

lemma carries_refl [simp]: "carries (\<lambda>_. []) w w"
  by (simp add: carries_def option.rel_refl)

lemma carries_own:
  assumes "\<And>y. y \<noteq> x \<Longrightarrow> cl w' y = cl w y \<and> ml y = []" "cl w x = Some k" "cl w' x = Some k'" "offered (ml x) k k'"
  shows "carries ml w w'"
proof -
  have "rel_option (offered (ml y)) (cl w y) (cl w' y)" for y
    using assms by (cases "y = x") (simp_all add: option.rel_refl)
  then show ?thesis by (simp add: carries_def)
qed

text \<open>One message to everybody who satisfies \<open>P\<close>.\<close>

lemma carries_broadcast:
  assumes "\<And>y. cl w' y = (if P y then map_option (Send (pk y) msg) (cl w y) else cl w y)" "msg \<noteq> []"
    and "\<And>y. cl w y \<noteq> None \<Longrightarrow> ml y = (if P y then [msg] else [])"
  shows "carries ml w w'"
proof -
  have "rel_option (offered (ml y)) (cl w y) (cl w' y)" for y
    using assms(1,3) [of y] offered_Send [OF assms(2)] by (cases "cl w y") simp_all
  then show ?thesis by (simp add: carries_def)
qed

lemma carries_reply:
  assumes k: "cl w x = Some k" "cchan k = None" and b: "cmd_begin env x d w = Ok (w', c)"
  shows "carries (\<lambda>y. if y = x then mail_reply env d else []) w w'"
proof -
  have set_only: "carries (\<lambda>y. if y = x then [] else []) w (upd_cl x f w)" if "offered [] k (f k)" for f
    by (rule carries_own [of x _ _ _ k "f k"]) (use k that in simp_all)
  have send: "carries (\<lambda>y. if y = x then [mustEncode e] else []) w (upd_cl x f (client_Send pk x (mustEncode e) w))"
    if "\<And>j. offered [] j (f j)" for f pk e
  proof -
    have "offered ([mustEncode e] @ []) k (f (Send (pk x (mustEncode e)) (mustEncode e) k))"
      by (rule offered_trans [OF offered_Send that]) simp
    then show ?thesis
      by (intro carries_own [of x _ _ _ k "f (Send (pk x (mustEncode e)) (mustEncode e) k)"])
        (use k in \<open>simp_all add: client_Send_def\<close>)
  qed
  have same: "upd_cl x (\<lambda>j. j) v = v" for v by (simp add: upd_cl_def heap_upd_def fun_upd_idem option.map_ident)
  have encodes: "Encode e = Some (mustEncode e)" for e by (simp add: mustEncode_def Encode_def)
  have quiet: ?thesis if m: "mail_reply env d = []" and w': "w' = upd_cl x f w" and "offered [] k (f k)" for f
    using set_only [of f] that(3) unfolding m w' by blast
  consider "Type d = ''join''" | "Type d = ''protocol_version''" | "Type d = ''generate_key''"
    | "Type d \<noteq> ''join''" "Type d \<noteq> ''protocol_version''" "Type d \<noteq> ''generate_key''" by blast
  then show ?thesis
  proof cases
    case 1
    obtain n p l where g: "getChannelParams (Channel d) = (n, p, l)" by (cases "getChannelParams (Channel d)") auto
    from 1 b have j: "join_begin (ce_picks env) x d w = (w', c)" by (simp add: cmd_begin_def)
    show ?thesis
    proof (cases "n = []")
      case True
      with j k g have w': "w' = upd_cl x Close (client_Send (ce_picks env) x
          (mustEncode (zero_data\<lparr>Type := ''error'', Error := ''invalid_parameters''\<rparr>)) w)"
        by (simp add: join_begin_def sendError_def encodes)
      from 1 g True have m: "mail_reply env d =
          [mustEncode (zero_data\<lparr>Type := ''error'', Error := ''invalid_parameters''\<rparr>)]"
        by (simp add: mail_reply_def)
      show ?thesis unfolding w' m by (rule send) simp
    next
      case False
      with j k g have w': "w' = upd_cl x (SetConnectionType (ConnectionType d)) w"
        by (simp add: join_begin_def Let_def)
      with 1 g False show ?thesis by (intro quiet [OF _ w']) (simp_all add: mail_reply_def)
    qed
  next
    case 2
    with b same quiet [of "SetVersion (Version d)"] quiet [of "\<lambda>j. j"] show ?thesis
      by (auto simp: cmd_begin_def protocol_version_handler_def mail_reply_def split: if_splits)
  next
    case 3
    with b have g: "generate_begin env x w = Ok (w', c)" by (simp add: cmd_begin_def)
    show ?thesis
    proof (cases "\<exists>key. gen_key (ce_rng env) (ce_worlds env) (ce_pos env) = Some (Inr key)")
      case True
      then obtain key where key: "gen_key (ce_rng env) (ce_worlds env) (ce_pos env) = Some (Inr key)" ..
      with 3 have m: "mail_reply env d = [mustEncode (zero_data\<lparr>Type := ''generate_key'', Key := key\<rparr>)]"
        by (simp add: mail_reply_def)
      from g key have w': "w' = upd_cl x (\<lambda>j. j) (client_Send (ce_picks env) x
          (mustEncode (zero_data\<lparr>Type := ''generate_key'', Key := key\<rparr>)) w)"
        by (simp add: generate_begin_def sendJSON_def encodes same)
      show ?thesis unfolding w' m by (rule send) simp
    next
      case False
      with g quiet [of Close] 3 show ?thesis
        by (auto simp: generate_begin_def mail_reply_def split: option.splits sum.splits)
    qed
  next
    case 4
    with b same quiet [of "\<lambda>j. j"] show ?thesis by (simp add: cmd_begin_def mail_reply_def)
  qed
qed

lemma carries_receive:
  assumes inv: "world_inv w" and con: "connected x w" and b: "clean b"
    and r: "receive_begin env x b w = Ok (w', c)"
  shows "carries (mail_receive env x b w) w w'"
proof -
  from con obtain k where k: "cl w x = Some k" and f: "FindClient x w" by (auto simp: connected_def FindClient_def)
  show ?thesis
  proof (cases "cchan k")
    case None
    show ?thesis
    proof (cases "Decode b")
      case (Inl e)
      with k None have "mail_receive env x b w = (\<lambda>_. [])" by (intro ext) (simp add: mail_receive_def)
      with Inl r k f None carries_refl [of w] show ?thesis by (simp add: receive_begin_def)
    next
      case (Inr d)
      with k None have "mail_receive env x b w = (\<lambda>y. if y = x then mail_reply env d else [])"
        by (intro ext) (simp add: mail_receive_def)
      with Inr carries_reply [OF k None, of env d w' c] r k f None show ?thesis by (simp add: receive_begin_def)
    qed
  next
    case (Some q)
    note d = world_inv_distinct_addr [OF inv, of q]
    have q: "room_of w x = Some q" using k Some by (simp add: room_of_Some)
    let ?m = "fst (JsonAddOrigin b (cid k))" and ?pk = "ce_picks env"
    have m: "?m \<noteq> []" using clean_JsonAddOrigin [OF b] by (simp add: clean_def)
    show ?thesis
    proof (cases "snd (JsonAddOrigin b (cid k))")
      case e: (Some e)
      with r k f Some have w': "w' = SendAll ?pk q ?m (Some x) w"
        by (simp add: receive_begin_def split: prod.splits)
      show ?thesis
        by (rule carries_broadcast [OF _ m, where P = "\<lambda>y. y \<noteq> x \<and> room_of w y = Some q" and pk = "\<lambda>y. ?pk y ?m"])
          (use e k Some in \<open>simp_all add: w' SendAll_effect [OF inv] mail_receive_def\<close>)
    next
      case e: None
      with r k f Some have w': "w' = SendOthers ?pk q ?m (Some x) w"
        by (simp add: receive_begin_def split: prod.splits)
      note at = SendOthers_at [OF d, of ?pk ?m x, folded w']
      show ?thesis
      proof (cases "length (members q w) \<le> 1")
        case True
        with alone_iff [OF inv q] have "room_of w y = Some q \<Longrightarrow> y = x" for y by blast
        with True at e k Some show ?thesis
          by (intro carries_broadcast [where P = "\<lambda>y. y = x" and pk = "\<lambda>y. ?pk y not_connected_msg"
                and msg = not_connected_msg])
            (auto simp: mail_receive_def not_connected_msg_def)
      next
        case False
        with at targets_room [OF inv] e k Some show ?thesis
          by (intro carries_broadcast [OF _ m, where P = "\<lambda>y. y \<noteq> x \<and> room_of w y = Some q" and pk = "\<lambda>y. ?pk y ?m"])
            (simp_all add: mail_receive_def)
      qed
    qed
  qed
qed

lemma carries_own_and_room:
  assumes "\<And>y. cl w' y = (if y = x then Some (fold (send_data pk x) ds (f k))
       else if room_of w y = Some r then map_option (send_data pk y e) (cl w y) else cl w y)"
    and k: "cl w x = Some k" "offered [] k (f k)"
    and ml: "ml x = map mustEncode ds" "\<And>y. y \<noteq> x \<Longrightarrow> ml y = (if room_of w y = Some r then [mustEncode e] else [])"
  shows "carries ml w w'"
proof -
  have "offered (ml x) k (fold (send_data pk x) ds (f k))"
    using offered_trans [OF k(2) offered_send_list] ml(1) by simp
  moreover have "rel_option (offered (ml y)) (cl w y) (cl w' y)" if "y \<noteq> x" for y
    using that assms(1) [of y] ml(2) [OF that] offered_send_data by (cases "cl w y") simp_all
  moreover have "cl w' x = Some (fold (send_data pk x) ds (f k))" by (simp add: assms(1) [of x])
  ultimately have "rel_option (offered (ml y)) (cl w y) (cl w' y)" for y
    using k(1) by (cases "y = x") simp_all
  then show ?thesis by (simp add: carries_def)
qed

lemma carries_commit:
  assumes inv: "world_inv w" and k: "cl w x = Some k" "cchan k = None"
    and args: "n \<noteq> []" "p \<noteq> [] \<Longrightarrow> l" and ok: "join_commit pk x f n p l w = Ok w'"
  shows "carries (mail_commit x f n p l w) w w'"
proof (cases f)
  case None
  let ?c = "fresh_channel n p l"
  from None ok have A: "AddChannel pk n p l x w = Ok w'" by (simp add: join_commit_def)
  obtain w1 where w1: "AddChannel pk n p l x w = Ok w1"
    "\<And>y. cl w1 y =
      (if y = x then Some (fold (send_data pk x) (join_replies n (cid k) [] (Lmotd ?c (connectionType k) n p) w)
           (SetChannel (next_ch w) (SetAuthorized (grants ?c p) k)))
       else cl w y)"
    using AddChannel_effect [where pk = pk, OF inv k args(2,1)] by blast
  from offered_trans [OF offered_enter offered_send_list] w1 A show ?thesis
    by (intro carries_own [of x, OF _ k(1)]) (auto simp: None mail_commit_def k)
next
  case (Some r)
  from Some ok have A: "Add pk r x p w = Ok w'" by (simp add: join_commit_def)
  then obtain c where c: "ch w r = Some c" by (cases "ch w r") (simp_all add: Add_def)
  note A' = A [unfolded Add_unfold [OF c k(1)] Let_def]
  show ?thesis
  proof (cases "map_of (members r w) (cid k)")
    case (Some a)
    with A' have w': "w' = upd_cl x (SetAuthorized (grants c p)) w" by simp
    have "mail_commit x f n p l w = (\<lambda>_. [])"
      using Some \<open>f = Some r\<close> c k by (intro ext) (simp add: mail_commit_def)
    then show ?thesis
      by (intro carries_own [of x, OF _ k(1), where k' = "SetAuthorized (grants c p) k"]) (simp_all add: w' k)
  next
    case None
    with A' obtain m where m: "ClientsAll c = Some m" by (cases "ClientsAll c") simp_all
    then have mem: "members r w = m" using c by (simp add: members_def)
    obtain w1 where w1: "Add pk r x p w = Ok w1"
      "\<And>y. cl w1 y =
        (if y = x then Some (fold (send_data pk x)
             (join_replies (ch_name c) (cid k) m (Lmotd c (connectionType k) (ch_name c) p) w)
             (SetChannel r (SetAuthorized (grants c p) k)))
         else if room_of w y = Some r
           then map_option (send_data pk y (client_joined_msg (ch_name c) (cid k) (connectionType k))) (cl w y)
         else cl w y)"
      using Add_effect [where pk = pk and password = p, OF inv k c m] None mem by blast
    from A w1 show ?thesis
      by (intro carries_own_and_room [where f = "\<lambda>k. SetChannel r (SetAuthorized (grants c p) k)" and k = k and r = r
            and x = x and pk = pk])
        (simp_all add: mail_commit_def \<open>f = Some r\<close> k c None [unfolded mem] mem)
  qed
qed

lemma carries_leave:
  assumes inv: "world_inv w" and k: "cl w x = Some k" and ok: "leave_channel pk x w = Ok w'"
  shows "carries (mail_leave x w) w w'"
proof (cases "cchan k")
  case None
  with k ok have "w' = w" "mail_leave x w = (\<lambda>_. [])" by (auto simp: leave_channel_def mail_leave_def)
  then show ?thesis by simp
next
  case (Some r)
  with k ok have R: "Remove pk r x w = Ok w'" by (simp add: leave_channel_def)
  then obtain c where c: "ch w r = Some c" by (cases "ch w r") (simp_all add: Remove_def)
  show ?thesis
    by (rule carries_own_and_room [where ds = "[]" and f = ClearChannel and r = r and x = x and k = k
          and e = "client_left_msg (cid k) (connectionType k)" and pk = pk])
      (use Remove_effect [OF inv k Some c R] k Some in \<open>simp_all add: mail_leave_def\<close>)
qed

text \<open>A step of the system that is not the writer's and does not crash the process.\<close>

lemma settle_running:
  assumes "settle x r sy = Some sy'" "crash sy = None" "crash sy' = None" "\<And>w c. r \<noteq> Goexit (w, c)"
  obtains w c where "r = Ok (w, c)" "sw sy' = w"
  using assms by (cases "(x, r, sy)" rule: settle.cases) (auto simp: set_stage_def)

lemma carries_perform:
  assumes inv: "sys_inv sy" and p: "perform mx e sy = Some sy'" and c: "crash sy' = None"
    and e: "\<And>net we x. e \<noteq> EWriter net we x" "\<And>addr s. e \<noteq> EAccept addr s"
  shows "carries (mail mx e sy) (sw sy) (sw sy')"
proof -
  have W: "world_inv (sw sy)" "settled (sw sy)" using inv by (simp_all add: sys_inv_def)
  from p have r: "crash sy = None" and q: "perform_running mx e sy = Some sy'"
    by (simp_all add: perform_def split: if_splits)
  have quiet: "carries (mail mx e sy) (sw sy) (upd_cl x f (sw sy))"
    if "mail mx e sy = (\<lambda>_. [])" "cl (sw sy) x = Some k" "offered [] k (f k)" for x f k
    using carries_own [of x "upd_cl x f (sw sy)" "sw sy" "mail mx e sy" k "f k"] that by simp
  note reader = connected_reader [OF inv]
  show ?thesis
  proof (cases e)
    case (EAccept addr s)
    with e(2) [of addr s] show ?thesis by simp
  next
    case (EWriter net we x)
    with e(1) [of net we x] show ?thesis by simp
  next
    case (EReceive env x input)
    with q obtain m rest b where m: "stages sy x = Some Reading" "ReadBytes EndMessage input = Some (m, rest)"
      "handle_frame mx m = Received b" "settle x (receive_begin env x b (sw sy)) sy = Some sy'"
      by (auto split: option.splits stage.splits prod.splits frame_action.splits)
    have con: "connected x (sw sy)" using reader [OF m(1)] by simp
    have b: "clean b" by (rule handle_frame_clean(1) [OF m(2,3)])
    note R = receive_begin_ok [OF W con b, where env = env]
    from m(4) r c obtain w' t where s: "receive_begin env x b (sw sy) = Ok (w', t)" "sw sy' = w'"
      by (rule settle_running) (use R(2) in blast)
    from carries_receive [OF W(1) con b s(1)] s(2) m EReceive show ?thesis by (simp add: fun_eq_iff carries_def)
  next
    case (ECommit pk x)
    with q obtain f n p l where st: "stages sy x = Some (Joining f n p l)"
      and s: "settle x (finished (join_commit pk x f n p l (sw sy))) sy = Some sy'"
      by (auto split: option.splits stage.splits)
    have "stage_ok (sw sy) x (Joining f n p l)" using inv st by (simp only: sys_inv_def)
    then obtain k where k: "cl (sw sy) x = Some k" "cchan k = None" "n \<noteq> []" "p \<noteq> [] \<longrightarrow> l"
      by (auto simp: outside_def join_args_def)
    from s r c obtain w' t where "finished (join_commit pk x f n p l (sw sy)) = Ok (w', t)" "sw sy' = w'"
      by (rule settle_running) (use second_part_no_Goexit(1) in \<open>cases "join_commit pk x f n p l (sw sy)"; auto\<close>)
    then have "join_commit pk x f n p l (sw sy) = Ok (sw sy')"
      by (cases "join_commit pk x f n p l (sw sy)") simp_all
    from carries_commit [OF W(1) k(1,2,3) _ this] k(4) ECommit st show ?thesis by (simp add: carries_def)
  next
    case (EGraceful pick x)
    with q have st: "stages sy x = Some Closing"
      and s: "settle x (finished (client_CloseGracefully pick x (sw sy))) sy = Some sy'"
      by (simp_all split: if_splits)
    from s r c obtain w' t where "finished (client_CloseGracefully pick x (sw sy)) = Ok (w', t)" "sw sy' = w'"
      by (rule settle_running) (use second_part_no_Goexit(2) in \<open>cases "client_CloseGracefully pick x (sw sy)"; auto\<close>)
    then have "client_CloseGracefully pick x (sw sy) = Ok (sw sy')"
      by (cases "client_CloseGracefully pick x (sw sy)") simp_all
    then obtain k k' where k: "cl (sw sy) x = Some k" "CloseGracefully pick k = Ok k'" "sw sy' = upd_cl x (\<lambda>_. k') (sw sy)"
      by (auto simp: client_CloseGracefully_def split: option.splits go.splits)
    with quiet [of x k "\<lambda>_. k'"] offered_graceful [OF k(2)] EGraceful show ?thesis by (simp add: fun_eq_iff)
  next
    case (EHangup x)
    with q have st: "stages sy x = Some Reading" and s: "sy' = set_stage x Leaving (upd_cl x Close (sw sy)) sy"
      by (simp_all split: if_splits)
    from reader [OF st] obtain k where "cl (sw sy) x = Some k" by auto
    with quiet [of x k Close] EHangup s show ?thesis by (simp add: fun_eq_iff set_stage_def)
  next
    case (ELeave pk x)
    with q have st: "stages sy x = Some Leaving" by (simp split: if_splits)
    from reader [OF st] obtain k where k: "cl (sw sy) x = Some k" by auto
    from q ELeave st c obtain w' where w': "leave_channel pk x (sw sy) = Ok w'" "sy' = set_stage x Deleting w' sy"
      by (auto split: go.splits)
    from carries_leave [OF W(1) k w'(1)] w'(2) ELeave show ?thesis by (simp add: carries_def set_stage_def)
  next
    case (EDelete x)
    with q have "sy' = set_stage x Gone (delete_client x (sw sy)) sy" by (simp split: if_splits)
    then have "cl (sw sy') = cl (sw sy)" by (simp add: set_stage_def delete_client_def)
    with EDelete show ?thesis by (simp add: carries_def option.rel_refl)
  next
    case (EPing pick x)
    with q obtain k where k: "cl (sw sy) x = Some k" "sy' = sy\<lparr>sw := upd_cl x (ping pick) (sw sy)\<rparr>"
      by (auto split: option.splits if_splits)
    have "ping_msg \<noteq> []" by (simp add: ping_msg_def)
    from offered_Send [OF this] k EPing show ?thesis
      by (intro carries_own [of x _ _ _ k "ping pick k"]) (simp_all add: ping_def)
  next
    case (ETeardown x)
    with q obtain k where k: "cl (sw sy) x = Some k" "ctx_done k" "sy' = sy\<lparr>sw := upd_cl x teardown (sw sy)\<rparr>"
      by (auto split: option.splits if_splits)
    with quiet [of x k teardown] offered_teardown [OF k(2)] ETeardown show ?thesis by (simp add: fun_eq_iff)
  next
    case (EStop s)
    have "rel_option (offered []) (cl (sw sy) x) (cl (close_all s (sw sy)) x)" for x
      by (cases "cl (sw sy) x") (simp_all add: close_all_def)
    with q EStop show ?thesis by (auto simp: carries_def)
  qed
qed

lemma perform_crash: "perform mx e sy = Some sy' \<Longrightarrow> crash sy' \<noteq> None \<Longrightarrow> sw sy' = sw sy"
proof -
  have s: "settle x r sy = Some sy' \<Longrightarrow> crash sy = None \<Longrightarrow> crash sy' \<noteq> None \<Longrightarrow> sw sy' = sw sy" for x r
    by (cases "(x, r, sy)" rule: settle.cases) (auto simp: set_stage_def)
  show "perform mx e sy = Some sy' \<Longrightarrow> crash sy' \<noteq> None \<Longrightarrow> sw sy' = sw sy"
    by (cases e)
      (auto simp: perform_def set_stage_def s
        split: if_splits option.splits stage.splits frame_action.splits go.splits prod.splits)
qed

lemma mail_nobody:
  assumes "cl (sw sy) x = None" "perform mx e sy = Some sy'"
  shows "mail mx e sy x = []"
proof -
  have r: "room_of (sw sy) x = None" using assms(1) by (simp add: room_of_def)
  show ?thesis
  proof (cases e)
    case (EPing pick y)
    with assms show ?thesis by (auto simp: perform_def split: if_splits)
  qed (use assms(1) r in
      \<open>auto simp: mail_receive_def mail_commit_def mail_leave_def
        split: option.split prod.split frame_action.split stage.split\<close>)
qed

section \<open>From the sender to the wire\<close>

text \<open>
  What holds of a client to which \<open>ml\<close> was addressed so far: its stream is made of a part of
  it, in order, and of all of it if it is open and nothing was dropped.
\<close>

definition served :: "bytes list \<Rightarrow> bool \<Rightarrow> client \<Rightarrow> bool" where
  "served ml alive k \<longleftrightarrow>
     messageTerminator k = EndMessage \<and> (\<not> ctx_done k \<longrightarrow> w_running (wr k)) \<and>
     (\<exists>ms. subseq ms ml \<and> tracks (frames EndMessage ms) k \<and>
       (alive \<and> \<not> ctx_done k \<and> dropped k = 0 \<longrightarrow> ms = ml))"

lemma served_new: "served [] alive (SetID i (new_client EndMessage addr s pd))"
  by (auto simp: served_def SetID_def tracks_def stream_def new_client_def new_writer_def intro!: exI [of _ "[]"])

lemma served_offered:
  assumes "served ml True k" "client_inv k" "offered bs k k'"
  shows "served (ml @ bs) True k'"
proof -
  from assms(1) obtain ms where ms: "subseq ms ml" "tracks (frames EndMessage ms) k"
    "\<not> ctx_done k \<and> dropped k = 0 \<longrightarrow> ms = ml" by (auto simp: served_def)
  from assms(3) obtain ns where ns: "subseq ns bs" "lines_of (sd k') = lines_of (sd k) @ ns"
    "client_inv k \<and> \<not> ctx_done k' \<and> dropped k' = dropped k \<longrightarrow> ns = bs" unfolding offered_def by blast
  from assms(3) have w: "wr k' = wr k" "messageTerminator k' = messageTerminator k" "ctx_done k \<longrightarrow> ctx_done k'"
    by (simp_all add: offered_def)
  have t: "messageTerminator k = EndMessage" using assms(1) by (simp add: served_def)
  have "frames EndMessage (sd k') = frames EndMessage (sd k) @ frames EndMessage ns"
    using arg_cong [OF ns(2), of "frames EndMessage"] by (simp add: frames_lines_of)
  then have "tracks (frames EndMessage (ms @ ns)) k'"
    using ms(2) by (auto simp: tracks_def stream_def w(1,2) t)
  moreover have "subseq (ms @ ns) (ml @ bs)" using ms(1) ns(1) by (rule list_emb_append_mono)
  moreover have "ms @ ns = ml @ bs" if "\<not> ctx_done k'" "dropped k' = 0"
  proof -
    have "dropped k \<le> dropped k'" using assms(2,3) that(1) unfolding offered_def by blast
    with that w(3) ms(3) ns(3) assms(2) show ?thesis by simp
  qed
  ultimately show ?thesis using assms(1) w t unfolding served_def by (metis (no_types))
qed

lemma writer_step_keeps:
  "client_inv k \<Longrightarrow> (ctx_done k \<longrightarrow> ctx_done (writer_step net e k)) \<and> dropped (writer_step net e k) = dropped k \<and>
     (w_running (wr k) \<longrightarrow> \<not> ctx_done (writer_step net e k) \<longrightarrow> w_running (wr (writer_step net e k)))"
  by (auto simp: client_inv_def writer_step_def writer_take_def writer_timer_def Let_def set_wr_def Close_def
      stop_writer_def split: list.split writer_event.split)

lemma served_writer:
  assumes "served ml alive k" "client_inv k" shows "served ml alive (writer_step net e k)"
proof -
  from assms(1) obtain ms where ms: "subseq ms ml" "tracks (frames EndMessage ms) k"
    "alive \<and> \<not> ctx_done k \<and> dropped k = 0 \<longrightarrow> ms = ml" by (auto simp: served_def)
  have "tracks (frames EndMessage ms) (writer_step net e k)"
    using tracks_step [OF ms(2), of "CWriter net e" "writer_step net e k"] by (simp add: accepts_def)
  with ms assms(1) writer_step_keeps [OF assms(2), of net e] show ?thesis
    by (auto simp: served_def intro!: exI [of _ ms])
qed

lemma served_crash: "served ml True k \<Longrightarrow> served (ml @ bs) False k"
  by (auto simp: served_def intro: list_emb_append2 subseq_order.trans)

lemma run_served:
  assumes "run_events mx es (initial m d) = Some sy"
  shows "case cl (sw sy) x of None \<Rightarrow> mails mx es (initial m d) x = []
    | Some k \<Rightarrow> served (mails mx es (initial m d) x) (crash sy = None) k"
  using assms
proof (induction es arbitrary: sy rule: rev_induct)
  case Nil
  then show ?case by (auto simp: initial_def empty_world_def)
next
  case (snoc e es)
  let ?s0 = "initial m d"
  from snoc.prems obtain s1 where s1: "run_events mx es ?s0 = Some s1" and p: "perform mx e s1 = Some sy"
    by (auto simp: run_events_snoc)
  from snoc.IH [OF s1] have IH: "case cl (sw s1) x of None \<Rightarrow> mails mx es ?s0 x = []
    | Some k \<Rightarrow> served (mails mx es ?s0 x) True k"
    using p by (auto simp: perform_def split: if_splits option.split)
  have inv: "sys_inv s1"
    using sys.inv_reach [OF run_events_reach [OF reach_init s1]] .
  note M = mails_snoc [OF s1 p, of x]
  have ci: "client_inv k" if "cl (sw s1) x = Some k" for k
    using world_invD(1) [of "sw s1" x k] inv that by (simp add: sys_inv_def client_ok_def)
  show ?case
  proof (cases "crash sy")
    case (Some c)
    with perform_crash [OF p] IH mail_nobody [OF _ p, of x] served_crash show ?thesis
      unfolding M by (auto split: option.splits)
  next
    case None
    consider (accept) addr s where "e = EAccept addr s" | (writer) net we y where "e = EWriter net we y"
      | (other) "\<And>net we y. e \<noteq> EWriter net we y" "\<And>addr s. e \<noteq> EAccept addr s" by (cases e) auto
    then show ?thesis
    proof cases
      case accept
      obtain y w' where a: "accept addr s (stopped s1 s) (sw s1) = (y, w')" by fastforce
      with p accept have w: "sw sy = w'" by (auto simp: perform_def set_stage_def split: if_splits)
      have "cl (sw s1) y = None"
        using world_invD(1) [of "sw s1" y] inv accept_simps(1) [OF a]
        by (cases "cl (sw s1) y") (auto simp: sys_inv_def client_ok_def)
      with IH accept accept_simps(7) [OF a, of x] served_new None w show ?thesis
        unfolding M by (auto split: option.splits)
    next
      case writer
      then obtain k where "cl (sw s1) y = Some k" "sw sy = upd_cl y (writer_step net we) (sw s1)"
        using p by (auto simp: perform_def split: if_splits option.splits)
      with IH writer served_writer [OF _ ci] None show ?thesis unfolding M by (auto split: option.splits)
    next
      case other
      from carries_perform [OF inv p None this] have
        r: "rel_option (offered (mail mx e s1 x)) (cl (sw s1) x) (cl (sw sy) x)" by (simp add: carries_def)
      show ?thesis
      proof (cases "cl (sw s1) x")
        case None
        with r IH mail_nobody [OF None p] show ?thesis unfolding M by simp
      next
        case (Some k)
        with r obtain k' where "cl (sw sy) x = Some k'" "offered (mail mx e s1 x) k k'" by (auto simp: option_rel_Some1)
        with served_offered [OF _ ci [OF Some]] IH Some None show ?thesis unfolding M by simp
      qed
    qed
  qed
qed

end
