(* ===== verification/Delivery_Properties.thy ===== *)
theory Delivery_Properties
  imports Delivery Scenarios Connection_Properties
begin

text \<open>
  From one end to the other: what the peer of a client reads in a run of the whole server, in
  terms of what the other clients sent and did.
\<close>

section \<open>The mail is made of lines\<close>

lemma mail_clean:
  assumes "b \<in> set (mail mx e sy x)" shows "clean b"
proof -
  have reply: "list_all clean (mail_reply env d)" for env d
    by (simp add: mail_reply_def clean_mustEncode split: option.split sum.split)
  have r: "list_all clean (mail_receive env y p w x)" if "clean p" for env y p w
    using clean_JsonAddOrigin [OF that] clean_constants reply
    by (simp add: mail_receive_def split: option.split sum.split)
  show ?thesis
  proof (cases e)
    case (EReceive env y input)
    with assms obtain m rest where m: "ReadBytes EndMessage input = Some (m, rest)"
      by (cases "ReadBytes EndMessage input") auto
    with assms EReceive obtain p where "handle_frame mx m = Received p" "b \<in> set (mail_receive env y p (sw sy) x)"
      by (cases "handle_frame mx m") auto
    with r [of p env y "sw sy"] handle_frame_clean(1) [OF m] show ?thesis by (auto simp: list_all_iff)
  qed (use assms clean_constants in
      \<open>auto simp: mail_commit_def mail_leave_def clean_mustEncode
        split: option.splits stage.splits if_splits\<close>)
qed

text \<open>A message of a run was addressed by one of its events, in the state before it.\<close>

lemma mails_event:
  assumes "b \<in> set (mails mx es sy x)"
  shows "\<exists>es1 e es2 s s'. es = es1 @ e # es2 \<and> run_events mx es1 sy = Some s \<and> perform mx e s = Some s' \<and>
    b \<in> set (mail mx e s x)"
  using assms
proof (induction es arbitrary: sy)
  case Nil
  then show ?case by simp
next
  case (Cons a es)
  then obtain s' where s': "perform mx a sy = Some s'"
    and b: "b \<in> set (mail mx a sy x) \<or> b \<in> set (mails mx es s' x)" by (cases "perform mx a sy") auto
  from b show ?case
  proof
    assume "b \<in> set (mail mx a sy x)"
    with s' show ?thesis by (intro exI [of _ "[]"] exI [of _ a] exI [of _ es]) auto
  next
    assume "b \<in> set (mails mx es s' x)"
    with Cons.IH [of s'] obtain es1 e es2 s t where "es = es1 @ e # es2" "run_events mx es1 s' = Some s"
      "perform mx e s = Some t" "b \<in> set (mail mx e s x)" by blast
    with s' show ?thesis by (intro exI [of _ "a # es1"] exI [of _ e] exI [of _ es2]) auto
  qed
qed

lemma mails_clean: "list_all clean (mails mx es sy x)"
  using mails_event mail_clean by (fastforce simp: list_all_iff)

lemma reader_of_frames:
  assumes "list_all (\<lambda>b. b \<noteq> [] \<and> t \<notin> set b) bs"
  shows "fst (read_all (read_line t) (frames t bs)) = bs"
proof -
  have "frames t bs = concat (map (\<lambda>b. b @ [t]) bs)"
    using assms by (induction bs) (simp_all add: frame_def)
  moreover have "read_line t [] = None" by (simp add: read_line_def)
  moreover have "list_all (\<lambda>b. t \<notin> set b) bs" using assms by (simp add: list_all_iff)
  ultimately show ?thesis using line.read_all_emit [of t bs "[]"] by simp
qed

section \<open>End to end\<close>

lemma peer_reads_mail:
  assumes "run_events mx es (initial m d) = Some sy" and "cl (sw sy) x = Some k"
  shows "subseq (fst (read_all (read_line EndMessage) (wire (wr k)))) (mails mx es (initial m d) x) \<and>
    (crash sy = None \<and> \<not> ctx_done k \<and> dropped k = 0 \<and> sd k = [] \<longrightarrow>
       fst (read_all (read_line EndMessage) (wire (wr k))) = mails mx es (initial m d) x)"
proof -
  let ?ml = "mails mx es (initial m d) x"
  from run_served [OF assms(1), of x] assms(2) have "served ?ml (crash sy = None) k" by simp
  then obtain ms where ms: "subseq ms ?ml" "tracks (frames EndMessage ms) k"
    "crash sy = None \<and> \<not> ctx_done k \<and> dropped k = 0 \<longrightarrow> ms = ?ml"
    and t: "messageTerminator k = EndMessage" "\<not> ctx_done k \<longrightarrow> w_running (wr k)" by (auto simp: served_def)
  have c: "list_all (\<lambda>b. b \<noteq> [] \<and> EndMessage \<notin> set b) ms"
    using list_emb_set [OF ms(1)] mails_clean [of mx es "initial m d" x]
    by (fastforce simp: list_all_iff clean_def)
  from ms(2) obtain r where r: "frames EndMessage ms = wire (wr k) @ r" by (auto simp: tracks_def)
  obtain n where n: "fst (read_all (read_line EndMessage) (wire (wr k))) = take n ms" using read_prefix [OF c r] ..
  have "subseq (take n ms) ?ml"
    using ms(1) prefix_imp_subseq [OF take_is_prefix] by (rule subseq_order.trans [rotated])
  moreover have "take n ms = ?ml" if o: "crash sy = None" "\<not> ctx_done k" "dropped k = 0" "sd k = []"
  proof -
    have "idle_flushed k"
      using world_invD(1) [OF _ assms(2)] sys.inv_reach [OF run_events_reach [OF reach_init assms(1)]]
      by (simp add: sys_inv_def client_ok_def)
    with o t ms(2) have w: "wire (wr k) = frames EndMessage ms"
      by (auto simp: idle_flushed_def tracks_def stream_def)
    have "take n ms = ms" using n reader_of_frames [OF c] by (simp add: w)
    with o ms(3) show ?thesis by simp
  qed
  ultimately show ?thesis unfolding n by blast
qed

text \<open>
  C5 In every run of the whole server, whatever the schedule, the network and the clients do,
  the complete lines the peer of a client has received are messages addressed to this client, in
  the order of the events that addressed them, none twice and none made up. If the client is
  open, has no dropped message on its count and an empty queue, its peer has received every
  message addressed to it since the server started.
\<close>

theorem end_to_end:
  assumes "run_events mx es (initial m d) = Some sy" and "cl (sw sy) x = Some k"
  shows "subseq (fst (read_all (read_line EndMessage) (wire (wr k)))) (mails mx es (initial m d) x) \<and>
    (crash sy = None \<and> \<not> ctx_done k \<and> dropped k = 0 \<and> sd k = [] \<longrightarrow>
       fst (read_all (read_line EndMessage) (wire (wr k))) = mails mx es (initial m d) x)"
  using assms by (rule peer_reads_mail)

text \<open>A connection that takes all bytes, and the writer of client 1 after \<open>two_join\<close>.\<close>

definition delivered_run :: "event list" where
  "delivered_run = two_join @ [EWriter generous WTake 1]"

lemma two_join_queue:
  "map_option (\<lambda>sy. map_option (\<lambda>k. (ctx_done k, dropped k = 0, map (\<lambda>b. b = []) (sd k), bw_err (wr k), w_running (wr k)))
     (cl (sw sy) 1)) (run_events 0 two_join (initial [] False)) = Some (Some (False, True, [False], False, True))"
  by code_simp

lemma delivered_run_ends:
  obtains sy k where "run_events 0 delivered_run (initial [] False) = Some sy" "cl (sw sy) 1 = Some k"
    "crash sy = None" "\<not> ctx_done k" "dropped k = 0" "sd k = []"
proof -
  let ?s0 = "initial [] False"
  from two_join_queue obtain s j b where s: "run_events 0 two_join ?s0 = Some s" "cl (sw s) 1 = Some j"
    and j: "\<not> ctx_done j" "dropped j = 0" "sd j = [b]" "b \<noteq> []" "\<not> bw_err (wr j)" "w_running (wr j)"
    by (auto simp: Cons_eq_map_conv map_eq_Cons_conv)
  have c: "crash s = None" using two_join_view s(1) by simp
  let ?k = "writer_step generous WTake j" and ?sy = "s\<lparr>sw := upd_cl 1 (writer_step generous WTake) (sw s)\<rparr>"
  have "reliable generous" by (simp add: reliable_def generous_def)
  note w = writer_take_reliable [OF this j(5,6,3,4)]
  have "client_inv j"
    using world_invD(1) [OF _ s(2)] sys.inv_reach [OF run_events_reach [OF reach_init s(1)]]
    by (simp add: sys_inv_def client_ok_def)
  from writer_step_keeps [OF this, of generous WTake] j(2) have d: "dropped ?k = 0" by simp
  have "writer_ready j WTake" using j by (simp add: writer_ready_def)
  then have "perform 0 (EWriter generous WTake 1) s = Some ?sy" using s(2) c by (simp add: perform_def)
  with s(1) have "run_events 0 delivered_run ?s0 = Some ?sy" by (simp add: delivered_run_def run_events_snoc)
  moreover have "cl (sw ?sy) 1 = Some ?k" using s(2) by simp
  ultimately show thesis using w d j(1) c by (intro that [of ?sy ?k]) simp_all
qed

lemma end_to_end_witness:
  "\<exists>sy k. run_events 0 delivered_run (initial [] False) = Some sy \<and> cl (sw sy) 1 = Some k \<and>
     fst (read_all (read_line EndMessage) (wire (wr k))) = mails 0 delivered_run (initial [] False) 1"
proof (rule delivered_run_ends)
  fix sy k
  assume a: "run_events 0 delivered_run (initial [] False) = Some sy" "cl (sw sy) 1 = Some k" "crash sy = None"
    "\<not> ctx_done k" "dropped k = 0" "sd k = []"
  with end_to_end [OF a(1,2)] show ?thesis by blast
qed

section \<open>Authors\<close>







end
