(* ===== verification/Typing.thy ===== *)
theory Typing
  imports Delivery
begin

text \<open>
  The types of the values the server holds and sends: strings that came out of a JSON text are
  well-formed UTF-8, stay so when a channel key is taken apart and when they are kept in clients
  and channels, and numbers of clients fit 64 bits. So every message the server composes reads
  back as the message that was meant.
\<close>

section \<open>Strings\<close>

lemma valid_utf8_append: "valid_utf8 a \<Longrightarrow> valid_utf8 b \<Longrightarrow> valid_utf8 (a @ b)"
proof -
  assume "valid_utf8 a" "valid_utf8 b"
  then obtain rs ss where "list_all is_scalar rs" "a = concat (map encode_rune rs)"
    "list_all is_scalar ss" "b = concat (map encode_rune ss)" by (auto simp: valid_utf8_iff)
  then have "list_all is_scalar (rs @ ss)" "a @ b = concat (map encode_rune (rs @ ss))" by simp_all
  then show ?thesis unfolding valid_utf8_iff by blast
qed

lemma valid_utf8_encode_rune: "valid_utf8 (encode_rune r)"
proof -
  have "encode_rune r = encode_rune (if is_scalar r then r else RuneError)" "is_scalar RuneError"
    by (simp_all add: encode_rune_def is_scalar_def RuneError_def)
  then have "list_all is_scalar [if is_scalar r then r else RuneError]"
    "encode_rune r = concat (map encode_rune [if is_scalar r then r else RuneError])" by simp_all
  then show ?thesis unfolding valid_utf8_iff by blast
qed

lemma encode_rune_tail: "c \<in> set (tl (encode_rune r)) \<Longrightarrow> 128 \<le> ord c"
  by (auto simp: encode_rune_def Let_def split: if_splits)

text \<open>A well-formed string can be cut at an ASCII byte.\<close>

lemma valid_utf8_cut:
  assumes "valid_utf8 (a @ c # b)" "ord c < 128" shows "valid_utf8 a" "valid_utf8 b"
proof -
  have "valid_utf8 a \<and> valid_utf8 b" if "list_all is_scalar rs" "concat (map encode_rune rs) = a @ c # b" for rs
    using that
  proof (induction rs arbitrary: a)
    case Nil
    then show ?case by simp
  next
    case (Cons r rs)
    let ?e = "encode_rune r"
    have e: "?e @ concat (map encode_rune rs) = a @ c # b" using Cons.prems(2) by simp
    have rest: "valid_utf8 (concat (map encode_rune rs))" using Cons.prems(1) by (auto intro: valid_utf8_encode)
    show ?case
    proof (cases "length ?e \<le> length a")
      case True
      with e obtain a' where a: "a = ?e @ a'" "concat (map encode_rune rs) = a' @ c # b"
        by (auto simp: append_eq_append_conv2 append_eq_Cons_conv)
      with Cons show ?thesis using valid_utf8_append [OF valid_utf8_encode_rune] by auto
    next
      case False
      with e obtain u where u: "?e = a @ c # u" "b = u @ concat (map encode_rune rs)"
        by (auto simp: append_eq_append_conv2 Cons_eq_append_conv append_eq_Cons_conv)
      have "a = []"
      proof (rule ccontr)
        assume "a \<noteq> []"
        with u(1) have "c \<in> set (tl ?e)" by (cases a) simp_all
        with encode_rune_tail assms(2) show False by force
      qed
      moreover have "u = []"
      proof (rule ccontr)
        assume "u \<noteq> []"
        with u(1) \<open>a = []\<close> have "length ?e \<noteq> 1" "hd ?e = c" by simp_all
        moreover have "length ?e \<noteq> 1 \<Longrightarrow> 128 \<le> ord (hd ?e)"
          by (auto simp: encode_rune_def Let_def is_scalar_def RuneError_def)
        ultimately show False using assms(2) by simp
      qed
      ultimately show ?thesis using u(2) rest by simp
    qed
  qed
  with assms(1) show "valid_utf8 a" "valid_utf8 b" by (auto simp: valid_utf8_iff)
qed

definition ascii :: "bytes \<Rightarrow> bool" where
  "ascii s \<longleftrightarrow> list_all (\<lambda>c. ord c < 128) s"

lemma valid_ascii: "ascii s \<Longrightarrow> valid_utf8 s"
  by (simp add: ascii_def valid_utf8_ascii)

lemma valid_utf8_drop_ascii: "valid_utf8 (p @ s) \<Longrightarrow> ascii p \<Longrightarrow> valid_utf8 s"
proof (induction p)
  case Nil
  then show ?case by simp
next
  case (Cons c p)
  with valid_utf8_cut(2) [of "[]" c "p @ s"] show ?case by (simp add: ascii_def)
qed

lemma valid_utf8_split:
  assumes "valid_utf8 (a @ m @ b)" "ascii m" "m \<noteq> []" shows "valid_utf8 a" "valid_utf8 b"
proof -
  obtain c t where m: "m = c # t" using assms(3) by (cases m) auto
  with assms valid_utf8_cut [of a c "t @ b"] show "valid_utf8 a" by (simp add: ascii_def)
  from m assms valid_utf8_cut [of a c "t @ b"] have "valid_utf8 (t @ b)" "ascii t" by (simp_all add: ascii_def)
  then show "valid_utf8 b" by (rule valid_utf8_drop_ascii)
qed

lemma getChannelParams_valid:
  assumes "valid_utf8 name" "getChannelParams name = (n, p, l)" shows "valid_utf8 n" "valid_utf8 p"
proof -
  have a: "ascii lock_prefix" "ascii password_mark" "password_mark \<noteq> []"
    by (simp_all add: ascii_def lock_prefix_def password_mark_def)
  let ?s = "strip_lock name" let ?k = "Index ?s password_mark"
  have s: "valid_utf8 ?s"
    using assms(1) valid_utf8_drop_ascii [OF _ a(1)] by (auto simp: strip_lock_def elim!: HasPrefixE)
  have "valid_utf8 (take (nat ?k) ?s)" "valid_utf8 (drop (nat ?k + length password_mark) ?s)" if "0 < ?k"
  proof -
    from Index_found [of ?s password_mark] that
    have "?s = take (nat ?k) ?s @ password_mark @ drop (nat ?k + length password_mark) ?s" by simp
    with s have "valid_utf8 (take (nat ?k) ?s @ password_mark @ drop (nat ?k + length password_mark) ?s)" by simp
    then show "valid_utf8 (take (nat ?k) ?s)" "valid_utf8 (drop (nat ?k + length password_mark) ?s)"
      using a(2,3) by (rule valid_utf8_split)+
  qed
  with assms(2) s show "valid_utf8 n" "valid_utf8 p"
    by (auto simp: getChannelParams_strip Let_def split: if_splits)
qed

section \<open>Values of a JSON text\<close>

fun jutf :: "jval \<Rightarrow> bool"
and jutfs :: "jval list \<Rightarrow> bool"
and jutfm :: "(bytes \<times> jval) list \<Rightarrow> bool"
where
  "jutf (JStr s) = valid_utf8 s"
| "jutf (JArr vs) = jutfs vs"
| "jutf (JObj ms) = jutfm ms"
| "jutf v = True"
| "jutfs [] = True"
| "jutfs (v # vs) = (jutf v \<and> jutfs vs)"
| "jutfm [] = True"
| "jutfm ((k, v) # ms) = (valid_utf8 k \<and> jutf v \<and> jutfm ms)"

lemma valid_utf8_Cons: "ord c < 128 \<Longrightarrow> valid_utf8 s \<Longrightarrow> valid_utf8 (c # s)"
  using valid_utf8_append [of "[c]" s] valid_utf8_ascii [of "[c]"] by simp

lemma parse_str_valid: "parse_str s = Some (x, r) \<Longrightarrow> valid_utf8 x"
proof (induction "length s" arbitrary: s x rule: less_induct)
  case less
  have IH: "parse_str t = Some (y, r) \<Longrightarrow> length t < length s \<Longrightarrow> valid_utf8 y" for t y
    using less.hyps [of t y] by simp
  have one: "ord b < 128" if "unescape1 e = Some b" for e b
    using that by (auto simp: unescape1_def split: if_splits)
  show ?case
  proof (cases s)
    case Nil
    with less.prems show ?thesis by simp
  next
    case (Cons c u)
    with less.prems IH show ?thesis
      unfolding Cons parse_str.simps(2)
      by (auto simp: prepend_eq_Some less_Suc_eq_le valid_utf8_append valid_utf8_encode_rune valid_utf8_Cons one
          split: if_splits list.splits option.splits)
  qed
qed

lemma parse_valid:
  shows pv_valid: "pv n d s = Some (v, r) \<Longrightarrow> jutf v"
    and pe_valid: "pe n d s = Some (vs, r) \<Longrightarrow> jutfs vs"
    and pm_valid: "pm n d s = Some (ms, r) \<Longrightarrow> jutfm ms"
proof (induction n d s and n d s and n d s arbitrary: v r and vs r and ms r
    rule: pv_pe_pm.induct)
  case (2 n d s)
  then show ?case
    unfolding pv.simps(2)
    by (fastforce split: option.splits if_splits prod.splits dest!: parse_str_valid)
next
  case (4 n d s)
  then show ?case
    unfolding pe.simps(2) by (fastforce split: option.splits if_splits prod.splits)
next
  case (6 n d s)
  then show ?case
    unfolding pm.simps(2)
    by (fastforce split: option.splits if_splits prod.splits dest!: parse_str_valid)
qed (simp_all add: pv.simps pe.simps pm.simps)

lemma parse_json_valid: "parse_json s = Some v \<Longrightarrow> jutf v"
  by (auto simp: parse_json_def parse_value_def split: option.splits if_splits dest: pv_valid)

text \<open>The strings of a decoded message.\<close>

definition strings_valid :: "data \<Rightarrow> bool" where
  "strings_valid d \<longleftrightarrow> valid_utf8 (Type d) \<and> valid_utf8 (Channel d) \<and> valid_utf8 (ConnectionType d)"

lemma unm_str_valid: "unm_str v old = Some s \<Longrightarrow> jutf v \<Longrightarrow> valid_utf8 old \<Longrightarrow> valid_utf8 s"
  by (cases "(v, old)" rule: unm_str.cases) auto

lemma set_data_valid: "set_data n v d = Some d' \<Longrightarrow> jutf v \<Longrightarrow> strings_valid d \<Longrightarrow> strings_valid d'"
  by (auto simp: set_data_def strings_valid_def split: if_splits dest: unm_str_valid)

lemma unm_members_valid:
  "unm_members m set_data ms d = Some d' \<Longrightarrow> jutfm ms \<Longrightarrow> strings_valid d \<Longrightarrow> strings_valid d'"
proof (induction m "set_data :: bytes \<Rightarrow> jval \<Rightarrow> data \<Rightarrow> data option" ms d rule: unm_members.induct)
  case (1 m x)
  then show ?case by simp
next
  case (2 m k v ms x)
  then show ?case by (auto split: option.splits dest: set_data_valid)
qed

lemma Decode_valid: "Decode s = Inr d \<Longrightarrow> strings_valid d"
proof -
  assume "Decode s = Inr d"
  then obtain v where v: "parse_json s = Some v" "unm_struct data_names set_data v zero_data = Some d"
    by (auto simp: Decode_def split: option.splits)
  have "strings_valid zero_data" by (simp add: strings_valid_def zero_data_def)
  with v parse_json_valid [OF v(1)] unm_members_valid show ?thesis
    by (fastforce simp: unm_struct_def split: jval.splits)
qed

section \<open>Well-typed states\<close>

definition typed_client :: "client \<Rightarrow> bool" where
  "typed_client k \<longleftrightarrow> valid_utf8 (connectionType k)"

definition typed_channel :: "channel \<Rightarrow> bool" where
  "typed_channel c \<longleftrightarrow> valid_utf8 (ch_name c) \<and> valid_utf8 (ch_password c)"

definition typed_world :: "world \<Rightarrow> bool" where
  "typed_world w \<longleftrightarrow>
     (\<forall>x k. cl w x = Some k \<longrightarrow> typed_client k) \<and> (\<forall>r c. ch w r = Some c \<longrightarrow> typed_channel c) \<and>
     valid_utf8 (motd w)"

fun typed_stage :: "stage \<Rightarrow> bool" where
  "typed_stage (Joining f n p l) = (valid_utf8 n \<and> valid_utf8 p)"
| "typed_stage st = True"

definition typed :: "system \<Rightarrow> bool" where
  "typed sy \<longleftrightarrow> typed_world (sw sy) \<and> (\<forall>x st. stages sy x = Some st \<longrightarrow> typed_stage st)"

lemma typed_world_only_sends:
  assumes o: "only_sends P w w'" and t: "typed_world w" shows "typed_world w'"
proof -
  have "typed_client k'" if k': "cl w' x = Some k'" for x k'
  proof -
    from only_sends_at(3) [OF o k'] obtain k where "cl w x = Some k" "after_sends P k k'" by blast
    with t show ?thesis by (auto simp: typed_world_def typed_client_def after_sends_def sends_only_fields)
  qed
  with t show ?thesis by (simp add: typed_world_def only_sends_frame [OF o])
qed

lemma typed_world_upd:
  assumes "typed_world w" "\<And>k. typed_client k \<Longrightarrow> typed_client (f k)" shows "typed_world (upd_cl x f w)"
  using assms by (auto simp: typed_world_def)

lemma typed_world_members: "typed_world w \<Longrightarrow> typed_world (set_members r m w)"
  by (auto simp: typed_world_def typed_channel_def set_members_def heap_upd_def split: if_splits)

lemma typed_world_RemoveChannel [simp]: "typed_world (RemoveChannel n w) = typed_world w"
  by (simp add: typed_world_def RemoveChannel_def)

lemma typed_setters [simp]:
  "typed_client (Close k) = typed_client k" "typed_client (ClearChannel k) = typed_client k"
  "typed_client (SetChannel r k) = typed_client k" "typed_client (SetAuthorized b k) = typed_client k"
  "typed_client (SetVersion v k) = typed_client k" "typed_client (teardown k) = typed_client k"
  "typed_client (ping pick k) = typed_client k" "typed_client (writer_step net e k) = typed_client k"
  by (simp_all add: typed_client_def setter_defs teardown_def ping_def sends_only_fields [OF sends_only_Send]
      writer_step_def writer_take_def writer_timer_def Let_def set_wr_def stop_writer_def
      split: list.split writer_event.split)

lemma typed_world_Add:
  assumes t: "typed_world w" and ok: "Add pk r x p w = Ok w'" shows "typed_world w'"
proof -
  from ok obtain c k where ck: "ch w r = Some c" "cl w x = Some k"
    by (cases "ch w r"; cases "cl w x") (simp_all add: Add_def)
  let ?w2 = "upd_cl x (SetAuthorized (grants c p)) w"
  have w2: "typed_world ?w2" by (rule typed_world_upd [OF t]) simp
  have "typed_world (enter r (cid k) x m ?w2)" for m
    unfolding enter_def by (intro typed_world_upd typed_world_members w2) simp
  then have "typed_world (announce pk r x n i ct lm (enter r (cid k) x m ?w2))" for n i ct lm m
    by (rule typed_world_only_sends [OF only_sends_announce])
  with ok w2 show ?thesis unfolding Add_unfold [OF ck] Let_def by (auto split: if_splits option.splits)
qed

lemma typed_world_commit:
  assumes t: "typed_world w" and v: "valid_utf8 n" "valid_utf8 p" and ok: "join_commit pk x f n p l w = Ok w'"
  shows "typed_world w'"
proof (cases f)
  case (Some r)
  with ok typed_world_Add [OF t] show ?thesis by (simp add: join_commit_def)
next
  case None
  let ?w = "new_channel (fresh_channel n p l) w"
  from None ok obtain w1 where A: "Add pk (next_ch w) x p ?w = Ok w1"
    and w': "w' = w1\<lparr>channels := AList.update n (next_ch w) (channels w1)\<rparr>"
    by (auto simp: join_commit_def AddChannel_def NewClientChannel_unfold go_bind_Ok_iff)
  have "typed_world ?w"
    using t v by (simp add: typed_world_def new_channel_def fresh_channel_def typed_channel_def)
  from typed_world_Add [OF this A] show ?thesis by (simp add: w' typed_world_def)
qed

lemma typed_world_fold_clear:
  "typed_world w \<Longrightarrow> typed_world (fold (\<lambda>p. upd_cl (snd p) ClearChannel) m w)"
  by (induction m arbitrary: w) (simp_all add: typed_world_upd)

lemma typed_world_leave:
  assumes t: "typed_world w" and ok: "leave_channel pk x w = Ok w'" shows "typed_world w'"
proof -
  from ok obtain k where k: "cl w x = Some k" by (cases "cl w x") (simp_all add: leave_channel_def)
  show ?thesis
  proof (cases "cchan k")
    case None
    with k ok t show ?thesis by (simp add: leave_channel_def)
  next
    case (Some r)
    with k ok have R: "Remove pk r x w = Ok w'" by (simp add: leave_channel_def)
    then obtain c where c: "ch w r = Some c" by (cases "ch w r") (simp_all add: Remove_def)
    let ?w3 = "sendAllLocked pk r (mustEncode (client_left_msg (cid k) (connectionType k))) (Some x) (leave r (cid k) x w)"
    have "typed_world (leave r (cid k) x w)"
      unfolding leave_def by (intro typed_world_upd typed_world_members t) simp
    from typed_world_only_sends [OF only_sends_AllLocked [of _ "\<lambda>_. True"] this] have w3: "typed_world ?w3" by simp
    have "typed_world (quitLocked r ?w3)"
      using w3 by (auto simp: quitLocked_def intro!: typed_world_members typed_world_fold_clear split: option.split)
    with R w3 show ?thesis by (auto simp: Remove_unfold [OF c k] Let_def split: if_splits)
  qed
qed

lemma typed_world_receive:
  assumes t: "typed_world w" and r: "receive_begin env x b w = Ok (w', c)"
  shows "typed_world w'" "c = JoinFound f n p l \<Longrightarrow> valid_utf8 n \<and> valid_utf8 p"
proof -
  from r obtain k where k: "cl w x = Some k" and f: "FindClient x w"
    by (auto simp: receive_begin_def split: option.splits if_splits)
  have o: "typed_world v" if "only_sends (\<lambda>_. True) w v" for v by (rule typed_world_only_sends [OF that t])
  have "typed_world w' \<and> (\<forall>f n p l. c = JoinFound f n p l \<longrightarrow> valid_utf8 n \<and> valid_utf8 p)"
  proof (cases "cchan k")
    case (Some q)
    have "typed_world (SendAll pk q m e w)" "typed_world (SendOthers pk q m e w)" for pk m e
      by (rule o, simp add: SendAll_def only_sends_AllLocked only_sends_SendOthers)+
    with r k f Some show ?thesis by (auto simp: receive_begin_def split: prod.splits option.splits)
  next
    case None
    show ?thesis
    proof (cases "Decode b")
      case (Inl e)
      with r k f None t show ?thesis by (simp add: receive_begin_def)
    next
      case (Inr d)
      with r k f None have c: "cmd_begin env x d w = Ok (w', c)" by (simp add: receive_begin_def)
      have d: "valid_utf8 (Channel d)" "valid_utf8 (ConnectionType d)"
        using Decode_valid [OF Inr] by (simp_all add: strings_valid_def)
      have send: "typed_world (client_Send pk x m w)" for pk m
        by (rule o) (simp add: only_sends_client_Send)
      obtain n p l where g: "getChannelParams (Channel d) = (n, p, l)" by (cases "getChannelParams (Channel d)") auto
      note v = getChannelParams_valid [OF d(1) g]
      have set: "typed_world (upd_cl x (SetConnectionType (ConnectionType d)) w)"
        using d(2) by (intro typed_world_upd [OF t]) (simp add: typed_client_def SetConnectionType_def)
      have close: "typed_world (upd_cl x Close u)" if "typed_world u" for u
        by (rule typed_world_upd [OF that]) simp
      have join: "typed_world (fst (join_begin pk x d w)) \<and>
          (\<forall>f n p l. snd (join_begin pk x d w) = JoinFound f n p l \<longrightarrow> valid_utf8 n \<and> valid_utf8 p)" for pk
        using t send close set v by (simp add: join_begin_def sendError_def g Let_def split: option.split)
      show ?thesis
        using c t send close join [of "ce_picks env"] typed_world_upd [OF t, of "SetVersion (Version d)" x]
        by (auto simp: cmd_begin_def protocol_version_handler_def generate_begin_def sendJSON_def
            split: if_splits option.splits sum.splits)
    qed
  qed
  then show "typed_world w'" "c = JoinFound f n p l \<Longrightarrow> valid_utf8 n \<and> valid_utf8 p" by blast+
qed

subsection \<open>Every step keeps the types\<close>

lemma typed_set_stage: "typed_world w \<Longrightarrow> typed_stage st \<Longrightarrow> typed sy \<Longrightarrow> typed (set_stage x st w sy)"
  by (simp add: typed_def set_stage_def)

lemma typed_settle:
  assumes s: "settle x r sy = Some sy'" and t: "typed sy"
    and r: "\<And>w c. r = Ok (w, c) \<Longrightarrow> typed_world w \<and> (\<forall>f n p l. c = JoinFound f n p l \<longrightarrow> valid_utf8 n \<and> valid_utf8 p)"
    and g: "\<And>w c. r \<noteq> Goexit (w, c)"
  shows "typed sy'"
  using s r t g by (cases "(x, r, sy)" rule: settle.cases) (auto intro!: typed_set_stage, simp add: typed_def)

lemma typed_perform:
  assumes inv: "sys_inv sy" and t: "typed sy" and p: "perform mx e sy = Some sy'"
  shows "typed sy'"
proof -
  have W: "world_inv (sw sy)" "settled (sw sy)" using inv by (simp_all add: sys_inv_def)
  have tw: "typed_world (sw sy)" and ts: "stages sy x = Some st \<Longrightarrow> typed_stage st" for x st
    using t by (simp_all add: typed_def)
  from p have q: "perform_running mx e sy = Some sy'" by (simp add: perform_def split: if_splits)
  have upd: "typed (sy\<lparr>sw := upd_cl x f (sw sy)\<rparr>)" if "\<And>k. typed_client (f k) = typed_client k" for x f
    using t typed_world_upd [OF tw] that by (simp add: typed_def)
  show ?thesis
  proof (cases e)
    case (EAccept addr s)
    obtain x w' where a: "accept addr s (stopped sy s) (sw sy) = (x, w')" by fastforce
    have "typed_client (SetID i (new_client EndMessage addr s pd))" for i pd
      by (simp add: typed_client_def SetID_def new_client_def)
    with accept_simps [OF a] tw have "typed_world w'"
      using a by (auto simp: typed_world_def accept_def AddClient_def Let_def typed_client_def SetID_def)
    with q EAccept a t show ?thesis by (auto intro: typed_set_stage)
  next
    case (EReceive env x input)
    with q obtain m rest b where m: "stages sy x = Some Reading" "ReadBytes EndMessage input = Some (m, rest)"
      "handle_frame mx m = Received b" "settle x (receive_begin env x b (sw sy)) sy = Some sy'"
      by (auto split: option.splits stage.splits prod.splits frame_action.splits)
    have con: "connected x (sw sy)" using connected_reader [OF inv m(1)] by simp
    note R = receive_begin_ok(2) [OF W con handle_frame_clean(1) [OF m(2,3)], where env = env]
    show ?thesis
      by (rule typed_settle [OF m(4) t]) (use typed_world_receive [OF tw] R in blast)+
  next
    case (ECommit pk x)
    with q obtain f n p l where st: "stages sy x = Some (Joining f n p l)"
      and s: "settle x (finished (join_commit pk x f n p l (sw sy))) sy = Some sy'"
      by (auto split: option.splits stage.splits)
    from ts [OF st] have v: "valid_utf8 n" "valid_utf8 p" by simp_all
    show ?thesis
    proof (rule typed_settle [OF s t])
      show "typed_world w \<and> (\<forall>f n p l. c = JoinFound f n p l \<longrightarrow> valid_utf8 n \<and> valid_utf8 p)"
        if "finished (join_commit pk x f n p l (sw sy)) = Ok (w, c)" for w c
        using that typed_world_commit [OF tw v, of pk x f l]
        by (cases "join_commit pk x f n p l (sw sy)") auto
      show "finished (join_commit pk x f n p l (sw sy)) \<noteq> Goexit (w, c)" for w c
        using second_part_no_Goexit(1) by (cases "join_commit pk x f n p l (sw sy)") auto
    qed
  next
    case (EGraceful pick x)
    with q have s: "settle x (finished (client_CloseGracefully pick x (sw sy))) sy = Some sy'"
      by (simp split: if_splits)
    have g: "typed_world w" if "client_CloseGracefully pick x (sw sy) = Ok w" for w
    proof -
      from that obtain k k' where k: "cl (sw sy) x = Some k" "CloseGracefully pick k = Ok k'" "w = upd_cl x (\<lambda>_. k') (sw sy)"
        by (auto simp: client_CloseGracefully_def split: option.splits go.splits)
      then have "connectionType k' = connectionType k"
        by (auto simp: CloseGracefully_def Close_def split: if_splits)
      with k tw show ?thesis by (auto simp: typed_world_def typed_client_def)
    qed
    show ?thesis
    proof (rule typed_settle [OF s t])
      show "typed_world w \<and> (\<forall>f n p l. c = JoinFound f n p l \<longrightarrow> valid_utf8 n \<and> valid_utf8 p)"
        if "finished (client_CloseGracefully pick x (sw sy)) = Ok (w, c)" for w c
        using that g by (cases "client_CloseGracefully pick x (sw sy)") auto
      show "finished (client_CloseGracefully pick x (sw sy)) \<noteq> Goexit (w, c)" for w c
        using second_part_no_Goexit(2) by (cases "client_CloseGracefully pick x (sw sy)") auto
    qed
  next
    case (EHangup x)
    with q t typed_world_upd [OF tw, of Close x] show ?thesis by (auto split: if_splits intro: typed_set_stage)
  next
    case (ELeave pk x)
    with q t typed_world_leave [OF tw] show ?thesis
      by (auto split: if_splits go.splits intro: typed_set_stage) (simp add: typed_def)
  next
    case (EDelete x)
    have "typed_world (delete_client x (sw sy))" using tw by (simp add: typed_world_def delete_client_def)
    with q EDelete t show ?thesis by (auto split: if_splits intro: typed_set_stage)
  next
    case (EStop s)
    have "typed_world (close_all s (sw sy))"
      using tw by (auto simp: typed_world_def close_all_def split: if_splits)
    with q EStop t show ?thesis by (auto simp: typed_def)
  qed (use q upd in \<open>auto split: option.splits if_splits\<close>)
qed

lemma typed_initial: "valid_utf8 m \<Longrightarrow> typed (initial m d)"
  by (simp add: typed_def initial_def typed_world_def empty_world_def)

interpretation typing: invariant_system "initial m d" "sys_step mx" "\<lambda>sy. sys_inv sy \<and> (valid_utf8 m \<longrightarrow> typed sy)" for m d mx
proof unfold_locales
  show "sys_inv (initial m d) \<and> (valid_utf8 m \<longrightarrow> typed (initial m d))"
    by (simp add: sys_inv_initial typed_initial)
  show "sys_inv t \<and> (valid_utf8 m \<longrightarrow> typed t)" if "sys_inv s \<and> (valid_utf8 m \<longrightarrow> typed s)" "sys_step mx s t" for s t
  proof -
    from perform_complete [OF that(2)] obtain e where "perform mx e s = Some t" ..
    with that typed_perform sys_inv_step show ?thesis by blast
  qed
qed

section \<open>Composed messages\<close>

text \<open>A message of the server: of one of its eight types, with well-formed strings.\<close>

definition message_types :: "bytes list" where
  "message_types = [''ping'', ''nvda_not_connected'', ''error'', ''generate_key'', ''motd'',
     ''channel_joined'', ''client_joined'', ''client_left'']"

definition composed :: "bytes \<Rightarrow> bool" where
  "composed l \<longleftrightarrow> (\<exists>dd. l = mustEncode dd \<and> data_ok dd \<and> Type dd \<in> set message_types)"

lemma composedI: "data_ok dd \<Longrightarrow> Type dd \<in> set message_types \<Longrightarrow> composed (mustEncode dd)"
  by (auto simp: composed_def)

lemma composed_Decode: "composed l \<Longrightarrow> \<exists>dd. Decode l = Inr dd \<and> Type dd \<in> set message_types"
proof -
  assume "composed l"
  then obtain dd where d: "l = mustEncode dd" "data_ok dd" "Type dd \<in> set message_types" by (auto simp: composed_def)
  have "Encode dd = Some l" using d(1) by (simp add: mustEncode_def Encode_def)
  from Decode_Encode_ok [OF d(2) this] d(3) show ?thesis by blast
qed

lemma constants_encoded:
  "ping_msg = mustEncode (zero_data\<lparr>Type := ''ping''\<rparr>)"
  "not_connected_msg = mustEncode (zero_data\<lparr>Type := ''nvda_not_connected''\<rparr>)"
  by code_simp+

lemma int64_nth_id: "int64 (nth_id x)"
  unfolding nth_id_def int64_def
  using sint_greater_eq [of "of_nat (Suc x) :: 32 word"] sint_less [of "of_nat (Suc x) :: 32 word"] by simp

lemma int64_0: "int64 0"
  by (simp add: int64_def)

lemma Lmotd_valid:
  assumes "valid_utf8 name" shows "valid_utf8 (Lmotd c ct name pw)"
proof -
  have lit: "valid_utf8 ''This is a locked channel. Name: ''" "valid_utf8 newline"
    "valid_utf8 ''No one will be able to control your computer''" "valid_utf8 '' unless they authenticate''"
    "valid_utf8 '' (password accepted)''" "valid_utf8 ''.''" "valid_utf8 ''You won''" "valid_utf8 [CHR 0x27]"
    "valid_utf8 ''t be able to control any computers connected to this channel.''"
    "valid_utf8 ''You are authorized to control any computer connected to this channel.''"
    by (rule valid_utf8_ascii, simp add: newline_def)+
  show ?thesis
    by (simp only: Lmotd_def Let_def if_distrib [of valid_utf8] valid_utf8_append valid_utf8_Nil lit assms if_cancel)
qed

lemma composed_simple:
  "ascii s \<Longrightarrow> composed (mustEncode (zero_data\<lparr>Type := ''error'', Error := s\<rparr>))"
  "ascii s \<Longrightarrow> composed (mustEncode (zero_data\<lparr>Type := ''generate_key'', Key := s\<rparr>))"
  "composed ping_msg" "composed not_connected_msg"
proof -
  note a = valid_ascii [of "''error''"] valid_ascii [of "''generate_key''"] valid_ascii [of "''ping''"]
    valid_ascii [of "''nvda_not_connected''"]
  show "ascii s \<Longrightarrow> composed (mustEncode (zero_data\<lparr>Type := ''error'', Error := s\<rparr>))"
    "ascii s \<Longrightarrow> composed (mustEncode (zero_data\<lparr>Type := ''generate_key'', Key := s\<rparr>))"
    using a valid_ascii [of s]
    by (auto intro!: composedI simp: data_ok_def zero_data_def int64_def message_types_def ascii_def)
  show "composed ping_msg" "composed not_connected_msg"
    using a unfolding constants_encoded
    by (auto intro!: composedI simp: data_ok_def zero_data_def int64_def message_types_def ascii_def)
qed

lemma composed_reply: "list_all composed (mail_reply env d)"
proof -
  have "ascii key" if "gen_key g ws pos = Some (Inr key)" for g ws pos key
  proof -
    from gen_key_result [OF that] obtain p where "randomDigits g p 9 = Inr key" by blast
    then obtain v where "key = digits_of_word 9 v" by (auto simp: randomDigits_nine split: option.splits)
    with digits_of_word_shape(1) [of 9 v] show ?thesis by (auto simp: ascii_def list_all_iff is_digit_def)
  qed
  moreover have "ascii ''invalid_parameters''" by (simp add: ascii_def)
  ultimately show ?thesis using composed_simple by (simp add: mail_reply_def split: option.split sum.split)
qed

text \<open>Messages about clients, from a well-typed state.\<close>

lemma composed_news:
  assumes "int64 i" "valid_utf8 n" "valid_utf8 ct"
  shows "composed (mustEncode (client_joined_msg n i ct))" "composed (mustEncode (client_left_msg i ct))"
proof -
  note a = valid_ascii [of "''client_joined''"] valid_ascii [of "''client_left''"]
  from assms show "composed (mustEncode (client_joined_msg n i ct))" "composed (mustEncode (client_left_msg i ct))"
    using a by (auto intro!: composedI simp: client_joined_msg_def client_left_msg_def data_ok_def client_data_ok_def
        zero_data_def message_types_def ascii_def int64_def)
qed

lemma composed_replies:
  assumes t: "typed_world w" and i: "int64 i" "list_all (\<lambda>p. int64 (fst p)) m" and n: "valid_utf8 n" "valid_utf8 lm"
    and dd: "dd \<in> set (join_replies n i m lm w)"
  shows "composed (mustEncode dd)"
proof -
  have md: "client_data_ok (member_data w p)" if "int64 (fst p)" for p
    using that t by (auto simp: client_data_ok_def member_data_def typed_world_def typed_client_def split: option.split)
  note a = valid_ascii [of "''channel_joined''"] valid_ascii [of "''motd''"]
  let ?o = "filter (\<lambda>p. fst p \<noteq> i) m"
  have "data_ok (channel_joined_msg n i m w)"
    using i n(1) md a(1)
    by (auto simp: channel_joined_msg_cases Let_def data_ok_def zero_data_def list_all_iff int64_0 ascii_def)
  moreover have "data_ok mdb" if "motd_msg w lm = Some mdb" for mdb
  proof -
    have "valid_utf8 (motd w)" using t by (simp add: typed_world_def)
    moreover from this n(2) have "valid_utf8 (lm @ newline @ motd w)"
      by (simp add: newline_def valid_utf8_append valid_utf8_Cons)
    ultimately show ?thesis using that n(2) a(2)
      by (auto simp: motd_msg_def Let_def data_ok_def zero_data_def int64_def ascii_def split: if_splits)
  qed
  moreover have "Type dd \<in> set message_types" using join_replies_type [OF dd] by (auto simp: message_types_def)
  ultimately show ?thesis using dd by (auto intro!: composedI simp: join_replies_def split: option.splits)
qed

lemma mail_composed:
  assumes inv: "sys_inv sy" and t: "typed sy" and l: "l \<in> set (mail mx e sy x)"
    and "perform mx e sy = Some sy'"
  shows "composed l \<or> (\<exists>env y input p rest j. e = EReceive env y input \<and> y \<noteq> x \<and>
      ReadBytes EndMessage input = Some (p @ [EndMessage], rest) \<and> cl (sw sy) y = Some j \<and> l = fst (JsonAddOrigin p (cid j)))"
proof -
  have W: "world_inv (sw sy)" "ids_inv (sw sy)" using inv by (simp_all add: sys_inv_def)
  have tw: "typed_world (sw sy)" using t by (simp add: typed_def)
  have i: "int64 (cid j)" if "cl (sw sy) y = Some j" for y j
    using W(2) that int64_nth_id by (auto simp: ids_inv_def)
  have ct: "valid_utf8 (connectionType j)" if "cl (sw sy) y = Some j" for y j
    using tw that by (auto simp: typed_world_def typed_client_def)
  have mem: "list_all (\<lambda>p. int64 (fst p)) (members r (sw sy))" for r
    unfolding list_all_iff
  proof
    fix p assume "p \<in> set (members r (sw sy))"
    with world_inv_member [OF W(1), of "fst p" "snd p" r] obtain k where "cl (sw sy) (snd p) = Some k" "cid k = fst p"
      by auto
    with i [of "snd p" k] show "int64 (fst p)" by simp
  qed
  show ?thesis
  proof (cases e)
    case (EReceive env y input)
    with l obtain m rest where m: "ReadBytes EndMessage input = Some (m, rest)"
      by (cases "ReadBytes EndMessage input") auto
    with l EReceive obtain p where p: "handle_frame mx m = Received p" "l \<in> set (mail_receive env y p (sw sy) x)"
      by (cases "handle_frame mx m") auto
    then obtain j where j: "cl (sw sy) y = Some j" by (cases "cl (sw sy) y") (auto simp: mail_receive_def)
    have f: "ReadBytes EndMessage input = Some (p @ [EndMessage], rest)" using m handle_frame_clean(2) [OF m p(1)] by simp
    show ?thesis
    proof (cases "cchan j")
      case None
      with p(2) j have "\<exists>d. l \<in> set (mail_reply env d)"
        by (cases "Decode p"; cases "x = y") (auto simp: mail_receive_def)
      with composed_reply show ?thesis by (auto simp: list_all_iff)
    next
      case (Some r)
      with p(2) j f EReceive composed_simple(4) show ?thesis
        by (auto simp: mail_receive_def split: if_splits)
    qed
  next
    case (ECommit pk y)
    with l obtain f n p lk where st: "stages sy y = Some (Joining f n p lk)"
      and m: "l \<in> set (mail_commit y f n p lk (sw sy) x)"
      by (cases "stages sy y") (auto split: stage.splits)
    then obtain j where j: "cl (sw sy) y = Some j" by (cases "cl (sw sy) y") (auto simp: mail_commit_def)
    have n: "valid_utf8 n" using t st by (fastforce simp: typed_def)
    have "composed l"
    proof (cases f)
      case None
      with m j obtain dd where dd: "l = mustEncode dd"
        "dd \<in> set (join_replies n (cid j) [] (Lmotd (fresh_channel n p lk) (connectionType j) n p) (sw sy))"
        by (auto simp: mail_commit_def split: if_splits)
      show ?thesis unfolding dd(1) by (rule composed_replies [OF tw i [OF j] _ n Lmotd_valid [OF n] dd(2)]) simp
    next
      case (Some r)
      with m j obtain c where c: "ch (sw sy) r = Some c" by (cases "ch (sw sy) r") (auto simp: mail_commit_def)
      then have cn: "valid_utf8 (ch_name c)" using tw by (auto simp: typed_world_def typed_channel_def)
      from m j c Some have "l = mustEncode (client_joined_msg (ch_name c) (cid j) (connectionType j)) \<or>
          (\<exists>dd. l = mustEncode dd \<and> dd \<in> set (join_replies (ch_name c) (cid j) (members r (sw sy))
             (Lmotd c (connectionType j) (ch_name c) p) (sw sy)))"
        by (auto simp: mail_commit_def split: if_splits)
      with composed_news(1) [OF i [OF j] cn ct [OF j]] composed_replies [OF tw i [OF j] mem cn Lmotd_valid [OF cn]]
      show ?thesis by blast
    qed
    then show ?thesis ..
  next
    case (ELeave pk y)
    with l obtain j where j: "cl (sw sy) y = Some j" by (cases "cl (sw sy) y") (auto simp: mail_leave_def)
    with l ELeave composed_news(2) [OF i [OF j] valid_utf8_Nil ct [OF j]] show ?thesis
      by (auto simp: mail_leave_def split: if_splits)
  next
    case (EPing pick y)
    with l composed_simple(3) show ?thesis by (auto split: if_splits)
  qed (use l in auto)
qed

end
