(* ===== verification/Typing_Properties.thy ===== *)
theory Typing_Properties
  imports Typing Delivery_Properties
begin

text \<open>
  Type soundness of the server: the states it reaches are well-typed, a well-typed state is
  never stuck, and what it writes itself are messages of its protocol.
\<close>

section \<open>Progress\<close>

lemma no_Hang: "join_commit pk x f n p l w \<noteq> Hang" "client_CloseGracefully pick x w \<noteq> Hang"
proof -
  have a: "Add pk q x p w \<noteq> Hang" for q w
    by (auto simp: Add_def Let_def split: option.split)
  have "AddChannel pk n p l x w \<noteq> Hang"
    using a [of "next_ch w" "new_channel (fresh_channel n p l) w"]
    by (cases "Add pk (next_ch w) x p (new_channel (fresh_channel n p l) w)")
      (simp_all add: AddChannel_def NewClientChannel_unfold)
  with a show "join_commit pk x f n p l w \<noteq> Hang" by (simp add: join_commit_def split: option.split)
  show "client_CloseGracefully pick x w \<noteq> Hang"
    by (auto simp: client_CloseGracefully_def CloseGracefully_def split: option.split go.splits if_splits)
qed

lemma settle_finished: "r \<noteq> Hang \<Longrightarrow> settle x (finished r) sy \<noteq> None"
  by (cases r) simp_all

text \<open>What the reader goroutine of a connection can do next.\<close>

definition reader_goes :: "int \<Rightarrow> system \<Rightarrow> nat \<Rightarrow> stage \<Rightarrow> bool" where
  "reader_goes mx sy x st \<longleftrightarrow>
     (case st of
        Reading \<Rightarrow>
          perform mx (EHangup x) sy \<noteq> None \<and>
          (\<forall>env input m rest b. ReadBytes EndMessage input = Some (m, rest) \<longrightarrow> handle_frame mx m = Received b \<longrightarrow>
             gen_key (ce_rng env) (ce_worlds env) (ce_pos env) \<noteq> None \<longrightarrow> perform mx (EReceive env x input) sy \<noteq> None)
      | Joining f n p l \<Rightarrow> (\<forall>pk. perform mx (ECommit pk x) sy \<noteq> None)
      | Closing \<Rightarrow> (\<forall>pick. perform mx (EGraceful pick x) sy \<noteq> None)
      | Leaving \<Rightarrow> (\<forall>pk. \<exists>sy'. perform mx (ELeave pk x) sy = Some sy' \<and> crash sy' = None)
      | Deleting \<Rightarrow> perform mx (EDelete x) sy \<noteq> None
      | Gone \<Rightarrow> True)"

lemma reader_progress:
  assumes inv: "sys_inv sy" and c: "crash sy = None" and st: "stages sy x = Some st"
  shows "reader_goes mx sy x st"
proof (cases st)
  case Reading
  have con: "connected x (sw sy)" using connected_reader [OF inv st] Reading by simp
  have W: "world_inv (sw sy)" "settled (sw sy)" using inv by (simp_all add: sys_inv_def)
  have "perform mx (EReceive env x input) sy \<noteq> None"
    if m: "ReadBytes EndMessage input = Some (m, rest)" "handle_frame mx m = Received b"
      and g: "gen_key (ce_rng env) (ce_worlds env) (ce_pos env) \<noteq> None" for env input m rest b
  proof -
    note R = receive_begin_ok(2,3) [OF W con handle_frame_clean(1) [OF m], where env = env]
    have "cmd_begin env x d (sw sy) \<noteq> Hang" for d
      using g by (auto simp: cmd_begin_def protocol_version_handler_def generate_begin_def split: sum.splits)
    then have "receive_begin env x b (sw sy) \<noteq> Hang"
      by (simp add: receive_begin_def split: option.split sum.split prod.split)
    then obtain w' t where "receive_begin env x b (sw sy) = Ok (w', t)"
      using R by (cases "receive_begin env x b (sw sy)") auto
    then have "settle x (receive_begin env x b (sw sy)) sy \<noteq> None" by (cases t) simp_all
    with m c st Reading show ?thesis by (simp add: perform_def)
  qed
  with c st Reading show ?thesis by (auto simp: reader_goes_def perform_def)
next
  case (Joining f n p l)
  with c st settle_finished [OF no_Hang(1)] show ?thesis by (simp add: reader_goes_def perform_def)
next
  case Closing
  with c st settle_finished [OF no_Hang(2)] show ?thesis by (simp add: reader_goes_def perform_def)
next
  case Leaving
  obtain k where k: "cl (sw sy) x = Some k" using connected_reader [OF inv st] Leaving by auto
  have "\<exists>sy'. perform mx (ELeave pk x) sy = Some sy' \<and> crash sy' = None" for pk
  proof -
    have "world_inv (sw sy)" using inv by (simp add: sys_inv_def)
    from leave_channel_Ok [OF this k, of pk] obtain w' where "leave_channel pk x (sw sy) = Ok w'" by blast
    with c st Leaving show ?thesis by (simp add: perform_def)
  qed
  with Leaving show ?thesis by (simp add: reader_goes_def)
next
  case Deleting
  with c st show ?thesis by (simp add: reader_goes_def perform_def)
next
  case Gone
  then show ?thesis by (simp add: reader_goes_def)
qed

section \<open>Type soundness\<close>

text \<open>
  C8 Every reachable state is well-typed: all strings kept in clients and channels are
  well-formed UTF-8 and numbers of clients fit 64 bits (if the message of the day is
  well-formed); every reference leads to an object of its kind (the client set to clients, a
  client to a live channel, the channel found by an unfinished join to a channel) and the next
  addresses are free. And no well-typed state is stuck: the reader of every connection can go
  on, whatever the scheduler picks, and leaving never takes the process down.
\<close>

theorem states_well_typed:
  assumes "reach (initial m d) (sys_step mx) sy" and "valid_utf8 m"
  shows "(cl (sw sy) x = Some k \<longrightarrow> valid_utf8 (connectionType k) \<and> int64 (cid k)) \<and>
    (ch (sw sy) r = Some c \<longrightarrow> valid_utf8 (ch_name c) \<and> valid_utf8 (ch_password c)) \<and>
    (x \<in> set (clients (sw sy)) \<longrightarrow> cl (sw sy) x \<noteq> None) \<and>
    (cl (sw sy) x = Some k \<and> cchan k = Some r \<longrightarrow> (\<exists>c ms. ch (sw sy) r = Some c \<and> ClientsAll c = Some ms)) \<and>
    (stages sy x = Some (Joining (Some r) n p l) \<longrightarrow> ch (sw sy) r \<noteq> None) \<and>
    cl (sw sy) (next_cl (sw sy)) = None \<and> ch (sw sy) (next_ch (sw sy)) = None \<and>
    (crash sy = None \<and> stages sy x = Some st \<longrightarrow> reader_goes mx sy x st)"
proof -
  from typing.inv_reach [OF assms(1)] assms(2) have inv: "sys_inv sy" and t: "typed sy" by simp_all
  have W: "world_inv (sw sy)" "ids_inv (sw sy)" using inv by (simp_all add: sys_inv_def)
  note I = world_invD [OF W(1)]
  have "ch (sw sy) r \<noteq> None" if "stages sy x = Some (Joining (Some r) n p l)"
  proof -
    from inv that have "stage_ok (sw sy) x (Joining (Some r) n p l)" by (simp only: sys_inv_def)
    then show ?thesis by auto
  qed
  moreover have "cl (sw sy) (next_cl (sw sy)) = None"
    using I(1) [of "next_cl (sw sy)"] by (cases "cl (sw sy) (next_cl (sw sy))") (auto simp: client_ok_def)
  moreover have "ch (sw sy) (next_ch (sw sy)) = None"
    using I(2) [of "next_ch (sw sy)"] by (cases "ch (sw sy) (next_ch (sw sy))") (auto simp: channel_ok_def)
  moreover have "cl (sw sy) x = Some k \<Longrightarrow> valid_utf8 (connectionType k) \<and> int64 (cid k)"
    using t W(2) int64_nth_id by (auto simp: typed_def typed_world_def typed_client_def ids_inv_def)
  moreover have "ch (sw sy) r = Some c \<Longrightarrow> valid_utf8 (ch_name c) \<and> valid_utf8 (ch_password c)"
    using t by (auto simp: typed_def typed_world_def typed_channel_def)
  ultimately show ?thesis
    using I(6) member_live [OF W(1)] reader_progress [OF inv] by blast
qed

lemma states_well_typed_witness:
  "\<exists>k. cl (sw (after two_join)) 0 = Some k \<and> valid_utf8 (connectionType k) \<and> int64 (cid k)"
proof (rule two_join_at)
  fix k assume k: "cl (sw (after two_join)) 0 = Some k"
  with states_well_typed [OF after_two_join valid_utf8_Nil, of 0 k] show ?thesis by simp
qed



end
