(* ===== verification/Sockets.thy ===== *)
theory Sockets
  imports Startup "HOL-Library.Word"
begin

text \<open>
  Time and sockets, after \<open>server/connection.go\<close> and the beginning of \<open>listen\<close> in
  \<open>server/client.go\<close>: durations at their 64 bits, the ping ticker, the deadline of the TLS
  handshake, and the options of accepted connections.
\<close>

section \<open>Durations\<close>

text \<open>A \<open>time.Duration\<close> is an \<open>int64\<close> of nanoseconds; products wrap around.\<close>

definition Second :: "64 word" where "Second = 1000000000"

definition seconds :: "int \<Rightarrow> int" where
  "seconds n = sint (word_of_int n * Second)"

definition NewTicker :: "int \<Rightarrow> int go" where
  "NewTicker d = (if d \<le> 0 then Panic NonPositiveInterval else Ok d)"

text \<open>The first thing \<open>listen\<close> does for a connection, outside any \<open>recover\<close>.\<close>

definition start_ticker :: "settings \<Rightarrow> int go" where
  "start_ticker s = NewTicker (seconds (cf_pingTime s))"

lemma seconds_wrap: "seconds n = (n * 1000000000 + 2 ^ 63) mod 2 ^ 64 - 2 ^ 63"
proof -
  have "word_of_int n * Second = word_of_int (n * 1000000000)" by (simp add: Second_def)
  then have "seconds n = sint (word_of_int (n * 1000000000) :: 64 word)" by (simp only: seconds_def)
  then show ?thesis by (simp only: int_word_sint) simp
qed

lemma seconds_small: "0 \<le> n \<Longrightarrow> n \<le> 9223372036 \<Longrightarrow> seconds n = n * 1000000000"
  unfolding seconds_wrap by (subst mod_pos_pos_trivial) simp_all

lemma seconds_over:
  assumes "9223372037 \<le> n" "n \<le> 18446744073" shows "seconds n < 0"
proof -
  let ?m = "n * 1000000000 + 2 ^ 63 - 2 ^ 64"
  have "?m mod 2 ^ 64 = ?m" using assms by (intro mod_pos_pos_trivial) simp_all
  moreover have "(n * 1000000000 + 2 ^ 63) mod 2 ^ 64 = ?m mod 2 ^ 64"
    using mod_add_self2 [of ?m "2 ^ 64"] by (simp only: diff_add_cancel)
  ultimately show ?thesis using assms by (simp add: seconds_wrap)
qed

text \<open>The two bounds meet: the panic is possible exactly from the first value that wraps.\<close>

lemma start_ticker_small: "30 \<le> cf_pingTime s \<Longrightarrow> cf_pingTime s \<le> 9223372036 \<Longrightarrow> start_ticker s = Ok (cf_pingTime s * 1000000000)"
  by (simp add: start_ticker_def NewTicker_def seconds_small)

lemma start_ticker_over:
  "9223372037 \<le> cf_pingTime s \<Longrightarrow> cf_pingTime s \<le> 18446744073 \<Longrightarrow> start_ticker s = Panic NonPositiveInterval"
  using seconds_over [of "cf_pingTime s"] by (simp add: start_ticker_def NewTicker_def)

section \<open>Connections\<close>

text \<open>What \<open>Accept\<close> returns: a TCP connection, bare or inside TLS, or something else.\<close>

datatype net_conn = TCPConn | TLSConn net_conn | OtherConn

datatype socket_option =
    NoDelay bool
  | KeepAlive bool
  | KeepAlivePeriod int

definition setupTCP :: "socket_option list" where
  "setupTCP = [NoDelay True, KeepAlive True, KeepAlivePeriod (seconds 60)]"

fun accept_options :: "net_conn \<Rightarrow> socket_option list" where
  "accept_options (TLSConn c) = (if c = TCPConn then setupTCP else [])"
| "accept_options TCPConn = setupTCP"
| "accept_options OtherConn = []"

text \<open>The connections of a listener that \<open>Listen\<close> has made.\<close>

definition accepted_conn :: "server \<Rightarrow> net_conn" where
  "accepted_conn s = (case listen_config s of None \<Rightarrow> TCPConn | Some c \<Rightarrow> TLSConn TCPConn)"

datatype deadline = DeadlineIn int | NoDeadline

text \<open>
  What \<open>listen\<close> does before it reads: the deadlines it sets, and whether it goes on.
  \<open>to_duration\<close> is \<open>time.Duration(t * float64(time.Second))\<close>, which the language leaves open
  for values that do not fit, and \<open>shaken\<close> whether the handshake succeeds.
\<close>

definition before_reading :: "(go_float \<Rightarrow> int) \<Rightarrow> settings \<Rightarrow> net_conn \<Rightarrow> bool \<Rightarrow> deadline list \<times> bool" where
  "before_reading to_duration s c shaken =
     (let first = (if Fin 0 < cf_timeoutSecs s then [DeadlineIn (to_duration (cf_timeoutSecs s))] else [])
      in case c of
           TLSConn c' \<Rightarrow> if shaken then (first @ [NoDeadline], True) else (first, False)
         | _ \<Rightarrow> (first @ [NoDeadline], True))"

text \<open>Only NaN turns the limit of a checked configuration off.\<close>

lemma checked_timeout: "\<not> t < Fin 1 \<Longrightarrow> t \<noteq> NaN \<Longrightarrow> Fin 0 < t"
  by (cases t) auto

end
