(* ===== verification/Process_Properties.thy ===== *)
theory Process_Properties
  imports Startup_Properties Scenarios Sockets
begin

text \<open>
  The process as a whole: what is left of the PID file however the server ends, on the defaults
  and the information of each system the program is compiled for.
\<close>

section \<open>The end of the process\<close>






text \<open>A number cut short is another number: \<open>stop\<close> signals the process that has it.\<close>

lemma cut_pid_file:
  "daemonStatus (run_actions 0 [WriteFile ''/p'' (take 2 (Itoa 4211))] Map.empty ''/p'') True = (42, True)"
proof -
  have "take 2 (Itoa 4211) = Itoa 42" by code_simp
  then show ?thesis by (simp add: run_actions_def daemonStatus_Itoa)
qed

section \<open>The start of a connection\<close>

lemma Configure_checked:
  assumes "Configure env conf d args = Configured k"
  shows "30 \<le> cf_pingTime (config k)" "\<not> cf_timeoutSecs (config k) < Fin 1"
    "list_all (\<lambda>s. accepted_conn s = TLSConn TCPConn) (servers k)"
proof -
  from assms obtain s c where "config k = handleMotd (validateSettings s)"
    "servers k = map (\<lambda>addr. NewWithTLSConfig addr c) (build_addresses (config k))" by (rule ConfigureE)
  with validateSettings_ranges [of s] show "30 \<le> cf_pingTime (config k)" "\<not> cf_timeoutSecs (config k) < Fin 1"
    "list_all (\<lambda>s. accepted_conn s = TLSConn TCPConn) (servers k)"
    by (simp_all add: handleMotd_eq list_all_iff accepted_conn_def NewWithTLSConfig_def)
qed

text \<open>
  C39 How a configured server starts each connection. It is TLS over TCP and gets the socket
  options; unless the configured timeout is NaN the handshake has a deadline, after a failed
  handshake nothing is read, and after a successful one the deadline is lifted. The ticker of the
  pings runs at the configured interval if that is at most 9223372036 seconds; from one second
  more, and up to the double, the product with \<open>time.Second\<close> is negative and the panic of
  \<open>time.NewTicker\<close> in the goroutine of the first connection ends the whole server.
\<close>

theorem connections_start:
  assumes "Configure env conf d args = Configured k"
  shows "list_all (\<lambda>s. accepted_conn s = TLSConn TCPConn \<and> accept_options (accepted_conn s) = setupTCP) (servers k) \<and>
    (cf_timeoutSecs (config k) \<noteq> NaN \<longrightarrow>
      before_reading conv (config k) (TLSConn TCPConn) shaken =
        (if shaken then ([DeadlineIn (conv (cf_timeoutSecs (config k))), NoDeadline], True)
         else ([DeadlineIn (conv (cf_timeoutSecs (config k)))], False))) \<and>
    (cf_pingTime (config k) \<le> 9223372036 \<longrightarrow> start_ticker (config k) = Ok (cf_pingTime (config k) * 1000000000)) \<and>
    (9223372037 \<le> cf_pingTime (config k) \<and> cf_pingTime (config k) \<le> 18446744073 \<longrightarrow>
      start_ticker (config k) = Panic NonPositiveInterval)"
proof -
  note c = Configure_checked [OF assms]
  have "list_all (\<lambda>s. accepted_conn s = TLSConn TCPConn \<and> accept_options (accepted_conn s) = setupTCP) (servers k)"
    using c(3) by (simp add: list_all_iff)
  moreover have "Fin 0 < cf_timeoutSecs (config k)" if "cf_timeoutSecs (config k) \<noteq> NaN"
    using checked_timeout [OF c(2) that] .
  ultimately show ?thesis
    using start_ticker_small [OF c(1)] start_ticker_over by (simp add: before_reading_def)
qed

definition rare_pings :: "setting_arg list" where
  "rare_pings = [Joined False ''configfile'' ''c'', Spaced False ''ping_time'' ''9223372037'', Joined False ''keyfile'' ''k'']"

lemma connections_start_witness:
  "\<exists>k. Configure startup_env [] linux_defaults (concat (map render rare_pings)) = Configured k \<and>
     start_ticker (config k) = Panic NonPositiveInterval"
proof -
  have wf: "list_all well_formed rare_pings" by (simp add: rare_pings_def flag_of_def registerFlags_def)
  have i: "ParseInt ''9223372037'' = Some 9223372037"
    by (simp add: ParseInt_def base_prefix_def digit_of_def)
  obtain c where c: "set_args (\<lambda>_. None) rare_pings (cli_defaults [] linux_defaults) = Some c"
    using i by (auto simp: rare_pings_def set_arg_def flag_of_def registerFlags_def on_vars_def)
  then have s: "set_args (ParseFloat startup_env) rare_pings (cli_defaults [] linux_defaults) = Some c"
    by (simp add: startup_env_def)
  have l: "last_value ''domain'' rare_pings = None" "last_value ''keyfile'' rare_pings = Some ''k''"
    "last_value ''ping_time'' rare_pings = Some ''9223372037''"
    by (simp_all add: last_value_def rare_pings_def)
  with raw_settings_string [OF s, of "''domain''"] raw_settings_string [OF s, of "''keyfile''"]
  have "cf_domain (raw_settings startup_env c) = []" "cf_key (raw_settings startup_env c) \<noteq> []"
    by (simp_all add: string_options_def field_of_def sample_no_file linux_defaults_def defaults_def)
  then obtain k where k: "Configure startup_env [] linux_defaults (concat (map render rare_pings)) = Configured k"
    by (rule sample_configures [OF wf c])
  from Configure_render [OF wf k] obtain c' where
    c': "set_args (ParseFloat startup_env) rare_pings (cli_defaults [] linux_defaults) = Some c'"
      "config k = handleMotd (validateSettings (raw_settings startup_env c'))" by blast
  from raw_settings_int [OF c'(1) _ l(3) i] have "cf_pingTime (raw_settings startup_env c') = 9223372037"
    by (simp add: int_options_def field_of_def)
  then have "cf_pingTime (config k) = 9223372037" by (simp add: c'(2) handleMotd_eq validateSettings_def Let_def)
  with connections_start [OF k] k show ?thesis by auto
qed

section \<open>Other systems\<close>

text \<open>On Windows no daemon command does anything, elsewhere the version is the tag without its v.\<close>

lemma windows_has_no_daemon:
  "runtime_GOOS env = ''windows'' \<Longrightarrow> parse_command a = Some cmd \<Longrightarrow>
     main env listens how conf d alive0 alive started (a # rest) = Daemon [Exit 2]"
  by (auto simp: main_def windows_daemonCmd_def parse_command_def split: if_splits)

lemma released_version:
  "ReadBuildInfo env = Some \<lparr>Main_Version = CHR ''v'' # v, Main_Sum = s\<rparr> \<Longrightarrow> s \<noteq> [] \<Longrightarrow>
     main env listens how conf d alive0 alive started [''version''] = Printed v"
  by (simp add: main_def versionSetter_def TrimPrefix_def HasPrefix_def)

text \<open>
  Where there are no default paths a server without arguments has no PID file and makes its own
  certificate, if the message of the day and the rest are as the configuration file, which is not
  looked for, leaves them.
\<close>

lemma other_systems_bare:
  "goos \<noteq> ''linux'' \<Longrightarrow> goos \<noteq> ''darwin'' \<Longrightarrow> system_defaults goos = (conf, d) \<Longrightarrow>
     conf = [] \<and> cf_pidfile d = [] \<and> cf_logfile d = [] \<and> cf_cert d = [] \<and> cf_key d = []"
  by (auto simp: system_defaults_def defaults_def)

end
