(* ===== verification/Lock_Coverage.thy ===== *)
theory Lock_Coverage
  imports Delivery Lock_Order
begin

text \<open>
  What ties the two models of the server together: each event of the whole system is carried out
  by activities whose lists write every field that the event changes, make the objects that are
  new, and work on objects that exist.
\<close>

section \<open>The activities of an event\<close>

text \<open>
  A key is generated by any number of looks through the channels, none of which writes; one that
  sees all of them stands for them.
\<close>

definition command_handling :: "cmd_env \<Rightarrow> data \<Rightarrow> world \<Rightarrow> handling" where
  "command_handling env d w =
     (if Type d = ''join'' then (if fst (getChannelParams (Channel d)) = [] then JoinRefused else JoinLooked)
      else if Type d = ''protocol_version'' then VersionSet (0 < Version d)
      else if Type d = ''generate_key'' then
        KeyMade [map snd (channels w)]
          (case gen_key (ce_rng env) (ce_worlds env) (ce_pos env) of Some (Inr key) \<Rightarrow> True | _ \<Rightarrow> False)
      else Ignored True)"

definition handling_of :: "cmd_env \<Rightarrow> nat \<Rightarrow> bytes \<Rightarrow> world \<Rightarrow> handling" where
  "handling_of env x b w =
     (case cl w x of None \<Rightarrow> Unknown
      | Some k \<Rightarrow>
          if \<not> FindClient x w then Unknown
          else
            (case cchan k of
               Some r \<Rightarrow>
                 (case JsonAddOrigin b (cid k) of
                    (m, Some e) \<Rightarrow> RelayRaw r (targets (Some x) (members r w))
                  | (m, None) \<Rightarrow>
                      RelayJson r (length (members r w) \<le> 1) (targets (Some x) (members r w)))
             | None \<Rightarrow>
                 (case Decode b of
                    Inl e \<Rightarrow> Ignored False
                  | Inr d \<Rightarrow> command_handling env d w)))"

definition join_activity ::
  "(nat \<Rightarrow> bool) \<Rightarrow> nat \<Rightarrow> nat option \<Rightarrow> bytes \<Rightarrow> bytes \<Rightarrow> bool \<Rightarrow> world \<Rightarrow> activity" where
  "join_activity full x found name password locked w =
     (let ct = (case cl w x of None \<Rightarrow> [] | Some k \<Rightarrow> connectionType k);
          says = (\<lambda>c. motd_msg w (Lmotd c ct (ch_name c) password) \<noteq> None)
      in case found of
           None \<Rightarrow>
             (let c = fresh_channel name password locked
              in JoinNew full (next_ch w) x (grants c password) (says c))
         | Some r \<Rightarrow>
             (case (ch w r, cl w x) of
                (Some c, Some k) \<Rightarrow>
                  JoinExisting full r x (targets (Some x) (members r w)) (grants c password)
                    (map_of (members r w) (cid k) \<noteq> None) (says c)
              | _ \<Rightarrow> JoinExisting full r x [] False True False))"

definition left_behind :: "nat \<Rightarrow> world \<Rightarrow> (nat \<times> nat list option \<times> bool) option" where
  "left_behind x w =
     (case cl w x of None \<Rightarrow> None
      | Some k \<Rightarrow>
          (case cchan k of None \<Rightarrow> None
           | Some r \<Rightarrow>
               (case ch w r of None \<Rightarrow> None
                | Some c \<Rightarrow>
                    Some (r, map_option (\<lambda>m. map snd (AList.delete (cid k) m)) (ClientsAll c),
                      map_of (channels w) (ch_name c) \<noteq> None))))"

text \<open>
  The reader of a new client starts where the accept loop hands it over, so accepting is two
  activities; leaving is one activity that the system carries out in two events.
\<close>

fun activities_of :: "(nat \<Rightarrow> bool) \<Rightarrow> int \<Rightarrow> event \<Rightarrow> system \<Rightarrow> activity list" where
  "activities_of full mx (EAccept addr s) sy = [Register s (next_cl (sw sy)), ListenStart (next_cl (sw sy))]"
| "activities_of full mx (EReceive env x input) sy =
     (case ReadBytes EndMessage input of
        Some (m, rest) \<Rightarrow>
          (case handle_frame mx m of Received b \<Rightarrow> [Receive full x (handling_of env x b (sw sy))] | _ \<Rightarrow> [])
      | None \<Rightarrow> [])"
| "activities_of full mx (ECommit pk x) sy =
     (case stages sy x of Some (Joining f n p l) \<Rightarrow> [join_activity full x f n p l (sw sy)] | _ \<Rightarrow> [])"
| "activities_of full mx (EGraceful pick x) sy = [Receive full x (KeyMade [] True)]"
| "activities_of full mx (EHangup x) sy = [ReadError x]"
| "activities_of full mx (ELeave pk x) sy = [Leave full x (left_behind x (sw sy)) True]"
| "activities_of full mx (EDelete x) sy = [Leave full x None True]"
| "activities_of full mx (EPing pick x) sy = [Ping full x]"
| "activities_of full mx (ETeardown x) sy = (case cl (sw sy) x of None \<Rightarrow> [] | Some k \<Rightarrow> [Teardown (srv k) x])"
| "activities_of full mx (EWriter net e x) sy = [Writing x]"
| "activities_of full mx (EStop s) sy = [Stopping s]"

definition event_acts :: "(nat \<Rightarrow> bool) \<Rightarrow> int \<Rightarrow> event \<Rightarrow> system \<Rightarrow> act list" where
  "event_acts full mx e sy = concat (map activity_locks (activities_of full mx e sy))"

section \<open>Fields and objects of a world\<close>

fun var_kept :: "client_var \<Rightarrow> client \<Rightarrow> client \<Rightarrow> bool" where
  "var_kept ChannelVar k k' = (cchan k' = cchan k)"
| "var_kept AuthVar k k' = (auth k' = auth k)"
| "var_kept TypeVar k k' = (connectionType k' = connectionType k)"
| "var_kept VersionVar k k' = (version k' = version k)"
| "var_kept ClosedVar k k' = (closed k' = closed k)"

definition conn_kept :: "client \<Rightarrow> client \<Rightarrow> bool" where
  "conn_kept k k' \<longleftrightarrow>
     messageTerminator k' = messageTerminator k \<and> cid k' = cid k \<and> ip k' = ip k \<and> srv k' = srv k"

definition chan_kept :: "channel \<Rightarrow> channel \<Rightarrow> bool" where
  "chan_kept c c' \<longleftrightarrow> ch_name c' = ch_name c \<and> ch_password c' = ch_password c \<and> ch_locked c' = ch_locked c"

text \<open>What an entry of a store had, it still has.\<close>

definition still :: "('a \<Rightarrow> 'a \<Rightarrow> bool) \<Rightarrow> 'a option \<Rightarrow> 'a option \<Rightarrow> bool" where
  "still R a b \<longleftrightarrow> (case a of None \<Rightarrow> True | Some x \<Rightarrow> (case b of None \<Rightarrow> False | Some y \<Rightarrow> R x y))"

fun field_kept :: "world \<Rightarrow> world \<Rightarrow> field \<Rightarrow> bool" where
  "field_kept w w' (Terminator s) = True"
| "field_kept w w' ClientTable = (clients w' = clients w)"
| "field_kept w w' ChannelTable = (channels w' = channels w)"
| "field_kept w w' (Members r) = still (\<lambda>c c'. ClientsAll c' = ClientsAll c) (ch w r) (ch w' r)"
| "field_kept w w' (Var v x) = still (var_kept v) (cl w x) (cl w' x)"
| "field_kept w w' (Fixed (Conn x)) = still conn_kept (cl w x) (cl w' x)"
| "field_kept w w' (Fixed (Chan r)) = still chan_kept (ch w r) (ch w' r)"
| "field_kept w w' (Fixed ob) = True"

fun present :: "world \<Rightarrow> object \<Rightarrow> bool" where
  "present w (Loop s) = True"
| "present w (Conn x) = (cl w x \<noteq> None)"
| "present w (Queue x) = (cl w x \<noteq> None)"
| "present w (Chan r) = (ch w r \<noteq> None)"

text \<open>Only fields in \<open>W\<close> change, and the objects stay the same.\<close>

definition keeps :: "field set \<Rightarrow> world \<Rightarrow> world \<Rightarrow> bool" where
  "keeps W w w' \<longleftrightarrow> (\<forall>f. f \<in> W \<or> field_kept w w' f) \<and> present w' = present w"

lemma still_refl: "(\<And>x. R x x) \<Longrightarrow> still R a a"
  by (cases a) (simp_all add: still_def)

lemma still_trans: "(\<And>x y z. R x y \<Longrightarrow> R y z \<Longrightarrow> R x z) \<Longrightarrow> still R a b \<Longrightarrow> still R b c \<Longrightarrow> still R a c"
  by (auto simp: still_def split: option.splits)

lemma var_kept_refl [simp]: "var_kept v k k"
  by (cases v) simp_all

lemma field_kept_refl [simp]: "field_kept w w f"
proof (cases f)
  case (Fixed ob)
  then show ?thesis by (cases ob) (simp_all add: still_refl conn_kept_def chan_kept_def)
qed (simp_all add: still_refl)

lemma field_kept_trans: "field_kept a b f \<Longrightarrow> field_kept b c f \<Longrightarrow> field_kept a c f"
proof (cases f)
  case (Var v x)
  assume "field_kept a b f" "field_kept b c f"
  then show ?thesis unfolding Var by (cases v) (auto elim: still_trans [rotated])
next
  case (Fixed ob)
  assume "field_kept a b f" "field_kept b c f"
  then show ?thesis
    unfolding Fixed by (cases ob) (auto simp: conn_kept_def chan_kept_def elim: still_trans [rotated])
next
  case (Members r)
  assume "field_kept a b f" "field_kept b c f"
  then show ?thesis unfolding Members by (auto elim: still_trans [rotated])
qed simp_all

lemma keeps_refl [simp]: "keeps W w w"
  by (simp add: keeps_def)

lemma keeps_trans [trans]: "keeps W a b \<Longrightarrow> keeps W b c \<Longrightarrow> keeps W a c"
  using field_kept_trans by (fastforce simp: keeps_def)

lemma keeps_mono: "keeps W w w' \<Longrightarrow> W \<subseteq> V \<Longrightarrow> keeps V w w'"
  by (auto simp: keeps_def)

section \<open>What the operations change\<close>

lemma present_eqI:
  "(\<And>x. (cl w' x = None) = (cl w x = None)) \<Longrightarrow> (\<And>r. (ch w' r = None) = (ch w r = None)) \<Longrightarrow> present w' = present w"
proof (rule ext)
  fix ob
  assume "\<And>x. (cl w' x = None) = (cl w x = None)" "\<And>r. (ch w' r = None) = (ch w r = None)"
  then show "present w' ob = present w ob" by (cases ob) simp_all
qed

lemma keeps_clients:
  assumes "w' = w\<lparr>cl := cl w'\<rparr>"
    and "\<And>x. still (\<lambda>k k'. conn_kept k k' \<and> (\<forall>v. Var v x \<in> W \<or> var_kept v k k')) (cl w x) (cl w' x)"
    and "\<And>x. cl w x = None \<Longrightarrow> cl w' x = None"
  shows "keeps W w w'"
proof -
  from assms(1) have fr: "clients w' = clients w" "channels w' = channels w" "ch w' = ch w" by (cases w; cases w'; simp)+
  have "f \<in> W \<or> field_kept w w' f" for f
  proof (cases f)
    case (Var v x)
    with assms(2) [of x] show ?thesis by (auto simp: still_def split: option.splits)
  next
    case (Fixed ob)
    then show ?thesis
    proof (cases ob)
      case (Conn x)
      with Fixed assms(2) [of x] show ?thesis by (auto simp: still_def split: option.splits)
    qed (simp_all add: fr still_refl chan_kept_def)
  qed (simp_all add: fr still_refl)
  moreover have "present w' = present w"
  proof (rule present_eqI)
    show "(cl w' x = None) = (cl w x = None)" for x
      using assms(2) [of x] assms(3) [of x] by (auto simp: still_def split: option.splits)
  qed (simp add: fr)
  ultimately show ?thesis by (simp add: keeps_def)
qed

lemma keeps_upd:
  assumes "\<And>k. cl w x = Some k \<Longrightarrow> conn_kept k (f k)"
    and "\<And>v k. cl w x = Some k \<Longrightarrow> Var v x \<in> W \<or> var_kept v k (f k)"
  shows "keeps W w (upd_cl x f w)"
proof (rule keeps_clients)
  show "still (\<lambda>k k'. conn_kept k k' \<and> (\<forall>v. Var v y \<in> W \<or> var_kept v k k')) (cl w y) (cl (upd_cl x f w) y)" for y
    using assms by (cases "cl w y") (auto simp: still_def conn_kept_def)
qed (auto simp: upd_cl_def heap_upd_at)

lemma keeps_only_sends: "only_sends P w w' \<Longrightarrow> keeps W w w'"
proof (rule keeps_clients)
  assume o: "only_sends P w w'"
  then show "w' = w\<lparr>cl := cl w'\<rparr>" by (simp add: only_sends_def)
  show "cl w x = None \<Longrightarrow> cl w' x = None" for x using only_sends_at(1) [OF o] .
  show "still (\<lambda>k k'. conn_kept k k' \<and> (\<forall>v. Var v x \<in> W \<or> var_kept v k k')) (cl w x) (cl w' x)" for x
  proof (cases "cl w x")
    case (Some k)
    from only_sends_at(2) [OF o Some] obtain k' where "cl w' x = Some k'" "sends_only k k'"
      by (auto simp: after_sends_def)
    moreover have "var_kept v k k'" for v using sends_only_fields [OF \<open>sends_only k k'\<close>] by (cases v) simp_all
    ultimately show ?thesis using Some by (simp add: still_def conn_kept_def sends_only_fields)
  qed (simp add: still_def)
qed

lemma keeps_members: "Members r \<in> W \<Longrightarrow> keeps W w (set_members r m w)"
proof -
  assume r: "Members r \<in> W"
  have "f \<in> W \<or> field_kept w (set_members r m w) f" for f
  proof (cases f)
    case (Members q)
    with r show ?thesis by (cases "q = r") (auto simp: set_members_def heap_upd_at still_refl)
  next
    case (Fixed ob)
    then show ?thesis
      by (cases ob) (auto simp: set_members_def heap_upd_at still_refl conn_kept_def chan_kept_def still_def split: option.split)
  qed (simp_all add: set_members_def still_refl)
  moreover have "present (set_members r m w) = present w"
    by (rule present_eqI) (simp_all add: set_members_def heap_upd_at)
  ultimately show ?thesis by (simp add: keeps_def)
qed

lemma keeps_tables:
  "ChannelTable \<in> W \<Longrightarrow> keeps W w (w\<lparr>channels := t\<rparr>)" "ClientTable \<in> W \<Longrightarrow> keeps W w (w\<lparr>clients := xs\<rparr>)"
proof -
  have "(f = ChannelTable \<or> field_kept w (w\<lparr>channels := t\<rparr>) f) \<and>
      (f = ClientTable \<or> field_kept w (w\<lparr>clients := xs\<rparr>) f)" for f
  proof (cases f)
    case (Fixed ob)
    then show ?thesis by (cases ob) (simp_all add: still_refl conn_kept_def chan_kept_def)
  qed (simp_all add: still_refl)
  then have "f = ChannelTable \<or> field_kept w (w\<lparr>channels := t\<rparr>) f" "f = ClientTable \<or> field_kept w (w\<lparr>clients := xs\<rparr>) f"
    for f by blast+
  moreover have "present (w\<lparr>channels := t\<rparr>) = present w" "present (w\<lparr>clients := xs\<rparr>) = present w"
    by (rule present_eqI; simp)+
  ultimately show "ChannelTable \<in> W \<Longrightarrow> keeps W w (w\<lparr>channels := t\<rparr>)"
    "ClientTable \<in> W \<Longrightarrow> keeps W w (w\<lparr>clients := xs\<rparr>)"
    unfolding keeps_def by metis+
qed

lemma keeps_RemoveChannel: "map_of (channels w) n \<noteq> None \<Longrightarrow> ChannelTable \<in> W \<Longrightarrow> keeps W w (RemoveChannel n w)"
  "map_of (channels w) n = None \<Longrightarrow> keeps W w (RemoveChannel n w)"
  by (simp_all add: RemoveChannel_def keeps_tables)

lemma keeps_fold_clear:
  "\<forall>p \<in> set m. Var ChannelVar (snd p) \<in> W \<Longrightarrow> keeps W w (fold (\<lambda>p. upd_cl (snd p) ClearChannel) m w)"
proof (induction m arbitrary: w)
  case (Cons p m)
  have "keeps W w (upd_cl (snd p) ClearChannel w)"
  proof (rule keeps_upd)
    show "Var v (snd p) \<in> W \<or> var_kept v k (ClearChannel k)" for v k
      using Cons.prems by (cases v) (simp_all add: ClearChannel_def)
  qed (simp add: conn_kept_def ClearChannel_def)
  also have "keeps W \<dots> (fold (\<lambda>p. upd_cl (snd p) ClearChannel) m \<dots>)" using Cons by simp
  finally show ?case by simp
qed simp

section \<open>What the lists write and work on\<close>

definition writes :: "act list \<Rightarrow> field set" where "writes as = {f. Write f \<in> set as}"

definition objs :: "act list \<Rightarrow> object set" where "objs as = set (objects_of as)"

named_theorems act_sets

lemma writes_simps [act_sets]:
  "writes [] = {}" "writes (as @ bs) = writes as \<union> writes bs" "writes (Write f # as) = insert f (writes as)"
  "writes (Read f # as) = writes as" "writes (Publish ob # as) = writes as"
  "writes (exclusive l as) = writes as" "writes (shared l as) = writes as"
  "writes (concat (map g xs)) = (\<Union>x \<in> set xs. writes (g x))"
  by (auto simp: writes_def exclusive_def shared_def)

lemma objs_Cons: "objs (a # as) = set_option (needs a) \<union> objs as"
  by (simp add: objs_def objects_of_Cons)

lemma objs_Nil: "objs [] = {}"
  by (simp add: objs_def objects_of_def map_filter_simps)

lemma objs_append: "objs (as @ bs) = objs as \<union> objs bs"
  by (induction as) (auto simp: objs_Nil objs_Cons)

lemma objs_simps [act_sets]:
  "objs [] = {}" "objs (as @ bs) = objs as \<union> objs bs" "objs (Write f # as) = set_option (owner f) \<union> objs as"
  "objs (Read f # as) = set_option (owner f) \<union> objs as" "objs (Publish ob # as) = insert ob (objs as)"
  "objs (exclusive l as) = set_option (lock_owner l) \<union> objs as" "objs (shared l as) = set_option (lock_owner l) \<union> objs as"
  "objs (concat (map g xs)) = (\<Union>x \<in> set xs. objs (g x))"
proof -
  show "objs (concat (map g xs)) = (\<Union>x \<in> set xs. objs (g x))"
    by (induction xs) (simp_all add: objs_Nil objs_append)
qed (auto simp: objs_Nil objs_Cons objs_append exclusive_def shared_def)

lemma client_sets [act_sets]:
  "writes (client_get x f) = {}" "writes (client_set x f) = {f}" "writes (ID_locks x) = {}"
  "objs (client_get x f) = insert (Conn x) (set_option (owner f))" "objs (client_set x f) = insert (Conn x) (set_option (owner f))"
  "objs (ID_locks x) = {Conn x}"
  by (auto simp: act_sets client_get_def client_set_def ID_locks_def)

lemma Send_sets [act_sets]:
  "writes (Send_locks full x) = {}" "objs (Send_locks full x) = {Queue x, Conn x}"
  "writes (CloseGracefully_locks x) = {}" "objs (CloseGracefully_locks x) = {Queue x, Conn x}"
  by (auto simp: act_sets Send_locks_def CloseGracefully_locks_def)

lemma sends_sets [act_sets]:
  "writes (sends_locks full xs) = {}" "objs (sends_locks full xs) = (\<Union>x \<in> set xs. {Queue x, Conn x})"
  by (auto simp: act_sets sends_locks_def)

lemma Add_sets [act_sets]:
  "writes (Add_locks full r x others au exists says) =
     insert (Var AuthVar x) (if exists then {} else {Members r, Var ChannelVar x})"
  "objs (Add_locks full r x others au exists says) =
     {Chan r, Conn x} \<union> (if exists then {} else insert (Queue x) (\<Union>y \<in> set others. {Queue y, Conn y}))"
  by (auto simp: act_sets Add_locks_def Add_body_def)

lemma Remove_sets [act_sets]:
  "writes (Remove_locks full r x others there) =
     {Members r, Var ChannelVar x} \<union> (if others \<in> {None, Some []} \<and> there then {ChannelTable} else {})"
  "objs (Remove_locks full r x others there) =
     {Chan r, Conn x} \<union> (\<Union>ys \<in> set_option others. \<Union>y \<in> set ys. {Queue y, Conn y})"
  by (cases others; auto simp: act_sets Remove_locks_def quitLocked_locks_def RemoveChannel_locks_def split: list.split)+

lemma relay_sets [act_sets]:
  "writes (SendAll_locks full r xs) = {}" "writes (SendOthers_locks full r x lonely xs) = {}"
  "objs (SendAll_locks full r xs) = insert (Chan r) (\<Union>y \<in> set xs. {Queue y, Conn y})"
  "objs (SendOthers_locks full r x lonely xs) =
     insert (Chan r) (if lonely then {Queue x, Conn x} else \<Union>y \<in> set xs. {Queue y, Conn y})"
  by (auto simp: act_sets SendAll_locks_def SendOthers_locks_def)

lemma table_sets [act_sets]:
  "writes FindClient_locks = {}" "writes FindChannel_locks = {}" "writes (channelKeyTaken_locks seen) = {}"
  "objs FindClient_locks = {}" "objs FindChannel_locks = {}" "objs (channelKeyTaken_locks seen) = Chan ` set seen"
proof -
  have "writes (map (\<lambda>r. Read (Fixed (Chan r))) seen) = {}" "objs (map (\<lambda>r. Read (Fixed (Chan r))) seen) = Chan ` set seen"
    by (induction seen) (auto simp: act_sets)
  then show "writes FindClient_locks = {}" "writes FindChannel_locks = {}" "writes (channelKeyTaken_locks seen) = {}"
    "objs FindClient_locks = {}" "objs FindChannel_locks = {}" "objs (channelKeyTaken_locks seen) = Chan ` set seen"
    by (auto simp: act_sets FindClient_locks_def FindChannel_locks_def channelKeyTaken_locks_def)
qed

lemma MessageReceived_sets [act_sets]:
  "writes (MessageReceived_locks full x h) =
     (case h of JoinLooked \<Rightarrow> {Var TypeVar x} | VersionSet valid \<Rightarrow> (if valid then {Var VersionVar x} else {}) | _ \<Rightarrow> {})"
  by (cases h) (auto simp: act_sets MessageReceived_locks_def)

section \<open>Covered steps\<close>

text \<open>
  The list writes whatever changes; it works on what exists, or on what it makes; and it makes
  exactly what is new.
\<close>

definition covered :: "act list \<Rightarrow> world \<Rightarrow> world \<Rightarrow> bool" where
  "covered as w w' \<longleftrightarrow>
     (\<forall>f. Write f \<in> set as \<or> field_kept w w' f) \<and>
     (\<forall>ob \<in> set (objects_of as). present w ob \<or> ob \<in> set (makes as)) \<and>
     (\<forall>ob. ob \<in> set (makes as) \<longleftrightarrow> \<not> present w ob \<and> present w' ob)"

lemma coveredI:
  assumes "makes as = []" "keeps (writes as) w w'" "\<And>ob. ob \<in> objs as \<Longrightarrow> present w ob"
  shows "covered as w w'"
  using assms by (auto simp: covered_def keeps_def writes_def objs_def)

lemma target_present: "world_inv w \<Longrightarrow> y \<in> set (targets e (members r w)) \<Longrightarrow> cl w y \<noteq> None"
  using world_inv_member [of w _ y r] by (fastforce simp: targets_def)

lemma room_present: "world_inv w \<Longrightarrow> cl w x = Some k \<Longrightarrow> cchan k = Some r \<Longrightarrow> ch w r \<noteq> None"
  using member_live [of w x k r] by auto

lemma keeps_Close: "keeps W w (upd_cl x Close w)"
proof (rule keeps_upd)
  show "Var v x \<in> W \<or> var_kept v k (Close k)" for v k by (cases v) (simp_all add: Close_def)
qed (simp add: conn_kept_def Close_def)

lemma makes_Received [simp]: "makes (MessageReceived_locks full x h) = []"
  by (simp add: MessageReceived_locks_def FindClient_locks_def makes_locked)

lemma covered_receive:
  assumes inv: "world_inv w" and r: "receive_begin env x b w = Ok (w', c)"
  shows "covered (MessageReceived_locks full x (handling_of env x b w)) w w'"
proof (rule coveredI)
  from r obtain k where k: "cl w x = Some k" and f: "FindClient x w"
    by (auto simp: receive_begin_def split: option.splits if_splits)
  let ?h = "handling_of env x b w"
  have relay: "present w ob" if "ob \<in> (\<Union>y \<in> set (targets e (members q w)). {Queue y, Conn y})" for ob q e
    using that target_present [OF inv] by auto
  have named: "present w (Chan q)" if "(n, q) \<in> set (channels w)" for n q
    using world_invD(4) [OF inv that] by auto
  show "present w ob" if "ob \<in> objs (MessageReceived_locks full x ?h)" for ob
  proof (cases "cchan k")
    case (Some q)
    with room_present [OF inv k] k f that relay [of ob _ q] show ?thesis
      by (auto simp: handling_of_def MessageReceived_locks_def act_sets split: prod.splits option.splits if_splits)
  next
    case None
    with k f that named show ?thesis
      by (auto simp: handling_of_def command_handling_def MessageReceived_locks_def act_sets
          split: sum.splits option.splits if_splits)
  qed
  show "keeps (writes (MessageReceived_locks full x ?h)) w w'"
  proof (cases "cchan k")
    case (Some q)
    have "keeps W w (SendAll pk q m e w)" "keeps W w (SendOthers pk q m e w)" for W pk m e
      by (rule keeps_only_sends [of "\<lambda>_. True"], simp add: SendAll_def only_sends_AllLocked only_sends_SendOthers)+
    with r k f Some show ?thesis by (auto simp: receive_begin_def split: prod.splits option.splits)
  next
    case None
    show ?thesis
    proof (cases "Decode b")
      case (Inl e)
      with r k f None show ?thesis by (simp add: receive_begin_def)
    next
      case (Inr d)
      with r k f None have c: "cmd_begin env x d w = Ok (w', c)" by (simp add: receive_begin_def)
      have h: "?h = command_handling env d w" using k f None Inr by (simp add: handling_of_def)
      have send: "keeps W w (client_Send pk x m w)" for W pk m
        by (rule keeps_only_sends [of "\<lambda>_. True"]) (simp add: only_sends_client_Send)
      have reply: "keeps W w (upd_cl x Close (client_Send pk x m w))" for W pk m
        using keeps_trans [OF send keeps_Close] .
      have sets: "Var TypeVar x \<in> W \<Longrightarrow> keeps W w (upd_cl x (SetConnectionType t) w)"
        "Var VersionVar x \<in> W \<Longrightarrow> keeps W w (upd_cl x (SetVersion i) w)" for W t i
      proof -
        have v: "var_kept v k (SetConnectionType t k) \<or> v = TypeVar" "var_kept v k (SetVersion i k) \<or> v = VersionVar" for v k
          by (cases v; simp add: SetConnectionType_def SetVersion_def)+
        show "Var TypeVar x \<in> W \<Longrightarrow> keeps W w (upd_cl x (SetConnectionType t) w)"
          by (rule keeps_upd) (use v(1) in \<open>auto simp: conn_kept_def SetConnectionType_def\<close>)
        show "Var VersionVar x \<in> W \<Longrightarrow> keeps W w (upd_cl x (SetVersion i) w)"
          by (rule keeps_upd) (use v(2) in \<open>auto simp: conn_kept_def SetVersion_def\<close>)
      qed
      obtain n p l where g: "getChannelParams (Channel d) = (n, p, l)" by (cases "getChannelParams (Channel d)") auto
      have close: "keeps W w (upd_cl x Close w)" for W by (rule keeps_Close)
      show ?thesis
        using c k None send reply sets close unfolding h
        by (auto simp: act_sets cmd_begin_def command_handling_def protocol_version_handler_def generate_begin_def sendJSON_def
            join_begin_def sendError_def g Let_def split: if_splits option.splits sum.splits)
    qed
  qed
qed simp

lemma keeps_Add:
  assumes c: "ch w r = Some c" and k: "cl w x = Some k" and ok: "Add pk r x p w = Ok w'"
    and W: "Var AuthVar x \<in> W" "map_of (members r w) (cid k) = None \<Longrightarrow> Members r \<in> W \<and> Var ChannelVar x \<in> W"
  shows "keeps W w w'"
proof -
  let ?w2 = "upd_cl x (SetAuthorized (grants c p)) w"
  have w2: "keeps W w ?w2"
  proof (rule keeps_upd)
    show "Var v x \<in> W \<or> var_kept v j (SetAuthorized (grants c p) j)" for v j
      using W(1) by (cases v) (simp_all add: SetAuthorized_def)
  qed (simp add: conn_kept_def SetAuthorized_def)
  have enter: "keeps W w (announce pk r x n i ct lm (enter r (cid k) x m ?w2))"
    if "Members r \<in> W" "Var ChannelVar x \<in> W" for n i ct lm m
  proof -
    have "keeps W u (upd_cl x (SetChannel r) u)" for u
    proof (rule keeps_upd)
      show "Var v x \<in> W \<or> var_kept v j (SetChannel r j)" for v j
        using that(2) by (cases v) (simp_all add: SetChannel_def)
    qed (simp add: conn_kept_def SetChannel_def)
    then have "keeps W w (enter r (cid k) x m ?w2)"
      unfolding enter_def by (rule keeps_trans [OF keeps_trans [OF w2 keeps_members [OF that(1)]]])
    then show ?thesis by (rule keeps_trans) (rule keeps_only_sends [OF only_sends_announce])
  qed
  show ?thesis
  proof (cases "map_of (members r w) (cid k)")
    case None
    with ok enter W(2) show ?thesis unfolding Add_unfold [OF c k] by (auto simp: Let_def split: option.splits)
  next
    case (Some y)
    with ok w2 show ?thesis unfolding Add_unfold [OF c k] by (simp add: Let_def)
  qed
qed

lemma covered_join_existing:
  assumes inv: "world_inv w" and k: "cl w x = Some k" and c: "ch w r = Some c"
    and ok: "join_commit pk x (Some r) n p l w = Ok w'"
  shows "covered (activity_locks (join_activity full x (Some r) n p l w)) w w'"
proof (rule coveredI)
  let ?as = "activity_locks (join_activity full x (Some r) n p l w)"
  have as: "writes ?as = insert (Var AuthVar x) (if map_of (members r w) (cid k) \<noteq> None then {} else {Members r, Var ChannelVar x})"
    using c k by (simp add: join_activity_def act_sets)
  show "makes ?as = []" using c k by (simp add: join_activity_def)
  show "keeps (writes ?as) w w'"
    unfolding as by (rule keeps_Add [OF c k]) (use ok in \<open>simp_all add: join_commit_def\<close>)
  show "present w ob" if "ob \<in> objs ?as" for ob
    using that c k target_present [OF inv, of _ "Some x" r] by (auto simp: join_activity_def act_sets split: if_splits)
qed

lemma covered_join_new:
  assumes inv: "world_inv w" and k: "cl w x = Some k" and ok: "join_commit pk x None n p l w = Ok w'"
  shows "covered (activity_locks (join_activity full x None n p l w)) w w'"
proof -
  let ?r = "next_ch w" and ?c = "fresh_channel n p l"
  let ?v = "new_channel ?c w"
  obtain au says where a: "activity_locks (join_activity full x None n p l w) = AddChannel_locks full ?r x au says"
    by (simp add: join_activity_def Let_def)
  let ?as = "AddChannel_locks full ?r x au says"
  have W: "writes ?as = {Fixed (Chan ?r), Members ?r, Var AuthVar x, Var ChannelVar x, ChannelTable}"
    by (auto simp: AddChannel_locks_def act_sets)
  have M: "makes ?as = [Chan ?r]" by (simp add: AddChannel_locks_def makes_locked)
  have O: "objs ?as = {Chan ?r, Conn x, Queue x}" by (auto simp: AddChannel_locks_def act_sets)
  have fresh: "ch w ?r = None" using fresh_address [OF inv] by simp
  from ok obtain w1 where A: "Add pk ?r x p ?v = Ok w1" and w': "w' = w1\<lparr>channels := AList.update n ?r (channels w1)\<rparr>"
    by (auto simp: join_commit_def AddChannel_def NewClientChannel_unfold go_bind_Ok_iff)
  have "keeps (writes ?as) ?v w1" by (rule keeps_Add [OF _ _ A, of ?c k]) (simp_all add: k W)
  also have "keeps (writes ?as) w1 w'" unfolding w' by (rule keeps_tables) (simp add: W)
  finally have kept: "keeps (writes ?as) ?v w'" .
  have new: "field_kept w ?v f" for f
  proof (cases f)
    case (Fixed ob)
    then show ?thesis by (cases ob) (auto simp: still_refl conn_kept_def chan_kept_def still_def fresh split: option.split)
  qed (auto simp: still_refl still_def fresh split: option.split)
  have "present ?v ob = (present w ob \<or> ob = Chan ?r)" for ob by (cases ob) auto
  with kept have p: "present w' ob = (present w ob \<or> ob = Chan ?r)" for ob by (simp add: keeps_def)
  have "Write f \<in> set ?as \<or> field_kept w w' f" for f
    using kept field_kept_trans [OF new] by (auto simp: keeps_def writes_def)
  moreover have "present w ob \<or> ob \<in> set (makes ?as)" if "ob \<in> set (objects_of ?as)" for ob
  proof -
    from that have "ob \<in> {Chan ?r, Conn x, Queue x}" unfolding O [symmetric] objs_def .
    then show ?thesis using k unfolding M by auto
  qed
  moreover have "ob \<in> set (makes ?as) \<longleftrightarrow> \<not> present w ob \<and> present w' ob" for ob
    unfolding M using p [of ob] fresh by (cases "ob = Chan ?r") simp_all
  ultimately show ?thesis unfolding covered_def a by blast
qed

lemma keeps_ClearChannel: "Var ChannelVar x \<in> W \<Longrightarrow> keeps W w (upd_cl x ClearChannel w)"
proof (rule keeps_upd)
  show "Var ChannelVar x \<in> W \<Longrightarrow> Var v x \<in> W \<or> var_kept v k (ClearChannel k)" for v k
    by (cases v) (simp_all add: ClearChannel_def)
qed (simp add: conn_kept_def ClearChannel_def)

lemma keeps_Remove:
  assumes c: "ch w r = Some c" and k: "cl w x = Some k" and ok: "Remove pk r x w = Ok w'"
    and W: "Members r \<in> W" "Var ChannelVar x \<in> W"
      "AList.delete (cid k) (members r w) = [] \<Longrightarrow> map_of (channels w) (ch_name c) \<noteq> None \<Longrightarrow> ChannelTable \<in> W"
  shows "keeps W w w'"
proof -
  let ?w2 = "leave r (cid k) x w"
  let ?w3 = "sendAllLocked pk r (mustEncode (client_left_msg (cid k) (connectionType k))) (Some x) ?w2"
  have o: "only_sends (\<lambda>_. True) ?w2 ?w3" by (simp add: only_sends_AllLocked)
  have "keeps W w ?w2"
    unfolding leave_def by (rule keeps_trans [OF keeps_members [OF W(1)] keeps_ClearChannel [OF W(2)]])
  also have "keeps W ?w2 ?w3" by (rule keeps_only_sends [OF o])
  finally have w3: "keeps W w ?w3" .
  have m: "members r ?w3 = AList.delete (cid k) (members r w)"
    using only_sends_frame(9) [OF o] by (simp add: members_leave)
  have ch3: "channels ?w3 = channels w" using only_sends_frame(3) [OF o] by (simp add: leave_def set_members_def)
  have "keeps W ?w3 (quitLocked r ?w3)" if e: "members r ?w3 = []"
  proof -
    obtain d where d: "ch ?w3 r = Some d" "ch_name d = ch_name c"
      using only_sends_frame(4) [OF o] c by (auto simp: leave_def)
    have "ClientsAll d = None \<or> ClientsAll d = Some []" using e d(1) by (auto simp: members_def split: option.splits)
    moreover have R: "keeps W v (RemoveChannel (ch_name d) v)" if "channels v = channels w" for v
      using that keeps_RemoveChannel [of v "ch_name d" W] W(3) e m d(2) by (cases "map_of (channels w) (ch_name d)") auto
    then have "keeps W ?w3 (RemoveChannel (ch_name d) ?w3)"
      "keeps W ?w3 (RemoveChannel (ch_name d) (set_members r None ?w3))"
      using keeps_trans [OF keeps_members [OF W(1)] R] ch3 by (simp_all add: set_members_def)
    ultimately show ?thesis using d(1) by (auto simp: quitLocked_def)
  qed
  moreover have "w' = (if members r ?w3 = [] then quitLocked r ?w3 else ?w3)"
    using ok by (simp add: Remove_unfold [OF c k] Let_def)
  ultimately show ?thesis using w3 keeps_trans [OF w3] by simp
qed

lemma covered_leave:
  assumes inv: "world_inv w" and ok: "leave_channel pk x w = Ok w'"
  shows "covered (activity_locks (Leave full x (left_behind x w) True)) w w'"
proof (rule coveredI)
  let ?as = "activity_locks (Leave full x (left_behind x w) True)"
  from ok obtain k where k: "cl w x = Some k" by (cases "cl w x") (simp_all add: leave_channel_def)
  show "makes ?as = []" by (simp add: RemoveClient_locks_def makes_locked split: option.split)
  show "present w ob" if ob: "ob \<in> objs ?as" for ob
  proof -
    have "present w ob" if m: "cchan k = Some r" "ch w r = Some c" "ClientsAll c = Some m" "y \<in> set (map snd (AList.delete (cid k) m))"
      "ob = Queue y \<or> ob = Conn y" for r c m y
    proof -
      have "(\<exists>i. (i, y) \<in> set (members r w))" using m(2-4) by (auto simp: members_def set_AList_delete)
      then have "cl w y \<noteq> None" using world_inv_member [OF inv] by fastforce
      with m(5) show ?thesis by auto
    qed
    with ob k show ?thesis
      by (auto simp: left_behind_def RemoveClient_locks_def act_sets split: option.splits if_splits)
  qed
  show "keeps (writes ?as) w w'"
  proof (cases "cchan k")
    case None
    with ok k show ?thesis by (simp add: leave_channel_def)
  next
    case (Some r)
    with ok k have R: "Remove pk r x w = Ok w'" by (simp add: leave_channel_def)
    from room_present [OF inv k Some] obtain c where c: "ch w r = Some c" by auto
    have "members r w = (case ClientsAll c of None \<Rightarrow> [] | Some m \<Rightarrow> m)" using c by (simp add: members_def)
    then show ?thesis
      by (intro keeps_Remove [OF c k R])
        (auto simp: left_behind_def k Some c RemoveClient_locks_def act_sets split: option.splits)
  qed
qed

lemma covered_accept:
  assumes inv: "world_inv w" and a: "accept addr s pd w = (x, w')"
  shows "covered (concat (map activity_locks [Register s x, ListenStart x])) w w'"
proof -
  note A = accept_simps [OF a]
  let ?as = "concat (map activity_locks [Register s x, ListenStart x])"
  have fresh: "cl w x = None" using world_invD(1) [OF inv, of x] A(1) by (cases "cl w x") (auto simp: client_ok_def)
  have M: "makes ?as = [Conn x, Queue x]" by (simp add: makes_locked AddClient_locks_def)
  have O: "objs ?as = {Conn x, Queue x, Loop s}" by (auto simp: AddClient_locks_def act_sets)
  have W: "ClientTable \<in> writes ?as" by (simp add: AddClient_locks_def act_sets)
  have "field_kept w w' f \<or> f = ClientTable" for f
  proof (cases f)
    case (Fixed ob)
    then show ?thesis
      by (cases ob) (auto simp: A(4,7) still_refl conn_kept_def chan_kept_def still_def fresh split: option.split)
  qed (auto simp: A(4,5,7) still_refl still_def fresh split: option.split)
  moreover from W have "Write ClientTable \<in> set ?as" by (simp only: writes_def mem_Collect_eq)
  ultimately have "Write f \<in> set ?as \<or> field_kept w w' f" for f by metis
  moreover have "present w ob \<or> ob \<in> set (makes ?as)" if "ob \<in> set (objects_of ?as)" for ob
  proof -
    from that have "ob \<in> {Conn x, Queue x, Loop s}" unfolding O [symmetric] objs_def .
    then show ?thesis unfolding M by auto
  qed
  moreover have "ob \<in> set (makes ?as) \<longleftrightarrow> \<not> present w ob \<and> present w' ob" for ob
    unfolding M using fresh by (cases ob) (simp_all add: A(4,7) del: not_None_eq)
  ultimately show ?thesis unfolding covered_def by blast
qed

lemma keeps_own:
  "keeps W w (upd_cl x (ping pick) w)" "keeps W w (upd_cl x (writer_step net e) w)"
  "Var ClosedVar x \<in> W \<Longrightarrow> keeps W w (upd_cl x teardown w)"
  "client_CloseGracefully pick x w = Ok w' \<Longrightarrow> keeps W w w'"
  "keeps W w (close_all s w)"
proof -
  have k: "conn_kept k (ping pick k) \<and> var_kept v k (ping pick k)" "conn_kept k (writer_step net e k) \<and> var_kept v k (writer_step net e k)"
    "conn_kept k (teardown k) \<and> (v = ClosedVar \<or> var_kept v k (teardown k))" for v k
    by (cases v; auto simp: conn_kept_def setter_defs teardown_def ping_def sends_only_fields [OF sends_only_Send]
      writer_step_def writer_take_def writer_timer_def Let_def set_wr_def stop_writer_def
      split: list.split writer_event.split)+
  show "keeps W w (upd_cl x (ping pick) w)" "keeps W w (upd_cl x (writer_step net e) w)"
    by (rule keeps_upd; use k in blast)+
  show "keeps W w (upd_cl x teardown w)" if W: "Var ClosedVar x \<in> W"
  proof (rule keeps_upd)
    show "Var v x \<in> W \<or> var_kept v k (teardown k)" for v k using k(3) [of k v] W by (cases "v = ClosedVar") simp_all
  qed (use k(3) in blast)
  show "keeps W w w'" if g: "client_CloseGracefully pick x w = Ok w'"
  proof -
    from g obtain k k' where k: "cl w x = Some k" "CloseGracefully pick k = Ok k'" "w' = upd_cl x (\<lambda>_. k') w"
      by (auto simp: client_CloseGracefully_def split: option.splits go.splits)
    have "conn_kept k k' \<and> var_kept v k k'" for v
      using k(2) by (cases v; auto simp: CloseGracefully_def Close_def conn_kept_def split: if_splits)
    then show ?thesis unfolding k(3) by (intro keeps_upd) (use k(1) in auto)
  qed
  show "keeps W w (close_all s w)"
  proof (rule keeps_clients)
    show "still (\<lambda>k k'. conn_kept k k' \<and> (\<forall>v. Var v y \<in> W \<or> var_kept v k k')) (cl w y) (cl (close_all s w) y)" for y
    proof -
      have "conn_kept k (Close k) \<and> var_kept v k (Close k)" for v k by (cases v; simp add: Close_def conn_kept_def)
      then show ?thesis by (auto simp: close_all_def still_def conn_kept_def split: option.split)
    qed
  qed (simp_all add: close_all_def)
qed

section \<open>Every event\<close>

lemma covered_quiet:
  assumes "cl w x \<noteq> None" "makes as = []" "objs as \<subseteq> {Conn x, Queue x} \<union> range Loop" "keeps (writes as) w w'"
  shows "covered as w w'"
proof (rule coveredI [OF assms(2,4)])
  fix ob assume "ob \<in> objs as"
  with assms(3) have "ob \<in> {Conn x, Queue x} \<union> range Loop" by blast
  with assms(1) show "present w ob" by auto
qed

lemma covered_perform:
  assumes inv: "sys_inv sy" and p: "perform mx e sy = Some sy'" and c: "crash sy' = None"
  shows "covered (event_acts full mx e sy) (sw sy) (sw sy')"
proof -
  have W: "world_inv (sw sy)" "settled (sw sy)" using inv by (simp_all add: sys_inv_def)
  from p have r: "crash sy = None" and q: "perform_running mx e sy = Some sy'"
    by (simp_all add: perform_def split: if_splits)
  note reader = connected_reader [OF inv]
  note single = event_acts_def activities_of.simps list.map concat.simps append_Nil2
  show ?thesis
  proof (cases e)
    case (EAccept addr s)
    obtain x w' where a: "accept addr s (stopped sy s) (sw sy) = (x, w')" by fastforce
    from accept_simps [OF a] have x: "x = next_cl (sw sy)" by simp
    from q EAccept a have "sw sy' = w'" by (auto simp: set_stage_def)
    with covered_accept [OF W(1) a] EAccept show ?thesis by (simp only: event_acts_def activities_of.simps x)
  next
    case (EReceive env x input)
    with q obtain m rest b where m: "stages sy x = Some Reading" "ReadBytes EndMessage input = Some (m, rest)"
      "handle_frame mx m = Received b" "settle x (receive_begin env x b (sw sy)) sy = Some sy'"
      by (auto split: option.splits stage.splits prod.splits frame_action.splits)
    have con: "connected x (sw sy)" using reader [OF m(1)] by simp
    have b: "clean b" using m(2,3) by (rule handle_frame_clean)
    from m(4) r c obtain w' t where s: "receive_begin env x b (sw sy) = Ok (w', t)" "sw sy' = w'"
      by (rule settle_running) (use receive_begin_ok(2) [OF W con b] in blast)
    have "event_acts full mx e sy = MessageReceived_locks full x (handling_of env x b (sw sy))"
      by (simp add: event_acts_def EReceive m(2,3))
    with covered_receive [OF W(1) s(1)] s(2) show ?thesis by simp
  next
    case (ECommit pk x)
    with q obtain f n p l where st: "stages sy x = Some (Joining f n p l)"
      and s: "settle x (finished (join_commit pk x f n p l (sw sy))) sy = Some sy'"
      by (auto split: option.splits stage.splits)
    have "stage_ok (sw sy) x (Joining f n p l)" using inv st by (simp only: sys_inv_def)
    then obtain k where k: "cl (sw sy) x = Some k" and f: "\<forall>g. f = Some g \<longrightarrow> (\<exists>d. ch (sw sy) g = Some d)"
      by (auto simp: outside_def split: option.splits)
    from s r c obtain w' t where "finished (join_commit pk x f n p l (sw sy)) = Ok (w', t)" "sw sy' = w'"
      by (rule settle_running) (use second_part_no_Goexit(1) in \<open>cases "join_commit pk x f n p l (sw sy)"; auto\<close>)
    then have ok: "join_commit pk x f n p l (sw sy) = Ok (sw sy')"
      by (cases "join_commit pk x f n p l (sw sy)") simp_all
    have as: "event_acts full mx e sy = activity_locks (join_activity full x f n p l (sw sy))"
      by (simp add: event_acts_def ECommit st)
    show ?thesis
    proof (cases f)
      case None
      with ok have "join_commit pk x None n p l (sw sy) = Ok (sw sy')" by simp
      from covered_join_new [OF W(1) k this] None show ?thesis unfolding as by simp
    next
      case (Some g)
      with ok f obtain d where "ch (sw sy) g = Some d" "join_commit pk x (Some g) n p l (sw sy) = Ok (sw sy')" by auto
      from covered_join_existing [OF W(1) k this] Some show ?thesis unfolding as by simp
    qed
  next
    case (EGraceful pick x)
    with q have st: "stages sy x = Some Closing"
      and s: "settle x (finished (client_CloseGracefully pick x (sw sy))) sy = Some sy'"
      by (simp_all split: if_splits)
    from s r c obtain w' t where "finished (client_CloseGracefully pick x (sw sy)) = Ok (w', t)" "sw sy' = w'"
      by (rule settle_running) (use second_part_no_Goexit(2) in \<open>cases "client_CloseGracefully pick x (sw sy)"; auto\<close>)
    then have "client_CloseGracefully pick x (sw sy) = Ok (sw sy')"
      by (cases "client_CloseGracefully pick x (sw sy)") simp_all
    from keeps_own(4) [OF this] reader(2) [OF st] show ?thesis
      unfolding single EGraceful by (intro covered_quiet [of _ x]) (simp_all add: MessageReceived_locks_def FindClient_locks_def makes_locked act_sets)
  next
    case (EHangup x)
    with q have st: "stages sy x = Some Reading" and s: "sw sy' = upd_cl x Close (sw sy)"
      by (auto simp: set_stage_def split: if_splits)
    from reader(2) [OF st] show ?thesis
      unfolding single EHangup s by (intro covered_quiet [of _ x]) (auto simp: act_sets makes_locked intro: keeps_Close)
  next
    case (ELeave pk x)
    with q have st: "stages sy x = Some Leaving" by (simp split: if_splits)
    from q ELeave st c obtain w' where w': "leave_channel pk x (sw sy) = Ok w'" "sy' = set_stage x Deleting w' sy"
      by (auto split: go.splits)
    from covered_leave [OF W(1) w'(1)] show ?thesis unfolding single ELeave w'(2) by (simp add: set_stage_def)
  next
    case (EDelete x)
    with q have st: "stages sy x = Some Deleting" and s: "sw sy' = delete_client x (sw sy)"
      by (auto simp: set_stage_def split: if_splits)
    have "keeps (writes (activity_locks (Leave full x None True))) (sw sy) (delete_client x (sw sy))"
      unfolding delete_client_def by (simp add: keeps_tables RemoveClient_locks_def act_sets)
    with reader(2) [OF st] show ?thesis
      unfolding single EDelete s
      by (intro covered_quiet [of _ x]) (auto simp: RemoveClient_locks_def act_sets makes_locked)
  next
    case (EPing pick x)
    with q have k: "cl (sw sy) x \<noteq> None" "sw sy' = upd_cl x (ping pick) (sw sy)"
      by (auto split: option.splits if_splits)
    show ?thesis
      unfolding single EPing k(2) by (rule covered_quiet [OF k(1)]) (auto simp: act_sets makes_locked Send_locks_def intro: keeps_own)
  next
    case (ETeardown x)
    with q obtain k where k: "cl (sw sy) x = Some k" "sw sy' = upd_cl x teardown (sw sy)"
      by (auto split: option.splits if_splits)
    then have "cl (sw sy) x \<noteq> None" by simp
    moreover have as: "event_acts full mx e sy = activity_locks (Teardown (srv k) x)" by (simp add: event_acts_def ETeardown k)
    ultimately show ?thesis
      unfolding as k(2) by (intro covered_quiet [of _ x]) (auto simp: act_sets makes_locked intro: keeps_own)
  next
    case (EWriter net we x)
    with q have k: "cl (sw sy) x \<noteq> None" "sw sy' = upd_cl x (writer_step net we) (sw sy)"
      by (auto split: option.splits if_splits)
    show ?thesis
      unfolding single EWriter k(2) by (rule covered_quiet [OF k(1)]) (auto simp: act_sets makes_locked intro: keeps_own)
  next
    case (EStop s)
    with q have "sw sy' = close_all s (sw sy)" by auto
    then show ?thesis
      unfolding single EStop by (intro coveredI) (auto simp: act_sets makes_locked intro: keeps_own)
  qed
qed

end
