(* ===== verification/Coverage_Properties.thy ===== *)
theory Coverage_Properties
  imports Lock_Coverage System_Properties
begin

text \<open>
  The steps of the server and the lists of locks and accesses belong together.
\<close>

text \<open>The run in which the member of a channel with two hangs up and is then removed.\<close>

definition member_gone :: "event list" where "member_gone = two_join @ [EHangup 0]"

lemma member_gone_view:
  "map_option (\<lambda>sy. (members 0 (sw sy), map_option (\<lambda>sy'. (crash sy', members 0 (sw sy'))) (perform 0 (ELeave any_pick 0) sy)))
     (run_events 0 member_gone (initial [] False)) = Some ([(2, 1), (1, 0)], Some (None, [(2, 1)]))"
  by code_simp

lemma member_gone_at:
  obtains sy' where "reach (initial [] False) (sys_step 0) (after member_gone)"
    "perform 0 (ELeave any_pick 0) (after member_gone) = Some sy'" "crash sy' = None"
    "members 0 (sw sy') \<noteq> members 0 (sw (after member_gone))"
proof -
  from member_gone_view obtain sy where sy: "run_events 0 member_gone (initial [] False) = Some sy" by auto
  then have a: "after member_gone = sy" by (simp add: after_def)
  from sy have "reach (initial [] False) (sys_step 0) (after member_gone)" by (intro after_reach) simp
  with member_gone_view sy a that show thesis by (auto split: option.splits)
qed

text \<open>
  C17 Whatever the server does in a step lies within the accesses of the activities that carry
  the step out: they write each field that the step changes, work on objects that exist or are
  their own, and hand over exactly the objects the step adds. By \<open>no_data_races\<close> those writes
  happen under the locks that guard the fields.
\<close>

theorem steps_within_locks:
  assumes "reach (initial m d) (sys_step mx) sy" "perform mx e sy = Some sy'" "crash sy' = None"
  shows "covered (event_acts full mx e sy) (sw sy) (sw sy')"
  using covered_perform [OF reach_inv [OF assms(1)] assms(2,3)] .

lemma steps_within_locks_witness:
  "\<exists>sy'. perform 0 (ELeave any_pick 0) (after member_gone) = Some sy' \<and>
     members 0 (sw sy') \<noteq> members 0 (sw (after member_gone)) \<and>
     covered (event_acts (\<lambda>_. False) 0 (ELeave any_pick 0) (after member_gone)) (sw (after member_gone)) (sw sy')"
proof (rule member_gone_at)
  fix sy'
  assume "reach (initial [] False) (sys_step 0) (after member_gone)"
    and p: "perform 0 (ELeave any_pick 0) (after member_gone) = Some sy'" "crash sy' = None"
      "members 0 (sw sy') \<noteq> members 0 (sw (after member_gone))"
  from steps_within_locks [OF this(1) p(1,2), of "\<lambda>_. False"] p(1,3) show ?thesis by blast
qed

end
