(* ===== verification/Spec2Isabelle.thy ===== *)
theory Spec2Isabelle
  imports System_Properties Channel_Properties Connection_Properties Protocol_Properties
    Operations_Properties Lifecycle_Properties Startup_Properties Lock_Properties Delivery_Properties
    Typing_Properties Process_Properties Coverage_Properties
begin

text \<open>
  A model of nvdaRemoteServer, the relay server of NVDA Remote (package \<open>server\<close> and the
  main package, in Go), with the theorems that make it correct.

  The program. Clients connect over TCP or TLS and send lines of JSON. A client first joins a
  channel by its key; from then on each of its lines is relayed to the other members of the
  channel, with the number of the sender inserted as \<open>origin\<close>. Each connection has three
  goroutines: a reader that handles one line after the other, a writer that takes messages from
  the bounded queue of the client, and one for the ping and the teardown. They share the client
  objects, the channels, and the tables of clients and channels.

  Conventions. A byte string is a list of characters. A Go map that is ranged over is an
  association list, whose order stands for the arbitrary order of the visit. Pointers are
  addresses into the maps \<open>cl\<close> and \<open>ch\<close> of the record \<open>world\<close>. The end of a call
  is a value of \<open>'a go\<close>: a return, a panic, \<open>runtime.Goexit\<close>, or never. What the
  program gets from outside is an argument: the network (how many bytes of a write the
  connection takes), the answer of a \<open>select\<close> with several ready cases, the bytes of
  \<open>crypto/rand\<close>, the file system, the parser of floats.

  The theories, in the order of their imports, and the code they model:

  \<^item> \<open>Prelude\<close>: outcomes of calls, association lists, and the interfaces: \<open>token_codec\<close>
    (a reader that undoes a writer; interpreted for UTF-8 runes and for terminated lines),
    \<open>delivery\<close> (a loop over objects, in any order; interpreted for sending and for clearing),
    \<open>invariant_system\<close> (interpreted for the whole server, its types, the sequential one, the
    life of the servers and the locks) and \<open>simulation\<close> (interpreted for the server and the
    abstract rooms, and for the life of the servers and the server).
  \<^item> \<open>Go_Text\<close>, \<open>Utf8\<close>, \<open>Json\<close>: what the code uses of \<open>strings\<close>,
    \<open>strconv\<close>, \<open>unicode/utf8\<close> and \<open>encoding/json\<close>: a parser with the depth
    limit of the package, a printer, and the proof that the first undoes the second.
  \<^item> \<open>Json_Funcs\<close>: \<open>JsonAddOrigin\<close> of \<open>server/jsonFuncs.go\<close> on bytes, and
    the parse tree of what it returns. \<open>Messages\<close>: the structs of \<open>server/data.go\<close>,
    \<open>Encode\<close> and \<open>Decode\<close>.
  \<^item> \<open>Client_Conn\<close>: the client object of \<open>server/client.go\<close>, \<open>Send\<close>,
    \<open>CloseGracefully\<close>, the writer goroutine with its buffer and flush timer, the teardown
    (\<open>byte_sink\<close> is what the writer relies on, interpreted for the buffered writer);
    the stream of a client (on the wire, buffered, queued) as the simulation relation between
    the connection and the list of accepted messages.
  \<^item> \<open>Channels\<close>, \<open>Membership\<close>: \<open>server/clientChannel.go\<close>, the heap of
    clients and channels, and the invariant that ties them together, kept by every operation.
    \<open>Registry\<close>: the tables of \<open>server/server.go\<close>. \<open>Effects\<close>: joining,
    leaving and relaying written out as what every single client gets.
  \<^item> \<open>Key_Gen\<close>: \<open>server/genKey.go\<close>; \<open>Commands\<close>: \<open>server/commands.go\<close>,
    with the contract of a command handler as a locale (\<open>handler_table\<close>); \<open>Serve\<close>:
    the reader loop, \<open>MessageReceived\<close>, accepting, the deferred clean-up.
  \<^item> \<open>System\<close>: all connections at once as a step relation. A command that takes locks
    twice is two steps, every critical section is one. \<open>perform\<close> is its executable form.
    \<open>Rooms\<close>: the abstract server and the refinement. \<open>Sequential\<close>: the server
    without interleaving of messages. \<open>Lifecycle\<close>: listening, the accept loop, stopping and
    the wait group of \<open>server/connection.go\<close>, as steps around the system (of which it is a
    \<open>simulation\<close>), and the wait of \<open>main\<close>. \<open>Locks\<close>: what every function does
    with the mutexes and with the fields that goroutines share, as lists that goroutines run
    against each other. \<open>Lock_Order\<close>: the order of the locks, with the exception
    \<open>AddChannel\<close> makes for a channel nobody knows yet, and which lock guards which field,
    once an object is handed over to other goroutines. \<open>Lock_Coverage\<close>: which activities
    carry out which event of \<open>System\<close>, and that they cover all it does.
  \<^item> \<open>Delivery\<close>: the mail of an event, that is, which messages it addresses to which client,
    and the mail of a run; what the operations on channels keep of the stream of every client, so
    that a run moves exactly its mail. \<open>Typing\<close>: the types the code leaves
    implicit (the strings kept in clients and channels are UTF-8, the numbers of clients fit their
    width, references lead to objects of their kind) as an invariant of the whole server, and the
    messages of the server as objects of its protocol.
  \<^item> \<open>Logging\<close> (\<open>server/logger.go\<close>), \<open>Config\<close> (\<open>server/conf.go\<close>,
    \<open>server/configure.go\<close>, \<open>server/defaults.go\<close>), \<open>Certificates\<close>
    (\<open>server/genCert.go\<close>, the builders of TLS configurations and the servers made from them,
    over the functions of the cryptographic packages), \<open>Daemon\<close> (\<open>daemon_unix.go\<close>,
    \<open>server/pid.go\<close>, \<open>server/file.go\<close>, \<open>server/shutdown.go\<close>, the ways
    \<open>main\<close> of \<open>nvdaRemoteServer.go\<close> can end), \<open>Flags\<close> (\<open>registerFlags\<close> and
    the parser of package \<open>flag\<close>), \<open>Startup\<close> (\<open>Configure\<close> from the arguments to the
    addresses, \<open>log_init\<close>, \<open>args\<close> and \<open>main\<close>, \<open>buildInfo.go\<close>,
    \<open>daemon_windows.go\<close>, the defaults of each system), \<open>Sockets\<close> (the options of accepted
    connections, the deadline of the handshake, the ping ticker).
  \<^item> \<open>Scenarios\<close>: concrete runs, and then the properties: \<open>System_Properties\<close> (all
    reachable states, what can crash and does), \<open>Channel_Properties\<close> (who is sent what),
    \<open>Connection_Properties\<close> (closing, slow peers), \<open>Delivery_Properties\<close> (what a peer
    reads, from the lines of all peers), \<open>Typing_Properties\<close> (types, and that no typed state is
    stuck), \<open>Protocol_Properties\<close> (bytes and messages), \<open>Lifecycle_Properties\<close> (the wait
    group, shutting down), \<open>Lock_Properties\<close> (no deadlock, no data race),
    \<open>Coverage_Properties\<close> (steps of the server within the accesses of its goroutines),
    \<open>Operations_Properties\<close> (keys, the configuration file, logs), \<open>Startup_Properties\<close> (flags, priorities, the PID file of
    daemon and server), \<open>Process_Properties\<close> (the end of the process, the start of a
    connection).

  Fuel and bounds. The loop that reads tokens has the length of its input as fuel, and every
  token takes a byte; the JSON parser has the length of its input and the package's limit of
  10000 levels. The queue holds 100 messages, a client is closed at 500 drops, counters are
  32-bit words, random draws and durations 64-bit words. The key loop is a partial function without fuel.

  What modelling showed: two panics that take the process down (a join that meets the quit of
  its channel, a graceful close on a closed queue), after which the PID file stays, because
  \<open>CatchPanic\<close> is deferred in \<open>main\<close> only; two channels of one name, an \<open>origin\<close>
  that a sender can forge, log thresholds that do the opposite of what they are documented to do,
  a connection that is registered after \<open>main\<close> has stopped waiting, a ping interval that is
  accepted and makes the first connection panic, and PID files on which the
  daemon commands and the server do not agree.

  Not modelled: the inside of the TLS handshake and of sockets, of the cryptographic packages and
  of CertMagic, which are arguments; time, except as freely chosen timer
  events (a write that runs into its deadline of eight seconds is a write that fails); the text of log
  lines and of panics. The server is taken as interleaved steps, as Go's memory model allows for
  programs without data races; that the fields that goroutines share are free of them is
  \<open>no_data_races\<close>, that critical sections are not interrupted is part of it. The steps of
  \<open>System\<close> and the lists of \<open>Locks\<close> are two models of the same functions;
  \<open>steps_within_locks\<close> ties them together on what is written, made and worked on, except
  for steps that end in a panic. That the branches of a list are chosen as the code chooses them
  in every interleaving is not proved, only for the state a step starts from.
\<close>

end
